(* ===== verification/Prelude.thy ===== *)
theory Prelude
  imports Main "HOL-Library.Word" "HOL-Library.List_Lexorder"
begin

text \<open>
  Shared vocabulary of the development: Rust integer widths and checked arithmetic, the
  error type (\<^verbatim>\<open>src/src/error.rs\<close>), the result combinators that stand for the
  \<^verbatim>\<open>?\<close> operator, decimal and hexadecimal rendering used by formatted messages, and
  generic list lemmas. The \<open>named_theorems\<close> collections declared here carry the
  component proofs:
    \<^item> \<open>result_elims\<close>: inversion rules for a computation that returned \<open>Inr\<close>;
    \<^item> \<open>width_simps\<close>: the values of the machine widths.
\<close>

named_theorems result_elims
named_theorems width_simps

section \<open>Machine integers\<close>

type_synonym u8 = "8 word"
type_synonym u32 = "32 word"
type_synonym bytes = "u8 list"

text \<open>
  \<open>u64\<close> and \<open>usize\<close> values are natural numbers below \<open>2 ^ 64\<close>: the modelled
  host is a 64-bit one, so \<open>usize\<close> and \<open>u64\<close> have the same range. Every addition and
  multiplication the code performs on them is a checked operation and is modelled by one.
\<close>

lemma unat_u8_less: "unat (b :: u8) < 256"
  using unsigned_less [of b] by simp

lemma unat_u32_less: "unat (w :: u32) < 4294967296"
  using unsigned_less [of w] by simp

definition u64_max :: nat where
  "u64_max = 18446744073709551615"

definition usize_max :: nat where
  "usize_max = 18446744073709551615"

definition u32_max :: nat where
  "u32_max = 4294967295"

lemmas width_defs [width_simps] = u64_max_def usize_max_def u32_max_def

definition checked_add :: "nat \<Rightarrow> nat \<Rightarrow> nat option" where
  "checked_add a b = (if a + b \<le> u64_max then Some (a + b) else None)"

definition checked_mul :: "nat \<Rightarrow> nat \<Rightarrow> nat option" where
  "checked_mul a b = (if a * b \<le> u64_max then Some (a * b) else None)"

definition checked_sub :: "nat \<Rightarrow> nat \<Rightarrow> nat option" where
  "checked_sub a b = (if b \<le> a then Some (a - b) else None)"

lemma checked_add_Some [simp]: "checked_add a b = Some c \<longleftrightarrow> c = a + b \<and> a + b \<le> u64_max"
  by (auto simp: checked_add_def)

lemma checked_add_None [simp]: "checked_add a b = None \<longleftrightarrow> u64_max < a + b"
  by (auto simp: checked_add_def)

lemma checked_mul_Some [simp]: "checked_mul a b = Some c \<longleftrightarrow> c = a * b \<and> a * b \<le> u64_max"
  by (auto simp: checked_mul_def)

lemma checked_mul_None [simp]: "checked_mul a b = None \<longleftrightarrow> u64_max < a * b"
  by (auto simp: checked_mul_def)

lemma checked_sub_Some [simp]: "checked_sub a b = Some c \<longleftrightarrow> b \<le> a \<and> c = a - b"
  by (auto simp: checked_sub_def)

lemma checked_sub_None [simp]: "checked_sub a b = None \<longleftrightarrow> a < b"
  by (auto simp: checked_sub_def)

definition saturating_add :: "nat \<Rightarrow> nat \<Rightarrow> nat" where
  "saturating_add a b = min (a + b) u64_max"

section \<open>Errors\<close>

text \<open>
  \<open>Error\<close> and the rejection reasons of a persistent index. Static strings and formatted
  messages are HOL strings; \<open>Io\<close> carries a name of the failed operation. \<open>Truncated\<close>,
  \<open>LimitExceeded\<close> and \<open>ChecksumMismatch\<close> keep their numeric fields.
\<close>

datatype key_index_rejection =
    InvalidMagic
  | UnsupportedFormatRevision nat
  | UnsupportedEndianMarker nat
  | IncompatibleParserRevision nat
  | IncompatibleNormalizationRevision nat
  | SourceIdentityMismatch
  | SourceLengthMismatch nat nat
  | SourceModifiedMismatch int int
  | KeyCountMismatch nat nat
  | FileLengthMismatch nat nat
  | InvalidLayout string
  | IndexChecksumMismatch string "nat option" u32 u32
  | SourceKeyMismatch nat

datatype error =
    Io string
  | InvalidFormat string
  | InvalidData string
  | Truncated string nat nat
  | LimitExceeded string nat nat
  | AllocationFailed string nat
  | ChecksumMismatch string u32 u32
  | Decode string string
  | MissingPasscode
  | InvalidPasscode string
  | Unsupported string
  | KeyIndexRejected key_index_rejection
  | Cancelled string
  | SourceChanged string

type_synonym 'a result = "error + 'a"

definition and_then :: "'a result \<Rightarrow> ('a \<Rightarrow> 'b result) \<Rightarrow> 'b result" where
  "and_then r f = (case r of Inl e \<Rightarrow> Inl e | Inr x \<Rightarrow> f x)"

definition ok_or :: "'a option \<Rightarrow> error \<Rightarrow> 'a result" where
  "ok_or v e = (case v of None \<Rightarrow> Inl e | Some x \<Rightarrow> Inr x)"

lemma and_then_simps [simp]:
  "and_then (Inl e) f = Inl e"
  "and_then (Inr x) f = f x"
  by (simp_all add: and_then_def)

lemma and_then_assoc: "and_then (and_then r f) g = and_then r (\<lambda>x. and_then (f x) g)"
  by (cases r) simp_all

lemma and_then_Inr: "and_then r f = Inr y \<longleftrightarrow> (\<exists>x. r = Inr x \<and> f x = Inr y)"
  by (cases r) simp_all

lemma and_then_Inl: "and_then r f = Inl e \<longleftrightarrow> r = Inl e \<or> (\<exists>x. r = Inr x \<and> f x = Inl e)"
  by (cases r) simp_all

lemma and_then_InrE [result_elims, elim!]:
  assumes "and_then r f = Inr y"
  obtains x where "r = Inr x" and "f x = Inr y"
  using assms by (auto simp: and_then_Inr)

lemma ok_or_simps [simp]:
  "ok_or None e = Inl e"
  "ok_or (Some x) e = Inr x"
  by (simp_all add: ok_or_def)

lemma ok_or_Inr [simp]: "ok_or v e = Inr x \<longleftrightarrow> v = Some x"
  by (cases v) simp_all

lemma ok_or_Inl [simp]: "ok_or v e = Inl e' \<longleftrightarrow> v = None \<and> e' = e"
  by (cases v) auto

lemma if_Inl_Inr [simp]: "(if c then Inl e else r) = Inr x \<longleftrightarrow> \<not> c \<and> r = Inr x"
  by simp

section \<open>Rendering numbers in messages\<close>

definition digit_char :: "nat \<Rightarrow> char" where
  "digit_char d = (if d < 10 then char_of (48 + d) else char_of (87 + d))"

fun dec :: "nat \<Rightarrow> string" where
  "dec n = (if n < 10 then [digit_char n] else dec (n div 10) @ [digit_char (n mod 10)])"

declare dec.simps [simp del]

definition hex2 :: "u8 \<Rightarrow> string" where
  "hex2 b = [digit_char (unat b div 16), digit_char (unat b mod 16)]"

section \<open>Lists\<close>

text \<open>The slice \<open>xs[a..b]\<close>, defined for \<open>a \<le> b \<le> length xs\<close> by the caller's check.\<close>

definition slice :: "nat \<Rightarrow> nat \<Rightarrow> 'a list \<Rightarrow> 'a list" where
  "slice a b xs = take (b - a) (drop a xs)"

definition get :: "'a list \<Rightarrow> nat \<Rightarrow> 'a option" where
  "get xs i = (if i < length xs then Some (xs ! i) else None)"

definition get_range :: "'a list \<Rightarrow> nat \<Rightarrow> nat \<Rightarrow> 'a list option" where
  "get_range xs a b = (if a \<le> b \<and> b \<le> length xs then Some (slice a b xs) else None)"

lemma get_Some [simp]: "get xs i = Some x \<longleftrightarrow> i < length xs \<and> x = xs ! i"
  by (auto simp: get_def)

lemma get_None [simp]: "get xs i = None \<longleftrightarrow> length xs \<le> i"
  by (auto simp: get_def)

lemma get_range_Some [simp]:
  "get_range xs a b = Some ys \<longleftrightarrow> a \<le> b \<and> b \<le> length xs \<and> ys = slice a b xs"
  by (auto simp: get_range_def)

lemma get_range_None [simp]: "get_range xs a b = None \<longleftrightarrow> b < a \<or> length xs < b"
  by (auto simp: get_range_def)

lemma length_slice [simp]: "length (slice a b xs) = min (b - a) (length xs - a)"
  by (simp add: slice_def)

lemma nth_slice: "i < b - a \<Longrightarrow> b \<le> length xs \<Longrightarrow> slice a b xs ! i = xs ! (a + i)"
  by (simp add: slice_def)

lemma slice_append: "a \<le> b \<Longrightarrow> b \<le> c \<Longrightarrow> slice a b xs @ slice b c xs = slice a c xs"
proof -
  assume ab: "a \<le> b" and bc: "b \<le> c"
  have "slice b c xs = take (c - b) (drop (b - a) (drop a xs))"
    using ab by (simp add: slice_def)
  moreover have "c - a = (b - a) + (c - b)" using ab bc by simp
  ultimately show ?thesis by (simp only: slice_def take_add)
qed

lemma slice_same [simp]: "slice a a xs = []"
  by (simp add: slice_def)

lemma slice_0: "slice 0 b xs = take b xs"
  by (simp add: slice_def)

lemma slice_all [simp]: "slice 0 (length xs) xs = xs"
  by (simp add: slice_def)

lemma slice_to_end: "length xs \<le> b \<Longrightarrow> slice a b xs = drop a xs"
  by (simp add: slice_def)

lemma slice_append_mid: "slice (length xs) (length xs + length ys) (xs @ ys @ zs) = ys"
  by (simp add: slice_def)

lemma set_slice_subset: "set (slice a b xs) \<subseteq> set xs"
  by (auto simp: slice_def dest: in_set_takeD in_set_dropD)

section \<open>Fixed-width fields\<close>

definition u32_from_be :: "bytes \<Rightarrow> u32" where
  "u32_from_be bs = word_of_nat (foldl (\<lambda>acc b. acc * 256 + unat b) 0 bs)"

definition u32_from_le :: "bytes \<Rightarrow> u32" where
  "u32_from_le bs = u32_from_be (rev bs)"

definition nat_from_be :: "bytes \<Rightarrow> nat" where
  "nat_from_be bs = foldl (\<lambda>acc b. acc * 256 + unat b) 0 bs"

fun nat_to_be :: "nat \<Rightarrow> nat \<Rightarrow> bytes" where
  "nat_to_be 0 n = []"
| "nat_to_be (Suc k) n = nat_to_be k (n div 256) @ [word_of_nat (n mod 256)]"

definition u32_to_be :: "u32 \<Rightarrow> bytes" where
  "u32_to_be w = nat_to_be 4 (unat w)"

definition u32_to_le :: "u32 \<Rightarrow> bytes" where
  "u32_to_le w = rev (u32_to_be w)"

lemma nat_from_be_Nil [simp]: "nat_from_be [] = 0"
  by (simp add: nat_from_be_def)

lemma nat_from_be_snoc [simp]: "nat_from_be (bs @ [b]) = nat_from_be bs * 256 + unat b"
  by (simp add: nat_from_be_def)

lemma nat_from_be_less: "nat_from_be bs < 256 ^ length bs"
proof (induction bs rule: rev_induct)
  case Nil
  then show ?case by simp
next
  case (snoc b bs)
  have "unat b < 256" by (rule unat_u8_less)
  with snoc show ?case by simp
qed

lemma length_nat_to_be [simp]: "length (nat_to_be k n) = k"
  by (induction k n rule: nat_to_be.induct) auto

lemma nat_from_to_be: "n < 256 ^ k \<Longrightarrow> nat_from_be (nat_to_be k n) = n"
proof (induction k n rule: nat_to_be.induct)
  case (1 n)
  then show ?case by simp
next
  case (2 k n)
  from "2.prems" have "n div 256 < 256 ^ k" by (simp add: less_mult_imp_div_less mult.commute)
  with "2.IH" have "nat_from_be (nat_to_be k (n div 256)) = n div 256" by simp
  then show ?case by (simp add: unat_of_nat)
qed

lemma nat_to_from_be: "nat_to_be (length bs) (nat_from_be bs) = bs"
proof (induction bs rule: rev_induct)
  case Nil
  then show ?case by simp
next
  case (snoc b bs)
  have "unat b < 256" by (rule unat_u8_less)
  then have "(nat_from_be bs * 256 + unat b) div 256 = nat_from_be bs"
    and "(nat_from_be bs * 256 + unat b) mod 256 = unat b" by simp_all
  with snoc show ?case by simp
qed

lemma u32_from_be_nat: "length bs = 4 \<Longrightarrow> unat (u32_from_be bs) = nat_from_be bs"
  using nat_from_be_less [of bs] by (simp add: u32_from_be_def nat_from_be_def unat_of_nat)

lemma u32_from_to_be [simp]: "u32_from_be (u32_to_be w) = w"
proof -
  have "unat w < 256 ^ 4" using unat_u32_less [of w] by simp
  then have "nat_from_be (u32_to_be w) = unat w"
    unfolding u32_to_be_def by (rule nat_from_to_be)
  then show ?thesis by (simp add: u32_from_be_def nat_from_be_def)
qed

lemma u32_from_to_le [simp]: "u32_from_le (u32_to_le w) = w"
  by (simp add: u32_from_le_def u32_to_le_def)

lemma length_u32_to_be [simp]: "length (u32_to_be w) = 4"
  by (simp add: u32_to_be_def)

lemma length_u32_to_le [simp]: "length (u32_to_le w) = 4"
  by (simp add: u32_to_le_def)

end
