(* ===== verification/Limits.thy ===== *)
theory Limits
  imports Prelude
begin

text \<open>
  The per-open safety limits and the aggregate memory accounting
  (\<^verbatim>\<open>src/src/limits.rs\<close>, the limit policies of \<^verbatim>\<open>src/src/types.rs\<close>).

  A computation that reserves working memory is a value of type \<open>'a mem\<close>: it takes the
  budget and returns its result together with the budget it leaves behind, on the error path
  too. The RAII token \<open>MemoryReservation\<close> becomes a combinator: \<open>scoped n body\<close> for a
  token that lives until the end of the enclosing function, \<open>retained n body\<close> for a token
  that is moved into the result and therefore dropped only when the body fails.
  \<open>returns m x\<close> says that \<open>m\<close> can return \<open>x\<close>; the inversion rules of this
  theory reduce it to the pure checks. \<open>accounts m k\<close> says that \<open>m\<close> never exceeds the
  budget's ceiling and leaves exactly \<open>k x\<close> bytes charged when it returns \<open>x\<close>, none when
  it fails. The allocator itself is taken to succeed for every
  request a vector can have: \<open>AllocationFailed\<close> arises exactly when more than \<open>isize::MAX\<close>
  bytes are asked for. A string that exists is no longer than that, so the copies of existing strings
  (\<open>try_clone_string\<close>, attribute values of the header) reserve what they need without a check here.
\<close>

named_theorems accounting

section \<open>Limits\<close>

record limits =
  header_xml_bytes :: nat
  header_attributes :: nat
  key_index_bytes :: nat
  record_index_bytes :: nat
  compressed_block_bytes :: nat
  decompressed_block_bytes :: nat
  block_metadata_bytes :: nat
  key_block_entries :: nat
  materialized_record_bytes :: nat
  locator_entries :: nat
  locator_bytes :: nat
  working_memory_bytes :: nat

definition limits_new :: limits where
  "limits_new =
    \<lparr>header_xml_bytes = 16 * 1024 * 1024,
     header_attributes = 4 * 1024,
     key_index_bytes = 64 * 1024 * 1024,
     record_index_bytes = 64 * 1024 * 1024,
     compressed_block_bytes = 256 * 1024 * 1024,
     decompressed_block_bytes = 512 * 1024 * 1024,
     block_metadata_bytes = 64 * 1024 * 1024,
     key_block_entries = 2000000,
     materialized_record_bytes = 64 * 1024 * 1024,
     locator_entries = 10000000,
     locator_bytes = 512 * 1024 * 1024,
     working_memory_bytes = 1024 * 1024 * 1024\<rparr>"

definition large_dictionary :: limits where
  "large_dictionary =
    \<lparr>header_xml_bytes = 64 * 1024 * 1024,
     header_attributes = 16 * 1024,
     key_index_bytes = 512 * 1024 * 1024,
     record_index_bytes = 512 * 1024 * 1024,
     compressed_block_bytes = 1024 * 1024 * 1024,
     decompressed_block_bytes = 2 * 1024 * 1024 * 1024,
     block_metadata_bytes = 512 * 1024 * 1024,
     key_block_entries = 16000000,
     materialized_record_bytes = 512 * 1024 * 1024,
     locator_entries = u32_max,
     locator_bytes = 1024 * 1024 * 1024,
     working_memory_bytes = 2 * 1024 * 1024 * 1024\<rparr>"

text \<open>\<open>ensure_u64_limit\<close> widens a \<open>usize\<close> ceiling, which cannot fail on this host.\<close>

definition ensure_u64_ceiling :: "string \<Rightarrow> nat \<Rightarrow> nat \<Rightarrow> unit result" where
  "ensure_u64_ceiling limit value maximum =
     (if maximum < value then Inl (LimitExceeded limit value maximum) else Inr ())"

definition ensure_u64_limit :: "string \<Rightarrow> nat \<Rightarrow> nat \<Rightarrow> unit result" where
  "ensure_u64_limit limit value maximum =
     (if u64_max < maximum then Inl (InvalidFormat ''limit exceeds u64'')
      else ensure_u64_ceiling limit value maximum)"

definition ensure_usize_limit :: "string \<Rightarrow> nat \<Rightarrow> nat \<Rightarrow> unit result" where
  "ensure_usize_limit limit value maximum =
     (if maximum < value then Inl (LimitExceeded limit (min value u64_max) (min maximum u64_max))
      else Inr ())"

definition checked_usize :: "nat \<Rightarrow> string \<Rightarrow> nat result" where
  "checked_usize value context =
     (if value \<le> usize_max then Inr value
      else Inl (InvalidData (context @ '' value '' @ dec value @ '' exceeds the platform address space'')))"

definition checked_u64 :: "nat \<Rightarrow> string \<Rightarrow> nat result" where
  "checked_u64 value context =
     (if value \<le> u64_max then Inr value
      else Inl (InvalidData (context @ '' value '' @ dec value @ '' cannot be represented as u64'')))"

lemma ensure_ceiling_Inr [simp]: "ensure_u64_ceiling l v m = Inr u \<longleftrightarrow> v \<le> m"
  by (auto simp: ensure_u64_ceiling_def)

lemma ensure_u64_limit_Inr [simp]: "ensure_u64_limit l v m = Inr u \<longleftrightarrow> m \<le> u64_max \<and> v \<le> m"
  by (auto simp: ensure_u64_limit_def)

lemma ensure_usize_limit_Inr [simp]: "ensure_usize_limit l v m = Inr u \<longleftrightarrow> v \<le> m"
  by (auto simp: ensure_usize_limit_def)

lemma checked_usize_Inr [simp]: "checked_usize v c = Inr w \<longleftrightarrow> w = v \<and> v \<le> usize_max"
  by (auto simp: checked_usize_def)

lemma checked_u64_Inr [simp]: "checked_u64 v c = Inr w \<longleftrightarrow> w = v \<and> v \<le> u64_max"
  by (auto simp: checked_u64_def)

text \<open>\<open>try_reserve_vec\<close>, for a vector of \<open>len\<close> elements of \<open>sz\<close> bytes each:
  \<open>Vec::try_reserve_exact\<close> refuses a capacity above \<open>isize::MAX\<close> bytes.\<close>

definition isize_max :: nat where
  "isize_max = 9223372036854775807"

definition try_reserve_vec :: "nat \<Rightarrow> nat \<Rightarrow> nat \<Rightarrow> string \<Rightarrow> unit result" where
  "try_reserve_vec sz len additional context =
     (let requested = (case Option.bind (checked_add len additional) (\<lambda>n. checked_mul n sz) of
                         None \<Rightarrow> u64_max | Some n \<Rightarrow> n)
      in if (len + additional) * sz \<le> isize_max then Inr ()
         else Inl (AllocationFailed context requested))"

lemma try_reserve_vec_Inr [simp]:
  "try_reserve_vec sz len additional c = Inr u \<longleftrightarrow> (len + additional) * sz \<le> isize_max"
  by (simp add: try_reserve_vec_def)

text \<open>\<open>try_reserve_string\<close>, for a string of \<open>len\<close> bytes.\<close>

definition try_reserve_string :: "nat \<Rightarrow> nat \<Rightarrow> string \<Rightarrow> unit result" where
  "try_reserve_string len additional context =
     (let requested = (case checked_add len additional of None \<Rightarrow> u64_max | Some n \<Rightarrow> n)
      in if len + additional \<le> isize_max then Inr ()
         else Inl (AllocationFailed context requested))"

lemma try_reserve_string_Inr [simp]:
  "try_reserve_string len additional c = Inr u \<longleftrightarrow> len + additional \<le> isize_max"
  by (simp add: try_reserve_string_def)

text \<open>The same facts as rewrite rules, for computations that are shown to succeed.\<close>

lemma checks_pass [simp]:
  "v \<le> m \<Longrightarrow> ensure_u64_ceiling l v m = Inr ()"
  "v \<le> m \<Longrightarrow> m \<le> u64_max \<Longrightarrow> ensure_u64_limit l v m = Inr ()"
  "v \<le> m \<Longrightarrow> ensure_usize_limit l v m = Inr ()"
  "v \<le> usize_max \<Longrightarrow> checked_usize v c = Inr v"
  "v \<le> u64_max \<Longrightarrow> checked_u64 v c = Inr v"
  "(len + additional) * sz \<le> isize_max \<Longrightarrow> try_reserve_vec sz len additional c = Inr ()"
  "len + additional \<le> isize_max \<Longrightarrow> try_reserve_string len additional c = Inr ()"
  by (simp_all add: ensure_u64_ceiling_def ensure_u64_limit_def ensure_usize_limit_def
      checked_usize_def checked_u64_def try_reserve_vec_def try_reserve_string_def)

section \<open>The memory budget\<close>

record budget =
  mb_max :: nat
  mb_used :: nat
  mb_peak :: nat

type_synonym 'a mem = "budget \<Rightarrow> 'a result \<times> budget"

definition budget_new :: "nat \<Rightarrow> budget" where
  "budget_new maximum = \<lparr>mb_max = maximum, mb_used = 0, mb_peak = 0\<rparr>"

text \<open>\<open>MemoryBudget::claim\<close> as one thread sees it, its compare-exchange succeeding at once
  (\<open>Budget_Steps\<close> treats the interleaved loop).\<close>

definition claim :: "nat \<Rightarrow> unit mem" where
  "claim n b =
     (case checked_add (mb_used b) n of
        None \<Rightarrow> (Inl (LimitExceeded ''working_memory_bytes'' u64_max (mb_max b)), b)
      | Some nxt \<Rightarrow>
          if mb_max b < nxt
          then (Inl (LimitExceeded ''working_memory_bytes'' nxt (mb_max b)), b)
          else (Inr (), b\<lparr>mb_used := nxt, mb_peak := max (mb_peak b) nxt\<rparr>))"

text \<open>\<open>Drop for MemoryReservation\<close>: an atomic \<open>fetch_sub\<close>, which wraps.\<close>

definition release :: "nat \<Rightarrow> budget \<Rightarrow> budget" where
  "release n b = b\<lparr>mb_used := (mb_used b + (u64_max + 1) - n) mod (u64_max + 1)\<rparr>"

definition mret :: "'a \<Rightarrow> 'a mem" where
  "mret x b = (Inr x, b)"

definition lift :: "'a result \<Rightarrow> 'a mem" where
  "lift r b = (r, b)"

definition mbind :: "'a mem \<Rightarrow> ('a \<Rightarrow> 'b mem) \<Rightarrow> 'b mem" where
  "mbind m f b = (case m b of (Inl e, b') \<Rightarrow> (Inl e, b') | (Inr x, b') \<Rightarrow> f x b')"

text \<open>A fallible computation that touches no reservation, followed by one that may.\<close>

abbreviation attempt :: "'a result \<Rightarrow> ('a \<Rightarrow> 'b mem) \<Rightarrow> 'b mem" where
  "attempt r f \<equiv> mbind (lift r) f"

definition scoped :: "nat \<Rightarrow> 'a mem \<Rightarrow> 'a mem" where
  "scoped n body b =
     (case claim n b of
        (Inl e, b') \<Rightarrow> (Inl e, b')
      | (Inr _, b') \<Rightarrow> (case body b' of (r, b'') \<Rightarrow> (r, release n b'')))"

definition retained :: "nat \<Rightarrow> 'a mem \<Rightarrow> 'a mem" where
  "retained n body b =
     (case claim n b of
        (Inl e, b') \<Rightarrow> (Inl e, b')
      | (Inr _, b') \<Rightarrow>
          (case body b' of (Inl e, b'') \<Rightarrow> (Inl e, release n b'') | (Inr x, b'') \<Rightarrow> (Inr x, b'')))"

lemma mem_case_eqs [simp]:
  "mret x b = (Inr x, b)"
  "lift r b = (r, b)"
  "mbind (lift (Inl e)) f = lift (Inl e)"
  "mbind (lift (Inr x)) f = f x"
  "mbind (mret x) f = f x"
  by (auto simp: mret_def lift_def mbind_def fun_eq_iff)

section \<open>What a computation can return\<close>

definition returns :: "'a mem \<Rightarrow> 'a \<Rightarrow> bool" where
  "returns m x \<longleftrightarrow> (\<exists>b b'. m b = (Inr x, b'))"

lemma returnsI: "m b = (Inr x, b') \<Longrightarrow> returns m x"
  by (auto simp: returns_def)

lemma returns_mret [simp]: "returns (mret x) y \<longleftrightarrow> y = x"
  by (auto simp: returns_def)

lemma returns_lift [simp]: "returns (lift r) x \<longleftrightarrow> r = Inr x"
  by (auto simp: returns_def)

lemma returns_mbindE [result_elims, elim!]:
  assumes "returns (mbind m f) y"
  obtains x where "returns m x" and "returns (f x) y"
proof -
  from assms obtain b b' where "mbind m f b = (Inr y, b')" by (auto simp: returns_def)
  then obtain x b1 where "m b = (Inr x, b1)" and "f x b1 = (Inr y, b')"
    by (auto simp: mbind_def split: prod.splits sum.splits)
  then show ?thesis using that by (auto simp: returns_def)
qed

lemma scoped_run:
  assumes "scoped n body b = (r, b')"
  obtains e where "claim n b = (Inl e, b')" and "r = Inl e"
  | b1 b2 where "claim n b = (Inr (), b1)" and "body b1 = (r, b2)" and "b' = release n b2"
proof (cases "claim n b")
  case (Pair c b1)
  show ?thesis
  proof (cases c)
    case (Inl e)
    with Pair assms that(1) show ?thesis by (auto simp: scoped_def)
  next
    case (Inr u)
    with Pair assms that(2) show ?thesis by (cases "body b1") (auto simp: scoped_def)
  qed
qed

lemma retained_run:
  assumes "retained n body b = (r, b')"
  obtains e where "claim n b = (Inl e, b')" and "r = Inl e"
  | b1 b2 e where "claim n b = (Inr (), b1)" and "body b1 = (Inl e, b2)" and "r = Inl e"
      and "b' = release n b2"
  | b1 x where "claim n b = (Inr (), b1)" and "body b1 = (Inr x, b')" and "r = Inr x"
proof (cases "claim n b")
  case (Pair c b1)
  show ?thesis
  proof (cases c)
    case (Inl e)
    with Pair assms that(1) show ?thesis by (auto simp: retained_def)
  next
    case (Inr u)
    show ?thesis
    proof (cases "body b1")
      case body: (Pair r2 b2)
      show ?thesis
      proof (cases r2)
        case err: (Inl e)
        show ?thesis using Pair Inr body err assms that(2) by (auto simp: retained_def)
      next
        case ok: (Inr x)
        show ?thesis using Pair Inr body ok assms that(3) by (auto simp: retained_def)
      qed
    qed
  qed
qed

lemma returns_scopedD [result_elims, dest!]:
  assumes "returns (scoped n m) x" shows "returns m x"
proof -
  from assms obtain b b' where "scoped n m b = (Inr x, b')" by (auto simp: returns_def)
  then show ?thesis by (rule scoped_run) (auto intro: returnsI)
qed

lemma returns_retainedD [result_elims, dest!]:
  assumes "returns (retained n m) x" shows "returns m x"
proof -
  from assms obtain b b' where "retained n m b = (Inr x, b')" by (auto simp: returns_def)
  then show ?thesis by (rule retained_run) (auto intro: returnsI)
qed

section \<open>Accounting\<close>

definition budget_ok :: "budget \<Rightarrow> bool" where
  "budget_ok b \<longleftrightarrow> mb_used b \<le> mb_peak b \<and> mb_peak b \<le> mb_max b \<and> mb_max b \<le> u64_max"

definition accounts :: "'a mem \<Rightarrow> ('a \<Rightarrow> nat) \<Rightarrow> bool" where
  "accounts m k \<longleftrightarrow> (\<forall>b. budget_ok b \<longrightarrow>
     (case m b of (r, b') \<Rightarrow>
        budget_ok b' \<and> mb_max b' = mb_max b \<and> mb_peak b \<le> mb_peak b' \<and>
        mb_used b' = mb_used b + (case r of Inl _ \<Rightarrow> 0 | Inr x \<Rightarrow> k x)))"

lemma accountsI:
  assumes "\<And>b r b'. budget_ok b \<Longrightarrow> m b = (r, b') \<Longrightarrow>
    budget_ok b' \<and> mb_max b' = mb_max b \<and> mb_peak b \<le> mb_peak b' \<and>
    mb_used b' = mb_used b + (case r of Inl _ \<Rightarrow> 0 | Inr x \<Rightarrow> k x)"
  shows "accounts m k"
  unfolding accounts_def
proof (intro allI impI)
  fix b assume ok: "budget_ok b"
  obtain r b' where run: "m b = (r, b')" by (cases "m b")
  from assms [OF ok run] run
  show "case m b of (r, b') \<Rightarrow> budget_ok b' \<and> mb_max b' = mb_max b \<and> mb_peak b \<le> mb_peak b' \<and>
    mb_used b' = mb_used b + (case r of Inl _ \<Rightarrow> 0 | Inr x \<Rightarrow> k x)" by simp
qed

lemma accountsD:
  assumes acc: "accounts m k" and ok: "budget_ok b" and run: "m b = (r, b')"
  shows "budget_ok b'" and "mb_max b' = mb_max b" and "mb_peak b \<le> mb_peak b'"
    and "mb_used b' = mb_used b + (case r of Inl _ \<Rightarrow> 0 | Inr x \<Rightarrow> k x)"
  using acc [unfolded accounts_def, rule_format, OF ok] run by simp_all

lemma release_used:
  "n \<le> mb_used b \<Longrightarrow> mb_used b \<le> u64_max \<Longrightarrow> release n b = b\<lparr>mb_used := mb_used b - n\<rparr>"
proof -
  assume le: "n \<le> mb_used b" "mb_used b \<le> u64_max"
  have "(mb_used b + (u64_max + 1) - n) mod (u64_max + 1) = (mb_used b - n) mod (u64_max + 1)"
    using le by (metis Nat.add_diff_assoc2 mod_add_self2)
  also have "\<dots> = mb_used b - n" using le by simp
  finally show ?thesis by (simp add: release_def)
qed

lemma accounts_mret [accounting]: "accounts (mret x) (\<lambda>_. 0)"
  by (auto simp: accounts_def)

lemma accounts_lift [accounting]: "accounts (lift r) (\<lambda>_. 0)"
  by (auto simp: accounts_def split: sum.splits)

lemma accounts_mbind [accounting]:
  assumes m: "accounts m (\<lambda>_. 0)" and f: "\<And>x. accounts (f x) k"
  shows "accounts (mbind m f) k"
proof (rule accountsI)
  fix b r b' assume ok: "budget_ok b" and run: "mbind m f b = (r, b')"
  obtain r1 b1 where mb: "m b = (r1, b1)" by (cases "m b")
  note a1 = accountsD [OF m ok mb]
  show "budget_ok b' \<and> mb_max b' = mb_max b \<and> mb_peak b \<le> mb_peak b' \<and>
      mb_used b' = mb_used b + (case r of Inl _ \<Rightarrow> 0 | Inr x \<Rightarrow> k x)"
  proof (cases r1)
    case (Inl e)
    then show ?thesis using run mb a1 by (auto simp: mbind_def)
  next
    case (Inr x)
    then have "f x b1 = (r, b')" using run mb by (simp add: mbind_def)
    from accountsD [OF f a1(1) this] show ?thesis using a1 Inr by simp
  qed
qed

lemma claim_ok:
  assumes "budget_ok b" and "claim n b = (Inr u, b1)"
  shows "budget_ok b1" and "mb_max b1 = mb_max b" and "mb_peak b \<le> mb_peak b1"
    and "mb_used b1 = mb_used b + n"
  using assms by (auto simp: claim_def budget_ok_def split: option.splits if_splits)

lemma claim_err: "claim n b = (Inl e, b1) \<Longrightarrow> b1 = b"
  by (auto simp: claim_def split: option.splits if_splits)

lemma release_ok:
  assumes "budget_ok b" and "n \<le> mb_used b"
  shows "budget_ok (release n b)" and "mb_max (release n b) = mb_max b"
    and "mb_peak (release n b) = mb_peak b" and "mb_used (release n b) = mb_used b - n"
proof -
  have "release n b = b\<lparr>mb_used := mb_used b - n\<rparr>"
    using assms by (intro release_used) (auto simp: budget_ok_def)
  then show "budget_ok (release n b)" "mb_max (release n b) = mb_max b"
    "mb_peak (release n b) = mb_peak b" "mb_used (release n b) = mb_used b - n"
    using assms by (auto simp: budget_ok_def)
qed

lemma accounts_scoped [accounting]:
  assumes body: "accounts body k"
  shows "accounts (scoped n body) k"
proof (rule accountsI)
  fix b r b' assume ok: "budget_ok b" and run: "scoped n body b = (r, b')"
  from run show "budget_ok b' \<and> mb_max b' = mb_max b \<and> mb_peak b \<le> mb_peak b' \<and>
      mb_used b' = mb_used b + (case r of Inl _ \<Rightarrow> 0 | Inr x \<Rightarrow> k x)"
  proof (rule scoped_run)
    fix e assume "claim n b = (Inl e, b')" and "r = Inl e"
    with ok show ?thesis using claim_err [of n b e b'] by simp
  next
    fix b1 b2 assume cl: "claim n b = (Inr (), b1)" and bd: "body b1 = (r, b2)"
      and b': "b' = release n b2"
    note c1 = claim_ok [OF ok cl]
    note a2 = accountsD [OF body c1(1) bd]
    have "n \<le> mb_used b2" using a2(4) c1(4) by simp
    note r3 = release_ok [OF a2(1) this]
    show ?thesis using c1 a2 r3 b' by simp
  qed
qed

lemma accounts_retained [accounting]:
  assumes body: "accounts body k"
  shows "accounts (retained n body) (\<lambda>x. k x + n)"
proof (rule accountsI)
  fix b r b' assume ok: "budget_ok b" and run: "retained n body b = (r, b')"
  from run show "budget_ok b' \<and> mb_max b' = mb_max b \<and> mb_peak b \<le> mb_peak b' \<and>
      mb_used b' = mb_used b + (case r of Inl _ \<Rightarrow> 0 | Inr x \<Rightarrow> k x + n)"
  proof (rule retained_run)
    fix e assume "claim n b = (Inl e, b')" and "r = Inl e"
    with ok show ?thesis using claim_err [of n b e b'] by simp
  next
    fix b1 b2 e assume cl: "claim n b = (Inr (), b1)" and bd: "body b1 = (Inl e, b2)"
      and r: "r = Inl e" and b': "b' = release n b2"
    note c1 = claim_ok [OF ok cl]
    note a2 = accountsD [OF body c1(1) bd]
    have "n \<le> mb_used b2" using a2(4) c1(4) by simp
    note r3 = release_ok [OF a2(1) this]
    show ?thesis using c1 a2 r3 b' r by simp
  next
    fix b1 x assume cl: "claim n b = (Inr (), b1)" and bd: "body b1 = (Inr x, b')" and r: "r = Inr x"
    note c1 = claim_ok [OF ok cl]
    note a2 = accountsD [OF body c1(1) bd]
    show ?thesis using c1 a2 r by simp
  qed
qed

lemma accounts_if [accounting]:
  "accounts m k \<Longrightarrow> accounts n k \<Longrightarrow> accounts (if c then m else n) k"
  by simp

lemma accounts_case_option [accounting]:
  "accounts m k \<Longrightarrow> (\<And>x. accounts (f x) k) \<Longrightarrow> accounts (case v of None \<Rightarrow> m | Some x \<Rightarrow> f x) k"
  by (cases v) simp_all

lemma accounts_case_prod [accounting]:
  "(\<And>x y. accounts (f x y) k) \<Longrightarrow> accounts (case p of (x, y) \<Rightarrow> f x y) k"
  by (cases p) simp

lemma budget_new_ok: "n \<le> u64_max \<Longrightarrow> budget_ok (budget_new n)"
  by (simp add: budget_ok_def budget_new_def)

end
