(* ===== verification/Types.thy ===== *)
theory Types
  imports Limits
begin

text \<open>
  The public data of the library (\<^verbatim>\<open>src/src/types.rs\<close>): container kinds, key ordinals and
  rows, the header with its encryption bits, passcodes, and open options. A Rust \<^verbatim>\<open>String\<close> is the
  list of its Unicode scalar values; \<open>Encoding\<close> gives its UTF-8 bytes. A \<open>KeyOrdinal\<close> is the
  \<open>u64\<close> it wraps.
\<close>

type_synonym rstring = "nat list"
type_synonym key_ordinal = nat

definition ascii :: "string \<Rightarrow> rstring" where
  "ascii s = map of_char s"

definition is_scalar :: "nat \<Rightarrow> bool" where
  "is_scalar c \<longleftrightarrow> c < 0xD800 \<or> 0xE000 \<le> c \<and> c \<le> 0x10FFFF"

definition well_formed :: "rstring \<Rightarrow> bool" where
  "well_formed s \<longleftrightarrow> list_all is_scalar s"

lemma well_formed_simps [simp]:
  "well_formed []" "well_formed (c # s) \<longleftrightarrow> is_scalar c \<and> well_formed s"
  "well_formed (s @ t) \<longleftrightarrow> well_formed s \<and> well_formed t"
  by (simp_all add: well_formed_def)

text \<open>\<open>char::to_ascii_lowercase\<close>, \<open>char::is_ascii\<close> and \<open>str::eq_ignore_ascii_case\<close>.\<close>

definition is_ascii :: "nat \<Rightarrow> bool" where
  "is_ascii c \<longleftrightarrow> c < 128"

definition to_ascii_lowercase :: "nat \<Rightarrow> nat" where
  "to_ascii_lowercase c = (if 65 \<le> c \<and> c \<le> 90 then c + 32 else c)"

definition is_ascii_alphanumeric :: "nat \<Rightarrow> bool" where
  "is_ascii_alphanumeric c \<longleftrightarrow>
     48 \<le> c \<and> c \<le> 57 \<or> 65 \<le> c \<and> c \<le> 90 \<or> 97 \<le> c \<and> c \<le> 122"

definition eq_ignore_ascii_case :: "rstring \<Rightarrow> rstring \<Rightarrow> bool" where
  "eq_ignore_ascii_case s t \<longleftrightarrow> map to_ascii_lowercase s = map to_ascii_lowercase t"

section \<open>Containers, keys, policies\<close>

datatype container_kind = Mdx | Mdd

datatype checksum_policy = Skip | Verify

record key_entry =
  ke_ordinal :: key_ordinal
  ke_key :: rstring

section \<open>Header\<close>

record header =
  raw_xml :: rstring
  tag_name :: rstring
  attributes :: "(rstring \<times> rstring) list"
  generated_by_engine_version :: rstring
  required_engine_version :: rstring
  encoding_label :: "rstring option"
  hdr_format :: "rstring option"
  key_case_sensitive :: bool
  strip_key :: bool
  encrypted :: nat
  register_by :: "rstring option"
  reg_code :: "rstring option"
  description :: "rstring option"
  title :: "rstring option"
  creation_date :: "rstring option"

definition has_keyword_header :: "header \<Rightarrow> bool" where
  "has_keyword_header h \<longleftrightarrow> and (encrypted h) 1 \<noteq> 0"

definition has_keyword_index :: "header \<Rightarrow> bool" where
  "has_keyword_index h \<longleftrightarrow> and (encrypted h) 2 \<noteq> 0"

definition attribute :: "header \<Rightarrow> rstring \<Rightarrow> rstring option" where
  "attribute h name = map_of (attributes h) name"

section \<open>Passcodes and options\<close>

text \<open>The registration code is kept as its bytes, the user identity as its UTF-8 bytes.\<close>

record passcode =
  reg_code_hex :: bytes
  user_id :: bytes

definition is_ascii_hexdigit :: "u8 \<Rightarrow> bool" where
  "is_ascii_hexdigit b \<longleftrightarrow> 48 \<le> b \<and> b \<le> 57 \<or> 65 \<le> b \<and> b \<le> 70 \<or> 97 \<le> b \<and> b \<le> 102"

definition passcode_new :: "bytes \<Rightarrow> bytes \<Rightarrow> passcode result" where
  "passcode_new code user =
     (if length code \<noteq> 32 \<or> \<not> list_all is_ascii_hexdigit code
      then Inl (InvalidPasscode ''registration code must contain exactly 32 hex digits'')
      else if 4 * 1024 < length user
      then Inl (InvalidPasscode ''user identity must not exceed 4096 UTF-8 bytes'')
      else Inr \<lparr>reg_code_hex = code, user_id = user\<rparr>)"

record open_options =
  opt_passcode :: "passcode option"
  opt_limits :: limits
  opt_checksum_policy :: checksum_policy

definition open_options_new :: open_options where
  "open_options_new =
     \<lparr>opt_passcode = None, opt_limits = limits_new, opt_checksum_policy = Skip\<rparr>"

definition with_passcode :: "open_options \<Rightarrow> passcode \<Rightarrow> open_options" where
  "with_passcode opts p = opts\<lparr>opt_passcode := Some p\<rparr>"

definition with_limits :: "open_options \<Rightarrow> limits \<Rightarrow> open_options" where
  "with_limits opts l = opts\<lparr>opt_limits := l\<rparr>"

definition with_checksum_policy :: "open_options \<Rightarrow> checksum_policy \<Rightarrow> open_options" where
  "with_checksum_policy opts p = opts\<lparr>opt_checksum_policy := p\<rparr>"

text \<open>Ceilings that fit the platform, as every \<open>Limits\<close> value of the program does.\<close>

definition limits_wf :: "limits \<Rightarrow> bool" where
  "limits_wf l \<longleftrightarrow> header_xml_bytes l \<le> usize_max \<and> key_index_bytes l \<le> usize_max \<and>
     record_index_bytes l \<le> usize_max \<and> compressed_block_bytes l \<le> usize_max \<and>
     decompressed_block_bytes l \<le> usize_max \<and> working_memory_bytes l \<le> usize_max"

end
