(* ===== verification/Utf8.thy ===== *)
theory Utf8
  imports Types
begin

text \<open>
  UTF-8 as \<^verbatim>\<open>std::str\<close> uses it: the encoding of a scalar value, and the validation and
  decoding of a byte slice. The lemmas give the round trip in both directions, the length bounds
  that the memory estimates rely on, and the shape of character boundaries.
\<close>

definition byte_of :: "nat \<Rightarrow> u8" where
  "byte_of n = word_of_nat n"

lemma unat_byte_of [simp]: "n < 256 \<Longrightarrow> unat (byte_of n) = n"
  by (simp add: byte_of_def unat_of_nat)

lemma byte_of_unat [simp]: "byte_of (unat b) = b"
  by (simp add: byte_of_def)

definition utf8_char :: "nat \<Rightarrow> bytes" where
  "utf8_char c =
     (if c < 0x80 then [byte_of c]
      else if c < 0x800 then [byte_of (0xC0 + c div 64), byte_of (0x80 + c mod 64)]
      else if c < 0x10000
      then [byte_of (0xE0 + c div 4096), byte_of (0x80 + c div 64 mod 64), byte_of (0x80 + c mod 64)]
      else [byte_of (0xF0 + c div 262144), byte_of (0x80 + c div 4096 mod 64),
            byte_of (0x80 + c div 64 mod 64), byte_of (0x80 + c mod 64)])"

definition utf8 :: "rstring \<Rightarrow> bytes" where
  "utf8 s = concat (map utf8_char s)"

definition len_utf8 :: "nat \<Rightarrow> nat" where
  "len_utf8 c = (if c < 0x80 then 1 else if c < 0x800 then 2 else if c < 0x10000 then 3 else 4)"

definition str_len :: "rstring \<Rightarrow> nat" where
  "str_len s = length (utf8 s)"

definition is_cont :: "nat \<Rightarrow> bool" where
  "is_cont n \<longleftrightarrow> 0x80 \<le> n \<and> n < 0xC0"

text \<open>The first scalar value of a byte slice and what follows it, when the slice starts with a
  well-formed sequence: no overlong form, no surrogate, nothing above \<open>0x10FFFF\<close>.\<close>

fun utf8_next :: "bytes \<Rightarrow> (nat \<times> bytes) option" where
  "utf8_next [] = None"
| "utf8_next (b # bs) =
     (let n = unat b in
      if n < 0x80 then Some (n, bs)
      else if 0xC0 \<le> n \<and> n < 0xE0 then
        (case bs of b1 # r \<Rightarrow>
           let c = (n - 0xC0) * 64 + (unat b1 - 0x80)
           in if is_cont (unat b1) \<and> 0x80 \<le> c then Some (c, r) else None
         | _ \<Rightarrow> None)
      else if 0xE0 \<le> n \<and> n < 0xF0 then
        (case bs of b1 # b2 # r \<Rightarrow>
           let c = (n - 0xE0) * 4096 + (unat b1 - 0x80) * 64 + (unat b2 - 0x80)
           in if is_cont (unat b1) \<and> is_cont (unat b2) \<and> 0x800 \<le> c \<and> is_scalar c
              then Some (c, r) else None
         | _ \<Rightarrow> None)
      else if 0xF0 \<le> n then
        (case bs of b1 # b2 # b3 # r \<Rightarrow>
           let c = (n - 0xF0) * 262144 + (unat b1 - 0x80) * 4096 + (unat b2 - 0x80) * 64 + (unat b3 - 0x80)
           in if is_cont (unat b1) \<and> is_cont (unat b2) \<and> is_cont (unat b3) \<and> 0x10000 \<le> c \<and> is_scalar c
              then Some (c, r) else None
         | _ \<Rightarrow> None)
      else None)"

declare utf8_next.simps(2) [simp del]

lemma split_join3:
  assumes c: "c = x * 4096 + y * 64 + z" and "y < 64" "z < 64"
  shows "c div 4096 = x" "c div 64 mod 64 = y" "c mod 64 = (z :: nat)"
proof -
  have c': "c = z + 64 * (y + 64 * x)" using c by simp
  have q: "c div 64 = y + 64 * x" unfolding c' using assms(3) by simp
  show "c mod 64 = z" unfolding c' using assms(3) by (simp only: mod_mult_self2 mod_less)
  show "c div 64 mod 64 = y" unfolding q using assms(2) by simp
  have "c div 4096 = c div 64 div 64" by (simp add: div_mult2_eq [symmetric])
  then show "c div 4096 = x" unfolding q using assms(2) by simp
qed

lemma split_join4:
  assumes c: "c = w * 262144 + x * 4096 + y * 64 + z" and "x < 64" "y < 64" "z < 64"
  shows "c div 262144 = w" "c div 4096 mod 64 = x" "c div 64 mod 64 = y" "c mod 64 = (z :: nat)"
proof -
  have c': "c = (w * 64 + x) * 4096 + y * 64 + z" using c by simp
  note j = split_join3 [OF c' assms(3,4)]
  show "c div 64 mod 64 = y" "c mod 64 = z" by (rule j)+
  show "c div 4096 mod 64 = x" unfolding j(1) using assms(2) by simp
  have "c div 262144 = c div 4096 div 64" by (simp add: div_mult2_eq [symmetric])
  then show "c div 262144 = w" unfolding j(1) using assms(2) by simp
qed

lemma utf8_next_sound:
  assumes "utf8_next bs = Some (c, r)"
  shows "bs = utf8_char c @ r \<and> is_scalar c"
proof (cases bs)
  case Nil
  then show ?thesis using assms by simp
next
  case (Cons b tl)
  note n = utf8_next.simps(2) [of b tl, unfolded Let_def]
  have b: "unat b < 256" by (rule unat_u8_less)
  consider "unat b < 0x80" | "0xC0 \<le> unat b" "unat b < 0xE0" | "0xE0 \<le> unat b" "unat b < 0xF0"
    | "0xF0 \<le> unat b" | "0x80 \<le> unat b" "unat b < 0xC0" by linarith
  then show ?thesis
  proof cases
    case 1
    then show ?thesis using assms Cons n byte_of_unat [of b] by (auto simp: utf8_char_def is_scalar_def)
  next
    case 2
    then obtain b1 where tl: "tl = b1 # r" and c: "c = (unat b - 0xC0) * 64 + (unat b1 - 0x80)"
      and cont: "is_cont (unat b1)" "0x80 \<le> c"
      using assms Cons n by (auto split: list.splits if_splits)
    have d: "unat b1 - 0x80 < 64" using cont by (auto simp: is_cont_def)
    have "c < 0x800" using 2 c d by simp
    moreover have "c div 64 = unat b - 0xC0" "c mod 64 = unat b1 - 0x80" using c d by simp_all
    ultimately show ?thesis using cont 2 Cons tl
      by (simp add: utf8_char_def is_scalar_def is_cont_def)
  next
    case 3
    then obtain b1 b2 where tl: "tl = b1 # b2 # r"
      and c: "c = (unat b - 0xE0) * 4096 + (unat b1 - 0x80) * 64 + (unat b2 - 0x80)"
      and cont: "is_cont (unat b1)" "is_cont (unat b2)" "0x800 \<le> c" "is_scalar c"
      using assms Cons n by (auto split: list.splits if_splits)
    have d: "unat b1 - 0x80 < 64" "unat b2 - 0x80 < 64" using cont by (auto simp: is_cont_def)
    have "c < 0x10000" using 3 c d by simp
    then show ?thesis using cont 3 Cons tl d split_join3 [OF c d]
      by (simp add: utf8_char_def is_cont_def)
  next
    case 4
    then obtain b1 b2 b3 where tl: "tl = b1 # b2 # b3 # r"
      and c: "c = (unat b - 0xF0) * 262144 + (unat b1 - 0x80) * 4096 + (unat b2 - 0x80) * 64 + (unat b3 - 0x80)"
      and cont: "is_cont (unat b1)" "is_cont (unat b2)" "is_cont (unat b3)" "0x10000 \<le> c" "is_scalar c"
      using assms Cons n by (auto split: list.splits if_splits)
    have d: "unat b1 - 0x80 < 64" "unat b2 - 0x80 < 64" "unat b3 - 0x80 < 64"
      using cont by (auto simp: is_cont_def)
    show ?thesis using cont 4 Cons tl d split_join4 [OF c d]
      by (simp add: utf8_char_def is_cont_def)
  next
    case 5
    then show ?thesis using assms Cons n by simp
  qed
qed

lemma split64_3: "(c :: nat) div 4096 * 4096 + c div 64 mod 64 * 64 + c mod 64 = c"
proof -
  have "c div 4096 = c div 64 div 64" by (simp add: div_mult2_eq [symmetric])
  then have "c div 4096 * 64 + c div 64 mod 64 = c div 64" by simp
  then have "(c div 4096 * 64 + c div 64 mod 64) * 64 + c mod 64 = c" by simp
  then show ?thesis by (simp add: algebra_simps)
qed

lemma split64_4:
  "(c :: nat) div 262144 * 262144 + c div 4096 mod 64 * 4096 + c div 64 mod 64 * 64 + c mod 64 = c"
proof -
  have "c div 262144 = c div 4096 div 64" by (simp add: div_mult2_eq [symmetric])
  then have "c div 262144 * 64 + c div 4096 mod 64 = c div 4096" by simp
  then have "(c div 262144 * 64 + c div 4096 mod 64) * 4096 = c div 4096 * 4096" by (rule arg_cong)
  then have "c div 262144 * 262144 + c div 4096 mod 64 * 4096 = c div 4096 * 4096"
    by (simp add: add_mult_distrib)
  then show ?thesis using split64_3 [of c] by linarith
qed

lemma utf8_next_complete: "is_scalar c \<Longrightarrow> utf8_next (utf8_char c @ r) = Some (c, r)"
proof -
  assume sc: "is_scalar c"
  then have le: "c \<le> 0x10FFFF" by (auto simp: is_scalar_def)
  consider "c < 0x80" | "0x80 \<le> c" "c < 0x800" | "0x800 \<le> c" "c < 0x10000" | "0x10000 \<le> c" by linarith
  then show ?thesis
  proof cases
    case 1
    then show ?thesis by (simp add: utf8_char_def utf8_next.simps(2))
  next
    case 2
    have "c div 64 < 32" using 2 by simp
    then show ?thesis using 2 by (simp add: utf8_char_def utf8_next.simps(2) Let_def is_cont_def)
  next
    case 3
    have "c div 4096 < 16" using 3 by simp
    moreover have "c div 4096 * 4096 + c div 64 mod 64 * 64 + c mod 64 = c" by (rule split64_3)
    ultimately show ?thesis using 3 sc by (simp add: utf8_char_def utf8_next.simps(2) Let_def is_cont_def)
  next
    case 4
    have "c div 262144 < 8" using le by simp
    moreover have "c div 262144 * 262144 + c div 4096 mod 64 * 4096 + c div 64 mod 64 * 64 + c mod 64 = c"
      by (rule split64_4)
    ultimately show ?thesis using 4 sc by (simp add: utf8_char_def utf8_next.simps(2) Let_def is_cont_def)
  qed
qed

lemma length_utf8_char: "length (utf8_char c) = len_utf8 c"
  by (simp add: utf8_char_def len_utf8_def)

lemma len_utf8_pos [simp]: "0 < len_utf8 c"
  by (simp add: len_utf8_def)

lemma utf8_char_nonempty [simp]: "utf8_char c \<noteq> []"
  by (simp add: utf8_char_def)

lemma utf8_next_shorter: "utf8_next bs = Some (c, r) \<Longrightarrow> length r < length bs"
  using utf8_next_sound [of bs c r] by (auto simp: length_utf8_char)

text \<open>\<open>std::str::from_utf8\<close>.\<close>

function from_utf8 :: "bytes \<Rightarrow> rstring option" where
  "from_utf8 bs =
     (if bs = [] then Some []
      else case utf8_next bs of None \<Rightarrow> None | Some (c, r) \<Rightarrow> map_option ((#) c) (from_utf8 r))"
  by pat_completeness auto
termination
  by (relation "measure length") (auto dest: utf8_next_shorter)

declare from_utf8.simps [simp del]

lemma utf8_simps [simp]:
  "utf8 [] = []" "utf8 (c # s) = utf8_char c @ utf8 s" "utf8 (s @ t) = utf8 s @ utf8 t"
  by (simp_all add: utf8_def)

lemma from_utf8_complete: "well_formed s \<Longrightarrow> from_utf8 (utf8 s) = Some s"
proof (induction s)
  case Nil
  then show ?case by (simp add: from_utf8.simps)
next
  case (Cons c s)
  then show ?case by (subst from_utf8.simps) (simp add: utf8_next_complete)
qed

lemma from_utf8_sound: "from_utf8 bs = Some s \<Longrightarrow> utf8 s = bs \<and> well_formed s"
proof (induction bs arbitrary: s rule: from_utf8.induct)
  case (1 bs)
  show ?case
  proof (cases "bs = []")
    case True
    then show ?thesis using "1.prems" by (simp add: from_utf8.simps)
  next
    case False
    then obtain c r s' where n: "utf8_next bs = Some (c, r)" and s': "from_utf8 r = Some s'" "s = c # s'"
      using "1.prems" by (subst (asm) from_utf8.simps) (auto split: option.splits)
    have "utf8 s' = r \<and> well_formed s'" using "1.IH" [OF False n refl s'(1)] .
    then show ?thesis using utf8_next_sound [OF n] s' by simp
  qed
qed

lemma utf8_inject: "well_formed s \<Longrightarrow> well_formed t \<Longrightarrow> utf8 s = utf8 t \<longleftrightarrow> s = t"
  using from_utf8_complete by (metis option.inject)

lemma str_len_simps [simp]:
  "str_len [] = 0" "str_len (c # s) = len_utf8 c + str_len s" "str_len (s @ t) = str_len s + str_len t"
  by (simp_all add: str_len_def length_utf8_char)

lemma utf8_ascii: "list_all is_ascii s \<Longrightarrow> utf8 s = map byte_of s"
  by (induction s) (simp_all add: utf8_char_def is_ascii_def)

lemma str_len_ascii: "list_all is_ascii s \<Longrightarrow> str_len s = length s"
  by (simp add: str_len_def utf8_ascii)

text \<open>Character boundaries: a byte that is not a continuation byte starts a character.\<close>

lemma hd_utf8_char: "is_scalar c \<Longrightarrow> \<not> is_cont (unat (hd (utf8_char c)))"
proof -
  assume "is_scalar c"
  then have "c \<le> 0x10FFFF" by (auto simp: is_scalar_def)
  then have "c div 262144 < 8" by simp
  then show ?thesis by (auto simp: utf8_char_def is_cont_def)
qed

lemma hd_utf8: "well_formed s \<Longrightarrow> s \<noteq> [] \<Longrightarrow> \<not> is_cont (unat (hd (utf8 s)))"
  by (cases s) (simp_all add: hd_utf8_char)

lemma utf8_Nil_iff [simp]: "utf8 s = [] \<longleftrightarrow> s = []"
  by (cases s) simp_all

end
