(* ===== verification/Cursor.thy ===== *)
theory Cursor
  imports Limits
begin

text \<open>
  The bounded reader over a byte slice (\<^verbatim>\<open>src/src/format/common/cursor.rs\<close>) and the
  checked arithmetic of the wire grammars (\<^verbatim>\<open>src/src/format/common/checked.rs\<close>). A
  method on \<open>&mut Cursor\<close> returns the value read and the advanced cursor; on an error the
  cursor is dropped with the parse, as every caller of the source does. The lemmas say what a
  successful read returns (the next bytes, read big- or little-endian), that the offset never
  passes the end of the slice, and that fixed-width encoders are inverted.
\<close>

definition widen_u32 :: "u32 \<Rightarrow> nat" where
  "widen_u32 value = unat value"

definition add_u64 :: "nat \<Rightarrow> nat \<Rightarrow> string \<Rightarrow> nat result" where
  "add_u64 left right context = ok_or (checked_add left right) (InvalidFormat context)"

definition mul_u64 :: "nat \<Rightarrow> nat \<Rightarrow> string \<Rightarrow> nat result" where
  "mul_u64 left right context = ok_or (checked_mul left right) (InvalidFormat context)"

lemma add_u64_Inr [simp]: "add_u64 a b c = Inr d \<longleftrightarrow> d = a + b \<and> a + b \<le> u64_max"
  by (simp add: add_u64_def)

lemma mul_u64_Inr [simp]: "mul_u64 a b c = Inr d \<longleftrightarrow> d = a * b \<and> a * b \<le> u64_max"
  by (simp add: mul_u64_def)

record cursor =
  cur_bytes :: bytes
  cur_offset :: nat

definition cursor_new :: "bytes \<Rightarrow> cursor" where
  "cursor_new bs = \<lparr>cur_bytes = bs, cur_offset = 0\<rparr>"

definition remaining :: "cursor \<Rightarrow> nat" where
  "remaining c = length (cur_bytes c) - cur_offset c"

definition cur_is_empty :: "cursor \<Rightarrow> bool" where
  "cur_is_empty c \<longleftrightarrow> remaining c = 0"

definition read_bytes :: "cursor \<Rightarrow> nat \<Rightarrow> string \<Rightarrow> (bytes \<times> cursor) result" where
  "read_bytes c len context =
     and_then (ok_or (checked_add (cur_offset c) len) (InvalidFormat ''cursor offset overflow'')) (\<lambda>end.
     and_then (ok_or (get_range (cur_bytes c) (cur_offset c) end)
                 (Truncated context len (remaining c))) (\<lambda>bs.
     Inr (bs, c\<lparr>cur_offset := end\<rparr>)))"

definition read_u8 :: "cursor \<Rightarrow> string \<Rightarrow> (nat \<times> cursor) result" where
  "read_u8 c context =
     and_then (read_bytes c 1 context) (\<lambda>(bs, c'). Inr (nat_from_be bs, c'))"

definition read_u16_be :: "cursor \<Rightarrow> string \<Rightarrow> (nat \<times> cursor) result" where
  "read_u16_be c context =
     and_then (read_bytes c 2 context) (\<lambda>(bs, c'). Inr (nat_from_be bs, c'))"

definition read_u32_be :: "cursor \<Rightarrow> string \<Rightarrow> (u32 \<times> cursor) result" where
  "read_u32_be c context =
     and_then (read_bytes c 4 context) (\<lambda>(bs, c'). Inr (u32_from_be bs, c'))"

definition read_u32_le :: "cursor \<Rightarrow> string \<Rightarrow> (u32 \<times> cursor) result" where
  "read_u32_le c context =
     and_then (read_bytes c 4 context) (\<lambda>(bs, c'). Inr (u32_from_le bs, c'))"

definition read_u64_be :: "cursor \<Rightarrow> string \<Rightarrow> (nat \<times> cursor) result" where
  "read_u64_be c context =
     and_then (read_bytes c 8 context) (\<lambda>(bs, c'). Inr (nat_from_be bs, c'))"

definition read_u32_be_widened :: "cursor \<Rightarrow> string \<Rightarrow> (nat \<times> cursor) result" where
  "read_u32_be_widened c context =
     and_then (read_bytes c 4 context) (\<lambda>(bs, c'). Inr (widen_u32 (u32_from_be bs), c'))"

section \<open>What a read returns\<close>

definition cursor_ok :: "cursor \<Rightarrow> bool" where
  "cursor_ok c \<longleftrightarrow> cur_offset c \<le> length (cur_bytes c)"

definition rest :: "cursor \<Rightarrow> bytes" where
  "rest c = drop (cur_offset c) (cur_bytes c)"

lemma cursor_new_simps [simp]:
  "cur_bytes (cursor_new bs) = bs" "cur_offset (cursor_new bs) = 0"
  "cursor_ok (cursor_new bs)" "rest (cursor_new bs) = bs"
  by (simp_all add: cursor_new_def cursor_ok_def rest_def)

lemma length_rest: "length (rest c) = remaining c"
  by (simp add: rest_def remaining_def)

lemma cur_is_empty_rest: "cur_is_empty c \<longleftrightarrow> rest c = []"
  by (simp add: cur_is_empty_def rest_def remaining_def)

lemma read_bytes_Inr:
  "read_bytes c len ctx = Inr (bs, c') \<longleftrightarrow>
     cur_offset c + len \<le> length (cur_bytes c) \<and> cur_offset c + len \<le> u64_max \<and>
     bs = take len (rest c) \<and> c' = c\<lparr>cur_offset := cur_offset c + len\<rparr>"
  by (auto simp: read_bytes_def and_then_Inr slice_def rest_def)

lemma read_bytes_ok:
  assumes "read_bytes c len ctx = Inr (bs, c')"
  shows "cursor_ok c'" "cur_bytes c' = cur_bytes c" "cur_offset c' = cur_offset c + len"
    "length bs = len" "rest c = bs @ rest c'" "rest c' = drop len (rest c)" "bs = take len (rest c)"
proof -
  have h: "cur_offset c + len \<le> length (cur_bytes c)" "bs = take len (rest c)"
    "c' = c\<lparr>cur_offset := cur_offset c + len\<rparr>" using assms by (auto simp: read_bytes_Inr)
  then show "cursor_ok c'" "cur_bytes c' = cur_bytes c" "cur_offset c' = cur_offset c + len"
    "length bs = len" "bs = take len (rest c)" by (auto simp: cursor_ok_def rest_def)
  show "rest c' = drop len (rest c)" using h(3) by (simp add: rest_def add.commute)
  then show "rest c = bs @ rest c'" using h(2) by simp
qed

lemma read_bytes_error:
  assumes "read_bytes c len ctx = Inl e" and "cur_offset c + len \<le> u64_max"
  shows "e = Truncated ctx len (remaining c)" and "remaining c < len \<or> length (cur_bytes c) < cur_offset c"
  using assms by (auto simp: read_bytes_def and_then_Inl remaining_def)

text \<open>A field read of \<open>n\<close> bytes: all the fixed-width readers are instances.\<close>

lemma read_field_Inr:
  "and_then (read_bytes c n ctx) (\<lambda>(bs, c'). Inr (f bs, c')) = Inr (v, c'') \<longleftrightarrow>
     (\<exists>bs. read_bytes c n ctx = Inr (bs, c'') \<and> v = f bs)"
  by (auto simp: and_then_Inr split: prod.splits)

lemmas read_field_defs = read_u8_def read_u16_be_def read_u32_be_def read_u32_le_def
  read_u64_be_def read_u32_be_widened_def

lemma read_u8_Inr: "read_u8 c ctx = Inr (v, c') \<longleftrightarrow>
    (\<exists>bs. read_bytes c 1 ctx = Inr (bs, c') \<and> v = nat_from_be bs)"
  unfolding read_u8_def by (rule read_field_Inr)

lemma read_u16_be_Inr: "read_u16_be c ctx = Inr (v, c') \<longleftrightarrow>
    (\<exists>bs. read_bytes c 2 ctx = Inr (bs, c') \<and> v = nat_from_be bs)"
  unfolding read_u16_be_def by (rule read_field_Inr)

lemma read_u64_be_Inr: "read_u64_be c ctx = Inr (v, c') \<longleftrightarrow>
    (\<exists>bs. read_bytes c 8 ctx = Inr (bs, c') \<and> v = nat_from_be bs)"
  unfolding read_u64_be_def by (rule read_field_Inr)

lemma read_u32_be_widened_Inr: "read_u32_be_widened c ctx = Inr (v, c') \<longleftrightarrow>
    (\<exists>bs. read_bytes c 4 ctx = Inr (bs, c') \<and> v = nat_from_be bs)"
  unfolding read_u32_be_widened_def read_field_Inr widen_u32_def
  using u32_from_be_nat read_bytes_ok(4) by metis

lemma read_u64_be_ok:
  assumes "read_u64_be c ctx = Inr (v, c')"
  shows "v \<le> u64_max" "cursor_ok c'" "cur_bytes c' = cur_bytes c" "cur_offset c' = cur_offset c + 8"
    "rest c = nat_to_be 8 v @ rest c'"
proof -
  obtain bs where bs: "read_bytes c 8 ctx = Inr (bs, c')" and v: "v = nat_from_be bs"
    using assms by (auto simp: read_u64_be_Inr)
  note ok = read_bytes_ok [OF bs]
  show "v \<le> u64_max" using nat_from_be_less [of bs] ok(4) by (simp add: v u64_max_def)
  show "cursor_ok c'" "cur_bytes c' = cur_bytes c" "cur_offset c' = cur_offset c + 8"
    using ok(1,2,3) by simp_all
  have "nat_to_be 8 v = bs" using nat_to_from_be [of bs] unfolding ok(4) v .
  then show "rest c = nat_to_be 8 v @ rest c'" using ok(5) by simp
qed

lemma read_u32_be_widened_ok:
  assumes "read_u32_be_widened c ctx = Inr (v, c')"
  shows "v \<le> u32_max" "cursor_ok c'" "cur_bytes c' = cur_bytes c" "cur_offset c' = cur_offset c + 4"
    "rest c = nat_to_be 4 v @ rest c'"
proof -
  obtain bs where bs: "read_bytes c 4 ctx = Inr (bs, c')" and v: "v = nat_from_be bs"
    using assms by (auto simp: read_u32_be_widened_Inr)
  note ok = read_bytes_ok [OF bs]
  show "v \<le> u32_max" using nat_from_be_less [of bs] ok(4) by (simp add: v u32_max_def)
  show "cursor_ok c'" "cur_bytes c' = cur_bytes c" "cur_offset c' = cur_offset c + 4"
    using ok(1,2,3) by simp_all
  have "nat_to_be 4 v = bs" using nat_to_from_be [of bs] unfolding ok(4) v .
  then show "rest c = nat_to_be 4 v @ rest c'" using ok(5) by simp
qed

text \<open>Reading back what an encoder wrote.\<close>

lemma read_bytes_append:
  assumes "rest c = bs @ ys" and "cursor_ok c" and "length (cur_bytes c) \<le> u64_max"
  shows "read_bytes c (length bs) ctx = Inr (bs, c\<lparr>cur_offset := cur_offset c + length bs\<rparr>)"
    and "rest (c\<lparr>cur_offset := cur_offset c + length bs\<rparr>) = ys"
    and "cursor_ok (c\<lparr>cur_offset := cur_offset c + length bs\<rparr>)"
proof -
  have len: "length (cur_bytes c) - cur_offset c = length bs + length ys"
    using assms(1) by (metis length_append length_drop rest_def)
  then have le: "cur_offset c + length bs \<le> length (cur_bytes c)"
    using assms(2) by (simp add: cursor_ok_def)
  then show "read_bytes c (length bs) ctx = Inr (bs, c\<lparr>cur_offset := cur_offset c + length bs\<rparr>)"
    using assms by (simp add: read_bytes_Inr)
  show "rest (c\<lparr>cur_offset := cur_offset c + length bs\<rparr>) = ys"
    using assms(1) by (simp add: rest_def flip: drop_drop) (metis add.commute append_eq_conv_conj drop_drop)
  show "cursor_ok (c\<lparr>cur_offset := cur_offset c + length bs\<rparr>)"
    using le by (simp add: cursor_ok_def)
qed

section \<open>Fixed-width fields as the grammars see them\<close>

text \<open>
  The two wire versions read the same tables with fields of different widths. The interface
  \<open>field_reader\<close> states what a reader of \<open>w\<close>-byte big-endian fields promises; it is
  interpreted for the widened 32-bit fields of version 1 and the 64-bit fields of version 2.
\<close>

type_synonym reader = "cursor \<Rightarrow> string \<Rightarrow> (nat \<times> cursor) result"

locale field_reader =
  fixes rd :: reader and w :: nat
  assumes rd_ok: "rd c ctx = Inr (v, c') \<Longrightarrow> v < 256 ^ w \<and> cursor_ok c' \<and> cur_bytes c' = cur_bytes c \<and>
      cur_offset c' = cur_offset c + w \<and> rest c = nat_to_be w v @ rest c'"
    and rd_encoded: "v < 256 ^ w \<Longrightarrow> rest c = nat_to_be w v @ ys \<Longrightarrow> cursor_ok c \<Longrightarrow>
      length (cur_bytes c) \<le> u64_max \<Longrightarrow> rd c ctx = Inr (v, c\<lparr>cur_offset := cur_offset c + w\<rparr>)"
    and width: "w \<le> 8"
begin

lemma rd_bound: "rd c ctx = Inr (v, c') \<Longrightarrow> v \<le> u64_max"
proof -
  assume "rd c ctx = Inr (v, c')"
  then have "v < 256 ^ w" using rd_ok by blast
  also have "\<dots> \<le> (256 :: nat) ^ 8" using width by (intro power_increasing) simp_all
  finally show ?thesis by (simp add: u64_max_def)
qed

lemma rd_rest:
  assumes "v < 256 ^ w" and "rest c = nat_to_be w v @ ys" and "cursor_ok c" and "length (cur_bytes c) \<le> u64_max"
  shows "rest (c\<lparr>cur_offset := cur_offset c + w\<rparr>) = ys" "cursor_ok (c\<lparr>cur_offset := cur_offset c + w\<rparr>)"
  using read_bytes_append(2,3) [OF assms(2-4)] by simp_all

end

lemma read_field_append:
  assumes "rest c = bs @ ys" and "cursor_ok c" and "length (cur_bytes c) \<le> u64_max" and "length bs = n"
  shows "read_bytes c n ctx = Inr (bs, c\<lparr>cur_offset := cur_offset c + n\<rparr>)"
  using read_bytes_append(1) [OF assms(1-3)] assms(4) by simp

interpretation u32_field: field_reader read_u32_be_widened 4
proof
  fix c ctx v c' assume r: "read_u32_be_widened c ctx = Inr (v, c')"
  note ok = read_u32_be_widened_ok [OF r]
  show "v < 256 ^ 4 \<and> cursor_ok c' \<and> cur_bytes c' = cur_bytes c \<and>
      cur_offset c' = cur_offset c + 4 \<and> rest c = nat_to_be 4 v @ rest c'"
    using ok by (simp add: u32_max_def)
next
  fix v c ys ctx
  assume "v < 256 ^ 4" "rest c = nat_to_be 4 v @ ys" "cursor_ok c" "length (cur_bytes c) \<le> u64_max"
  then show "read_u32_be_widened c ctx = Inr (v, c\<lparr>cur_offset := cur_offset c + 4\<rparr>)"
    unfolding read_u32_be_widened_Inr using read_field_append nat_from_to_be by (metis length_nat_to_be)
qed simp

interpretation u64_field: field_reader read_u64_be 8
proof
  fix c ctx v c' assume r: "read_u64_be c ctx = Inr (v, c')"
  note ok = read_u64_be_ok [OF r]
  show "v < 256 ^ 8 \<and> cursor_ok c' \<and> cur_bytes c' = cur_bytes c \<and>
      cur_offset c' = cur_offset c + 8 \<and> rest c = nat_to_be 8 v @ rest c'"
    using ok by (simp add: u64_max_def)
next
  fix v c ys ctx
  assume "v < 256 ^ 8" "rest c = nat_to_be 8 v @ ys" "cursor_ok c" "length (cur_bytes c) \<le> u64_max"
  then show "read_u64_be c ctx = Inr (v, c\<lparr>cur_offset := cur_offset c + 8\<rparr>)"
    unfolding read_u64_be_Inr using read_field_append nat_from_to_be by (metis length_nat_to_be)
qed simp

end
