(* ===== verification/Encoding.thy ===== *)
theory Encoding
  imports Utf8 Cursor
begin

text \<open>
  Text encodings (\<^verbatim>\<open>src/src/format/common/encoding.rs\<close>). UTF-8 and UTF-16LE decoding are
  modelled; the GBK, GB18030 and Big5 decoders belong to the crate \<^verbatim>\<open>encoding_rs\<close> and are
  fields of \<open>externals\<close>, as are the zlib and LZO decompressors of \<open>Compression\<close> and the
  Unicode lowercase table of \<open>Normalize\<close>. \<open>externals_ok\<close> states what the code relies on:
  strings that come out are sequences of scalar values, and a decoder's output fits the buffer
  length that the same crate announces for the input.

  The interface between a text decoder and the memory accounting of its callers is the locale
  \<open>sized_decoder\<close>: whatever is decoded fits the announced bound. It is interpreted for the
  decoder of the model.
\<close>

datatype text_encoding = Utf8 | Utf16Le | Gbk | Gb18030 | Big5

datatype decoder_result = InputEmpty | OutputFull | Malformed

record externals =
  ext_max_utf8_len :: "text_encoding \<Rightarrow> nat \<Rightarrow> nat option"
  ext_decode :: "text_encoding \<Rightarrow> bytes \<Rightarrow> decoder_result \<times> nat \<times> rstring"
  ext_inflate :: "bool \<Rightarrow> bytes \<Rightarrow> nat \<Rightarrow> string \<times> nat \<times> nat \<times> bytes"
  ext_lzo :: "(bytes \<Rightarrow> nat \<Rightarrow> (nat \<times> bytes) option) option"
  ext_to_lowercase :: "nat \<Rightarrow> rstring"

definition externals_ok :: "externals \<Rightarrow> bool" where
  "externals_ok X \<longleftrightarrow>
     (\<forall>e bs n out. ext_decode X e bs = (InputEmpty, n, out) \<longrightarrow> well_formed out \<and>
        (\<forall>m. ext_max_utf8_len X e (length bs) = Some m \<longrightarrow> str_len out \<le> m)) \<and>
     (\<forall>c. is_scalar c \<longrightarrow> well_formed (ext_to_lowercase X c)) \<and>
     (\<forall>ig bs n st r w out. ext_inflate X ig bs n = (st, r, w, out) \<longrightarrow> length out = n) \<and>
     (\<forall>f bs n w out. ext_lzo X = Some f \<longrightarrow> f bs n = Some (w, out) \<longrightarrow> length out = n)"

section \<open>Labels\<close>

text \<open>\<open>char::is_whitespace\<close>, used by \<open>str::trim\<close>.\<close>

definition is_whitespace :: "nat \<Rightarrow> bool" where
  "is_whitespace c \<longleftrightarrow> 9 \<le> c \<and> c \<le> 13 \<or> c = 0x20 \<or> c = 0x85 \<or> c = 0xA0 \<or> c = 0x1680 \<or>
     0x2000 \<le> c \<and> c \<le> 0x200A \<or> c = 0x2028 \<or> c = 0x2029 \<or> c = 0x202F \<or> c = 0x205F \<or> c = 0x3000"

definition trim_matches :: "(nat \<Rightarrow> bool) \<Rightarrow> rstring \<Rightarrow> rstring" where
  "trim_matches p s = rev (dropWhile p (rev (dropWhile p s)))"

definition trim :: "rstring \<Rightarrow> rstring" where
  "trim s = trim_matches is_whitespace s"

definition from_label :: "rstring option \<Rightarrow> text_encoding result" where
  "from_label l =
     (let label = trim (case l of None \<Rightarrow> ascii ''UTF-8'' | Some v \<Rightarrow> v);
          is = (\<lambda>s. eq_ignore_ascii_case label (ascii s))
      in if is ''UTF-8'' \<or> is ''UTF8'' then Inr Utf8
         else if is ''UTF-16'' \<or> is ''UTF-16LE'' \<or> is ''UTF16'' then Inr Utf16Le
         else if is ''GBK'' \<or> is ''GB2312'' then Inr Gbk
         else if is ''GB18030'' then Inr Gb18030
         else if is ''BIG5'' then Inr Big5
         else if is ''ISO8859-1'' \<or> is ''ISO-8859-1'' \<or> is ''LATIN1''
         then Inl (Unsupported ''ISO8859-1 text encoding (MDict byte semantics unresolved)'')
         else Inl (Unsupported ''text encoding''))"

definition for_keys :: "container_kind \<Rightarrow> header \<Rightarrow> text_encoding result" where
  "for_keys kind h = (case kind of Mdd \<Rightarrow> Inr Utf16Le | Mdx \<Rightarrow> from_label (encoding_label h))"

definition for_records :: "container_kind \<Rightarrow> header \<Rightarrow> text_encoding option result" where
  "for_records kind h =
     (case kind of Mdd \<Rightarrow> Inr None
      | Mdx \<Rightarrow> and_then (from_label (encoding_label h)) (\<lambda>e. Inr (Some e)))"

section \<open>Sizes\<close>

definition unit_size :: "text_encoding \<Rightarrow> nat" where
  "unit_size e = (if e = Utf16Le then 2 else 1)"

definition max_encoding_rs_output :: "externals \<Rightarrow> text_encoding \<Rightarrow> nat \<Rightarrow> nat result" where
  "max_encoding_rs_output X e n =
     ok_or (ext_max_utf8_len X e n) (InvalidFormat ''decoded text length overflow'')"

definition max_decoded_len :: "externals \<Rightarrow> text_encoding \<Rightarrow> nat \<Rightarrow> nat result" where
  "max_decoded_len X e n =
     (case e of
        Utf8 \<Rightarrow> Inr n
      | Utf16Le \<Rightarrow>
          ok_or (Option.bind (checked_add n 1) (\<lambda>bs. checked_mul (bs div 2) 3))
            (InvalidFormat ''UTF-16 decoded length overflow'')
      | _ \<Rightarrow> max_encoding_rs_output X e n)"

section \<open>Decoding\<close>

text \<open>\<open>chunks_exact(2)\<close> with \<open>u16::from_le_bytes\<close>, then \<open>char::decode_utf16\<close>.\<close>

fun units_le :: "bytes \<Rightarrow> nat list" where
  "units_le (lo # hi # bs) = (unat hi * 256 + unat lo) # units_le bs"
| "units_le _ = []"

fun decode_utf16 :: "nat list \<Rightarrow> rstring option" where
  "decode_utf16 [] = Some []"
| "decode_utf16 (u # us) =
     (if u < 0xD800 \<or> 0xE000 \<le> u then map_option ((#) u) (decode_utf16 us)
      else if 0xDC00 \<le> u then None
      else (case us of [] \<Rightarrow> None
            | v # vs \<Rightarrow>
                if 0xDC00 \<le> v \<and> v < 0xE000
                then map_option ((#) (0x10000 + (u - 0xD800) * 1024 + (v - 0xDC00))) (decode_utf16 vs)
                else None))"

definition decode_encoding_rs ::
    "externals \<Rightarrow> text_encoding \<Rightarrow> bytes \<Rightarrow> string \<Rightarrow> string \<Rightarrow> rstring result" where
  "decode_encoding_rs X e bs context name =
     and_then (max_encoding_rs_output X e (length bs)) (\<lambda>max_output.
     and_then (try_reserve_string 0 max_output context) (\<lambda>_.
     case ext_decode X e bs of
       (InputEmpty, r, out) \<Rightarrow>
         if r = length bs then Inr out
         else Inl (InvalidFormat ''text decoder did not consume bounded input'')
     | (Malformed, _, _) \<Rightarrow> Inl (Decode context name)
     | (OutputFull, _, _) \<Rightarrow> Inl (InvalidFormat ''text decoder did not consume bounded input'')))"

definition clone_text :: "rstring \<Rightarrow> string \<Rightarrow> rstring result" where
  "clone_text text context = and_then (try_reserve_string 0 (str_len text) context) (\<lambda>_. Inr text)"

definition decode :: "externals \<Rightarrow> text_encoding \<Rightarrow> bytes \<Rightarrow> string \<Rightarrow> rstring result" where
  "decode X e bs context =
     (case e of
        Utf8 \<Rightarrow>
          and_then (ok_or (from_utf8 bs) (Decode context ''utf-8'')) (\<lambda>text.
          clone_text text context)
      | Utf16Le \<Rightarrow>
          if length bs mod 2 \<noteq> 0 then Inl (Decode context ''utf-16le'')
          else and_then (ok_or (checked_mul (length bs div 2) 3)
                           (InvalidFormat ''UTF-16 decoded length overflow'')) (\<lambda>max_output.
               and_then (try_reserve_string 0 max_output context) (\<lambda>_.
               ok_or (decode_utf16 (units_le bs)) (Decode context ''utf-16le'')))
      | Gbk \<Rightarrow> decode_encoding_rs X Gbk bs context ''gbk''
      | Gb18030 \<Rightarrow> decode_encoding_rs X Gb18030 bs context ''gb18030''
      | Big5 \<Rightarrow> decode_encoding_rs X Big5 bs context ''big5'')"

text \<open>\<open>iter().position(|byte| byte == 0)\<close>, and the search for a zero unit among
  \<open>chunks_exact(2)\<close>.\<close>

fun zero_byte_at :: "bytes \<Rightarrow> nat option" where
  "zero_byte_at [] = None"
| "zero_byte_at (b # bs) = (if b = 0 then Some 0 else map_option Suc (zero_byte_at bs))"

fun zero_unit_at :: "bytes \<Rightarrow> nat option" where
  "zero_unit_at (a # b # bs) = (if a = 0 \<and> b = 0 then Some 0 else map_option Suc (zero_unit_at bs))"
| "zero_unit_at _ = None"

definition split_terminated ::
    "text_encoding \<Rightarrow> bytes \<Rightarrow> nat \<Rightarrow> string \<Rightarrow> (bytes \<times> nat) result" where
  "split_terminated e bs offset context =
     (if length bs < offset then Inl (InvalidFormat ''terminated string offset overflow'')
      else if e = Utf16Le then
        (case zero_unit_at (drop offset bs) of
           None \<Rightarrow> Inl (InvalidData (''missing UTF-16 terminator for '' @ context))
         | Some unit_index \<Rightarrow>
             and_then (ok_or (checked_mul unit_index 2)
                         (InvalidFormat ''terminated string length overflow'')) (\<lambda>relative.
             and_then (ok_or (checked_add offset relative)
                         (InvalidFormat ''terminated string end overflow'')) (\<lambda>end.
             and_then (ok_or (checked_add end 2)
                         (InvalidFormat ''terminated string end overflow'')) (\<lambda>nxt.
             Inr (slice offset end bs, nxt)))))
      else
        (case zero_byte_at (drop offset bs) of
           None \<Rightarrow> Inl (InvalidData (''missing terminator for '' @ context))
         | Some rel \<Rightarrow>
             and_then (ok_or (checked_add offset rel)
                         (InvalidFormat ''terminated string end overflow'')) (\<lambda>end.
             and_then (ok_or (checked_add end 1)
                         (InvalidFormat ''terminated string end overflow'')) (\<lambda>nxt.
             Inr (slice offset end bs, nxt)))))"

section \<open>What decoding yields\<close>

lemma units_le_bound: "u \<in> set (units_le bs) \<Longrightarrow> u < 65536"
proof (induction bs rule: units_le.induct)
  case (1 lo hi bs)
  have "unat hi * 256 + unat lo < 65536" using unat_u8_less [of lo] unat_u8_less [of hi] by simp
  with 1 show ?case by auto
qed simp_all

lemma length_units_le: "length (units_le bs) = length bs div 2"
  by (induction bs rule: units_le.induct) simp_all

lemma decode_utf16_props:
  "decode_utf16 us = Some s \<Longrightarrow> \<forall>u \<in> set us. u < 65536 \<Longrightarrow> well_formed s \<and> str_len s \<le> 3 * length us"
proof (induction us arbitrary: s rule: decode_utf16.induct)
  case 1
  then show ?case by simp
next
  case (2 u us)
  show ?case
  proof (cases "u < 0xD800 \<or> 0xE000 \<le> u")
    case True
    then obtain s' where s': "decode_utf16 us = Some s'" "s = u # s'" using "2.prems"(1) by auto
    have "well_formed s' \<and> str_len s' \<le> 3 * length us" using "2.IH"(1) True s'(1) "2.prems"(2) by simp
    then show ?thesis using True s' "2.prems"(2) by (auto simp: is_scalar_def len_utf8_def)
  next
    case False
    then obtain v vs s' where vs: "us = v # vs" "0xDC00 \<le> v" "v < 0xE000" "\<not> 0xDC00 \<le> u"
      and s': "decode_utf16 vs = Some s'" "s = (0x10000 + (u - 0xD800) * 1024 + (v - 0xDC00)) # s'"
      using "2.prems"(1) by (auto split: list.splits if_splits)
    have "well_formed s' \<and> str_len s' \<le> 3 * length vs"
      using "2.IH"(2) False vs s'(1) "2.prems"(2) by auto
    then show ?thesis using False vs s' by (auto simp: is_scalar_def len_utf8_def)
  qed
qed

lemma max_decoded_len_16: "max_decoded_len X Utf16Le n = Inr m \<Longrightarrow> m = (n + 1) div 2 * 3"
  by (auto simp: max_decoded_len_def bind_eq_Some_conv)

lemma decode_encoding_rs_Inr:
  assumes "decode_encoding_rs X e bs ctx name = Inr s"
  obtains "ext_decode X e bs = (InputEmpty, length bs, s)"
  using assms by (auto simp: decode_encoding_rs_def split: decoder_result.splits prod.splits if_splits)

lemma decode_cases:
  assumes "decode X e bs ctx = Inr s"
  obtains "e = Utf8" and "from_utf8 bs = Some s"
  | "e = Utf16Le" and "even (length bs)" and "decode_utf16 (units_le bs) = Some s"
  | "e \<noteq> Utf8" and "e \<noteq> Utf16Le" and "ext_decode X e bs = (InputEmpty, length bs, s)"
proof (cases e)
  case Utf8
  then show ?thesis using assms that(1) by (auto simp: decode_def clone_text_def)
next
  case Utf16Le
  then show ?thesis using assms that(2) by (auto simp: decode_def even_iff_mod_2_eq_zero split: if_splits)
next
  case Gbk
  then show ?thesis using assms that(3) by (auto simp: decode_def elim: decode_encoding_rs_Inr)
next
  case Gb18030
  then show ?thesis using assms that(3) by (auto simp: decode_def elim: decode_encoding_rs_Inr)
next
  case Big5
  then show ?thesis using assms that(3) by (auto simp: decode_def elim: decode_encoding_rs_Inr)
qed

lemma decode_well_formed: "externals_ok X \<Longrightarrow> decode X e bs ctx = Inr s \<Longrightarrow> well_formed s"
  by (erule decode_cases)
     (auto simp: externals_ok_def dest: from_utf8_sound decode_utf16_props units_le_bound)

lemma decode_fits:
  assumes X: "externals_ok X" and d: "decode X e bs ctx = Inr s" and m: "max_decoded_len X e (length bs) = Inr m"
  shows "str_len s \<le> m"
  using d
proof (rule decode_cases)
  assume "e = Utf8" and "from_utf8 bs = Some s"
  then show ?thesis using m from_utf8_sound [of bs s] by (simp add: max_decoded_len_def str_len_def)
next
  assume e: "e = Utf16Le" and ev: "even (length bs)" and "decode_utf16 (units_le bs) = Some s"
  then have "str_len s \<le> 3 * (length bs div 2)"
    using decode_utf16_props units_le_bound length_units_le by metis
  also have "3 * (length bs div 2) \<le> m"
    using max_decoded_len_16 [of X "length bs" m] m e ev by (simp add: mult.commute)
  finally show ?thesis .
next
  assume "e \<noteq> Utf8" "e \<noteq> Utf16Le" and "ext_decode X e bs = (InputEmpty, length bs, s)"
  then show ?thesis using m X
    by (cases e) (auto simp: max_decoded_len_def max_encoding_rs_output_def externals_ok_def)
qed

text \<open>
  A buffer counted once for a whole table covers all the texts cut from it when the bound is
  additive. \<open>text_cost\<close> is the longest text that \<open>n\<close> bytes can decode to. For the two decoders of
  the model it is computed; for those of the crate it is the maximum over the inputs, and
  \<open>additive_decoder\<close> says what makes it additive: a decoder that ends an input in its initial state
  decodes concatenated inputs to concatenated texts, ASCII bytes stand for themselves, and the
  announced length bounds the output.
\<close>

definition sized_encoding :: "text_encoding \<Rightarrow> bool" where
  "sized_encoding e \<longleftrightarrow> e = Utf8 \<or> e = Utf16Le"

definition decodes_to :: "externals \<Rightarrow> text_encoding \<Rightarrow> bytes \<Rightarrow> rstring \<Rightarrow> bool" where
  "decodes_to X e bs s \<longleftrightarrow> ext_decode X e bs = (InputEmpty, length bs, s)"

definition additive_decoder :: "externals \<Rightarrow> text_encoding \<Rightarrow> bool" where
  "additive_decoder X e \<longleftrightarrow> sized_encoding e \<or>
     (\<forall>as bs s t. decodes_to X e as s \<longrightarrow> decodes_to X e bs t \<longrightarrow> decodes_to X e (as @ bs) (s @ t)) \<and>
     (\<forall>b. unat b < 128 \<longrightarrow> decodes_to X e [b] [unat b]) \<and>
     (\<forall>bs s m. decodes_to X e bs s \<longrightarrow> ext_max_utf8_len X e (length bs) = Some m \<longrightarrow> str_len s \<le> m)"

definition text_cost :: "externals \<Rightarrow> text_encoding \<Rightarrow> nat \<Rightarrow> nat" where
  "text_cost X e n =
     (if e = Utf16Le then n div 2 * 3 else if e = Utf8 then n
      else Max (insert 0 ((\<lambda>bs. str_len (snd (snd (ext_decode X e bs)))) `
             {bs. length bs \<le> n \<and> (\<exists>s. decodes_to X e bs s)})))"

lemma finite_inputs: "finite {bs :: bytes. length bs \<le> n \<and> P bs}"
  by (rule finite_subset [OF _ finite_lists_length_le [of "UNIV :: u8 set" n]]) auto

lemma text_cost_upper:
  "\<not> sized_encoding e \<Longrightarrow> decodes_to X e bs s \<Longrightarrow> length bs \<le> n \<Longrightarrow> str_len s \<le> text_cost X e n"
  unfolding text_cost_def sized_encoding_def
  by (simp, rule Max_ge) (force simp: decodes_to_def intro!: finite_inputs image_eqI [where x = bs])+

lemma text_cost_attained:
  assumes "\<not> sized_encoding e"
  obtains "text_cost X e n = 0"
  | bs s where "length bs \<le> n" "decodes_to X e bs s" "text_cost X e n = str_len s"
proof -
  let ?S = "insert 0 ((\<lambda>bs. str_len (snd (snd (ext_decode X e bs)))) `
             {bs. length bs \<le> n \<and> (\<exists>s. decodes_to X e bs s)})"
  have "Max ?S \<in> ?S" by (rule Max_in) (auto intro: finite_inputs)
  moreover have "text_cost X e n = Max ?S" using assms by (simp add: text_cost_def sized_encoding_def)
  ultimately consider "text_cost X e n = 0"
    | bs s where "length bs \<le> n" "decodes_to X e bs s" "text_cost X e n = str_len (snd (snd (ext_decode X e bs)))"
    by auto
  then show ?thesis by cases (use that in \<open>auto simp: decodes_to_def\<close>)
qed

lemma text_cost_mono: "a \<le> b \<Longrightarrow> text_cost X e a \<le> text_cost X e b"
proof (cases "sized_encoding e")
  case True
  assume "a \<le> b"
  then have "a div 2 \<le> b div 2" by (rule div_le_mono)
  then show ?thesis using True \<open>a \<le> b\<close> by (auto simp: text_cost_def sized_encoding_def)
next
  case False
  assume ab: "a \<le> b"
  from False show ?thesis
  proof (rule text_cost_attained [of e X a])
    fix bs s assume "length bs \<le> a" "decodes_to X e bs s" "text_cost X e a = str_len s"
    then show ?thesis using text_cost_upper [OF False] ab by simp
  qed simp
qed

lemma text_cost_add:
  assumes add: "additive_decoder X e"
  shows "text_cost X e a + text_cost X e b \<le> text_cost X e (a + b)"
proof (cases "sized_encoding e")
  case True
  have "a div 2 * 3 + b div 2 * 3 \<le> (a + b) div 2 * 3" by presburger
  then show ?thesis using True by (auto simp: text_cost_def sized_encoding_def)
next
  case False
  from False show ?thesis
  proof (rule text_cost_attained [of e X a])
    assume "text_cost X e a = 0"
    then show ?thesis using text_cost_mono [of b "a + b" X e] by simp
  next
    fix as s assume s: "length as \<le> a" "decodes_to X e as s" "text_cost X e a = str_len s"
    from False show ?thesis
    proof (rule text_cost_attained [of e X b])
      assume "text_cost X e b = 0"
      then show ?thesis using text_cost_mono [of a "a + b" X e] by simp
    next
      fix bs t assume t: "length bs \<le> b" "decodes_to X e bs t" "text_cost X e b = str_len t"
      have "decodes_to X e (as @ bs) (s @ t)" using add False s(2) t(2) by (auto simp: additive_decoder_def)
      from text_cost_upper [OF False this, of "a + b"] show ?thesis
        using s t by (simp add: str_len_def)
    qed
  qed
qed

lemma decode_cost:
  assumes "decode X e bs ctx = Inr s"
  shows "str_len s \<le> text_cost X e (length bs)"
  using assms
proof (rule decode_cases)
  assume "e = Utf8" and "from_utf8 bs = Some s"
  then show ?thesis using from_utf8_sound [of bs s] by (simp add: text_cost_def str_len_def)
next
  assume "e = Utf16Le" and "decode_utf16 (units_le bs) = Some s"
  then show ?thesis using decode_utf16_props units_le_bound length_units_le
    by (metis text_cost_def mult.commute)
next
  assume "e \<noteq> Utf8" "e \<noteq> Utf16Le" and "ext_decode X e bs = (InputEmpty, length bs, s)"
  then show ?thesis using text_cost_upper [of e X bs s "length bs"] by (simp add: sized_encoding_def decodes_to_def)
qed

lemma decodes_padded:
  assumes "additive_decoder X e" and "\<not> sized_encoding e" and "decodes_to X e bs s"
  shows "decodes_to X e (bs @ replicate n 0) (s @ replicate n 0)"
proof (induction n)
  case (Suc n)
  have "unat (0 :: u8) < 128 \<longrightarrow> decodes_to X e [0] [unat (0 :: u8)]"
    using assms(1,2) unfolding additive_decoder_def by blast
  then have "decodes_to X e [0] [unat (0 :: u8)]" by simp
  then have "decodes_to X e ((bs @ replicate n 0) @ [0]) ((s @ replicate n 0) @ [0])"
    using assms(1,2) Suc by (auto simp: additive_decoder_def simp del: append_assoc)
  then show ?case by (simp add: replicate_append_same)
qed (use assms(3) in simp)

lemma text_cost_max:
  assumes e: "additive_decoder X e" and m: "max_decoded_len X e n = Inr m"
  shows "text_cost X e n \<le> m"
proof (cases "sized_encoding e")
  case True
  have "n div 2 \<le> (n + 1) div 2" by (intro div_le_mono) simp
  then show ?thesis using True m max_decoded_len_16 [of X n m]
    by (auto simp: sized_encoding_def text_cost_def max_decoded_len_def)
next
  case False
  from False show ?thesis
  proof (rule text_cost_attained [of e X n])
    fix bs s assume b: "length bs \<le> n" "decodes_to X e bs s" "text_cost X e n = str_len s"
    let ?k = "n - length bs"
    have "decodes_to X e (bs @ replicate ?k 0) (s @ replicate ?k 0)" by (rule decodes_padded [OF e False b(2)])
    moreover have "ext_max_utf8_len X e n = Some m"
      using m False by (cases e) (auto simp: max_decoded_len_def max_encoding_rs_output_def sized_encoding_def)
    ultimately have "str_len (s @ replicate ?k 0) \<le> m"
      using e False b(1) unfolding additive_decoder_def
      by (metis add_diff_inverse_nat length_append length_replicate not_le)
    then show ?thesis using b(3) by (simp add: str_len_def)
  qed simp
qed

text \<open>Encoders, and the round trip of the two decoders of the model.\<close>

fun encode_utf16 :: "rstring \<Rightarrow> nat list" where
  "encode_utf16 [] = []"
| "encode_utf16 (c # s) =
     (if c < 0x10000 then [c]
      else [0xD800 + (c - 0x10000) div 1024, 0xDC00 + (c - 0x10000) mod 1024]) @ encode_utf16 s"

definition units_to_le :: "nat list \<Rightarrow> bytes" where
  "units_to_le us = concat (map (\<lambda>u. [byte_of (u mod 256), byte_of (u div 256)]) us)"

lemma decode_encode_utf16: "well_formed s \<Longrightarrow> decode_utf16 (encode_utf16 s) = Some s"
proof (induction s)
  case (Cons c s)
  then have sc: "is_scalar c" and ih: "decode_utf16 (encode_utf16 s) = Some s" by simp_all
  show ?case
  proof (cases "c < 0x10000")
    case True
    then show ?thesis using sc ih by (auto simp: is_scalar_def)
  next
    case False
    then have "(c - 0x10000) div 1024 < 1024" using sc by (auto simp: is_scalar_def)
    moreover have "(c - 0x10000) div 1024 * 1024 + (c - 0x10000) mod 1024 = c - 0x10000" by simp
    ultimately show ?thesis using False ih by simp
  qed
qed simp

lemma encode_utf16_bound: "well_formed s \<Longrightarrow> u \<in> set (encode_utf16 s) \<Longrightarrow> u < 65536"
  by (induction s) (auto simp: is_scalar_def split: if_splits)

lemma units_le_to_le: "\<forall>u \<in> set us. u < 65536 \<Longrightarrow> units_le (units_to_le us) = us"
  by (induction us) (auto simp: units_to_le_def)

lemma length_units_to_le [simp]: "length (units_to_le us) = 2 * length us"
  by (induction us) (auto simp: units_to_le_def)

definition encode_text :: "text_encoding \<Rightarrow> rstring \<Rightarrow> bytes" where
  "encode_text e s = (if e = Utf16Le then units_to_le (encode_utf16 s) else utf8 s)"

section \<open>The decoder as its callers see it\<close>

locale sized_decoder =
  fixes dec :: "'x \<Rightarrow> bytes \<Rightarrow> string \<Rightarrow> rstring result"
    and bound :: "'x \<Rightarrow> nat \<Rightarrow> nat result"
    and sound :: "'x \<Rightarrow> bool"
  assumes fits: "sound x \<Longrightarrow> dec x bs ctx = Inr s \<Longrightarrow> bound x (length bs) = Inr m \<Longrightarrow> str_len s \<le> m"
    and wf: "sound x \<Longrightarrow> dec x bs ctx = Inr s \<Longrightarrow> well_formed s"
begin

text \<open>A buffer reserved for an input bound at least covers every text cut from that input.\<close>

lemma fits_part:
  assumes "sound x" and "dec x bs ctx = Inr s" and "bound x n = Inr m"
    and mono: "\<And>k k' m m'. k \<le> k' \<Longrightarrow> bound x k' = Inr m' \<Longrightarrow> \<exists>m. bound x k = Inr m \<and> m \<le> m'"
    and "length bs \<le> n"
  shows "str_len s \<le> m"
proof -
  obtain m0 where m0: "bound x (length bs) = Inr m0" "m0 \<le> m" using mono [OF assms(5,3)] by auto
  have "str_len s \<le> m0" using assms(1,2) m0(1) by (rule fits)
  then show ?thesis using m0(2) by simp
qed

end

interpretation decoder: sized_decoder "\<lambda>(X, e). decode X e" "\<lambda>(X, e). max_decoded_len X e"
    "\<lambda>(X, e). externals_ok X"
  by unfold_locales (auto intro: decode_fits decode_well_formed)

section \<open>Terminated strings\<close>

lemma zero_byte_at_Some:
  "zero_byte_at bs = Some i \<longleftrightarrow> i < length bs \<and> bs ! i = 0 \<and> (\<forall>j < i. bs ! j \<noteq> 0)"
proof (induction bs arbitrary: i)
  case (Cons b bs)
  then show ?case by (cases i) (auto simp: less_Suc_eq_0_disj)
qed simp

lemma zero_byte_at_None: "zero_byte_at bs = None \<longleftrightarrow> 0 \<notin> set bs"
  by (induction bs) auto

lemma zero_byte_at_append: "0 \<notin> set xs \<Longrightarrow> zero_byte_at (xs @ 0 # ys) = Some (length xs)"
  by (induction xs) auto

lemma zero_unit_at_append:
  "even (length xs) \<Longrightarrow> (\<forall>u \<in> set (units_le xs). u \<noteq> 0) \<Longrightarrow>
   zero_unit_at (xs @ 0 # 0 # ys) = Some (length xs div 2)"
proof (induction xs rule: units_le.induct)
  case (1 lo hi bs)
  then have "\<not> (lo = 0 \<and> hi = 0)" by auto
  with 1 show ?case by auto
qed simp_all

lemma zero_unit_at_Some:
  "zero_unit_at bs = Some i \<Longrightarrow> 2 * i + 1 < length bs \<and> bs ! (2 * i) = 0 \<and> bs ! (2 * i + 1) = 0"
proof (induction bs arbitrary: i rule: zero_unit_at.induct)
  case (1 a b bs)
  then show ?case by (cases i) (auto split: if_splits)
qed simp_all

lemma split_terminated_ok:
  assumes "split_terminated e bs offset ctx = Inr (key, nxt)"
  shows "offset \<le> length bs" "nxt \<le> length bs" "nxt = offset + length key + unit_size e"
    "key = take (length key) (drop offset bs)"
    "slice (offset + length key) nxt bs = replicate (unit_size e) 0"
proof -
  have le: "offset \<le> length bs" using assms by (auto simp: split_terminated_def split: if_splits)
  have *: "nxt \<le> length bs \<and> nxt = offset + length key + unit_size e \<and>
      key = take (length key) (drop offset bs) \<and>
      slice (offset + length key) nxt bs = replicate (unit_size e) 0"
  proof (cases "e = Utf16Le")
    case True
    then obtain i where i: "zero_unit_at (drop offset bs) = Some i"
      and k: "key = slice offset (offset + i * 2) bs" and n: "nxt = offset + i * 2 + 2"
      using assms le by (auto simp: split_terminated_def split: option.splits)
    note z = zero_unit_at_Some [OF i]
    have l: "offset + 2 * i + 1 < length bs" using z le by auto
    have len: "length key = 2 * i" using k l by simp
    have "slice (offset + length key) nxt bs = [bs ! (offset + 2 * i), bs ! (offset + 2 * i + 1)]"
      using len n l by (intro nth_equalityI) (auto simp: nth_slice less_Suc_eq numeral_2_eq_2)
    also have "\<dots> = [0, 0]" using z le by (simp add: nth_drop)
    finally show ?thesis using k n l len True
      by (simp add: unit_size_def slice_def numeral_2_eq_2 mult.commute)
  next
    case False
    then obtain i where i: "zero_byte_at (drop offset bs) = Some i"
      and k: "key = slice offset (offset + i) bs" and n: "nxt = offset + i + 1"
      using assms le by (auto simp: split_terminated_def split: option.splits)
    have z: "i < length bs - offset" "bs ! (offset + i) = 0"
      using i le by (auto simp: zero_byte_at_Some nth_drop)
    have len: "length key = i" using k z by simp
    have "slice (offset + length key) nxt bs = [bs ! (offset + i)]"
      using len n z by (intro nth_equalityI) (auto simp: nth_slice)
    then show ?thesis using k n z len False by (simp add: unit_size_def slice_def)
  qed
  show "offset \<le> length bs" by (rule le)
  from * show "nxt \<le> length bs" "nxt = offset + length key + unit_size e"
    "key = take (length key) (drop offset bs)"
    "slice (offset + length key) nxt bs = replicate (unit_size e) 0" by blast+
qed

section \<open>Decoding and searching, characterised\<close>

lemma encode_decode_utf16:
  "decode_utf16 us = Some s \<Longrightarrow> \<forall>u \<in> set us. u < 65536 \<Longrightarrow> encode_utf16 s = us"
proof (induction us arbitrary: s rule: decode_utf16.induct)
  case (2 u us)
  show ?case
  proof (cases "u < 0xD800 \<or> 0xE000 \<le> u")
    case True
    then show ?thesis using 2 by auto
  next
    case False
    then obtain v vs s' where vs: "us = v # vs" "0xDC00 \<le> v" "v < 0xE000" "\<not> 0xDC00 \<le> u"
      and s': "decode_utf16 vs = Some s'" "s = (0x10000 + (u - 0xD800) * 1024 + (v - 0xDC00)) # s'"
      using "2.prems"(1) by (auto split: list.splits if_splits)
    have v: "v - 0xDC00 < 1024" using vs by simp
    have "((u - 0xD800) * 1024 + (v - 0xDC00)) div 1024 = u - 0xD800"
      and "((u - 0xD800) * 1024 + (v - 0xDC00)) mod 1024 = v - 0xDC00" using v by simp_all
    moreover have "encode_utf16 s' = vs" using "2.IH"(2) False vs s' "2.prems"(2) by auto
    ultimately show ?thesis using False vs s' by simp
  qed
qed simp

lemma units_to_le_units: "even (length bs) \<Longrightarrow> units_to_le (units_le bs) = bs"
proof (induction bs rule: units_le.induct)
  case (1 lo hi bs)
  have "unat lo < 256" by (rule unat_u8_less)
  with 1 show ?case by (simp add: units_to_le_def)
qed (simp_all add: units_to_le_def)

text \<open>
  \<open>text_bytes X e s bs\<close>: \<open>bs\<close> is the text \<open>s\<close>. For the encodings of the model that is the encoder's
  image; for the others it is what the crate decodes, whole. \<open>decode_room\<close>: the buffer that the
  decoder reserves for \<open>n\<close> input bytes can be allocated.
\<close>

definition text_bytes :: "externals \<Rightarrow> text_encoding \<Rightarrow> rstring \<Rightarrow> bytes \<Rightarrow> bool" where
  "text_bytes X e s bs \<longleftrightarrow>
     (if sized_encoding e then well_formed s \<and> bs = encode_text e s else decodes_to X e bs s)"

definition decode_room :: "externals \<Rightarrow> text_encoding \<Rightarrow> nat \<Rightarrow> bool" where
  "decode_room X e n \<longleftrightarrow>
     (case e of Utf8 \<Rightarrow> n \<le> isize_max
      | Utf16Le \<Rightarrow> n div 2 * 3 \<le> isize_max
      | _ \<Rightarrow> (case ext_max_utf8_len X e n of None \<Rightarrow> False | Some m \<Rightarrow> m \<le> isize_max))"

lemma decode_encoding_rs_iff:
  "\<not> sized_encoding e \<Longrightarrow> decode_encoding_rs X e bs ctx name = Inr s \<longleftrightarrow>
     text_bytes X e s bs \<and> decode_room X e (length bs)"
  by (cases e)
     (auto simp: decode_encoding_rs_def max_encoding_rs_output_def text_bytes_def decodes_to_def
        decode_room_def sized_encoding_def split: decoder_result.splits prod.splits option.splits)

theorem decode_iff:
  "decode X e bs ctx = Inr s \<longleftrightarrow> text_bytes X e s bs \<and> decode_room X e (length bs)"
proof (cases e)
  case Utf8
  have "from_utf8 bs = Some s \<longleftrightarrow> well_formed s \<and> bs = utf8 s"
    using from_utf8_sound [of bs s] from_utf8_complete [of s] by auto
  moreover have "str_len s = length (utf8 s)" by (simp add: str_len_def)
  ultimately show ?thesis using Utf8
    by (auto simp: decode_def clone_text_def text_bytes_def decode_room_def sized_encoding_def encode_text_def)
next
  case Utf16Le
  have "even (length bs) \<and> decode_utf16 (units_le bs) = Some s \<longleftrightarrow> well_formed s \<and> bs = units_to_le (encode_utf16 s)"
  proof
    assume d: "even (length bs) \<and> decode_utf16 (units_le bs) = Some s"
    have b: "\<forall>u \<in> set (units_le bs). u < 65536" by (auto intro: units_le_bound)
    show "well_formed s \<and> bs = units_to_le (encode_utf16 s)"
      using d encode_decode_utf16 [OF _ b] units_to_le_units [of bs] decode_utf16_props [OF _ b] by metis
  next
    assume h: "well_formed s \<and> bs = units_to_le (encode_utf16 s)"
    then have "units_le bs = encode_utf16 s" using encode_utf16_bound units_le_to_le by blast
    then show "even (length bs) \<and> decode_utf16 (units_le bs) = Some s" using h
      by (simp add: decode_encode_utf16)
  qed
  moreover have "isize_max \<le> u64_max" by (simp add: isize_max_def u64_max_def)
  ultimately show ?thesis using Utf16Le
    by (auto simp: decode_def text_bytes_def decode_room_def sized_encoding_def encode_text_def
        even_iff_mod_2_eq_zero ok_or_def checked_mul_def split: option.splits)
qed (use decode_encoding_rs_iff [of e] in \<open>simp_all add: decode_def sized_encoding_def\<close>)

text \<open>No unit of the text is the terminator.\<close>

definition no_zero_unit :: "text_encoding \<Rightarrow> bytes \<Rightarrow> bool" where
  "no_zero_unit e bs \<longleftrightarrow> (if e = Utf16Le then even (length bs) \<and> 0 \<notin> set (units_le bs) else 0 \<notin> set bs)"

lemma zero_byte_at_split:
  "zero_byte_at bs = Some i \<longleftrightarrow> (\<exists>xs ys. bs = xs @ 0 # ys \<and> length xs = i \<and> 0 \<notin> set xs)"
proof
  show "zero_byte_at bs = Some i \<Longrightarrow> \<exists>xs ys. bs = xs @ 0 # ys \<and> length xs = i \<and> 0 \<notin> set xs"
  proof (induction bs arbitrary: i)
    case (Cons b bs)
    show ?case
    proof (cases "b = 0")
      case True
      then show ?thesis using Cons.prems by (intro exI [of _ "[]"] exI [of _ bs]) auto
    next
      case False
      then obtain j where j: "zero_byte_at bs = Some j" "i = Suc j" using Cons.prems by auto
      then obtain xs ys where "bs = xs @ 0 # ys" "length xs = j" "0 \<notin> set xs" using Cons.IH by blast
      then show ?thesis using False j(2) by (intro exI [of _ "b # xs"] exI [of _ ys]) auto
    qed
  qed simp
next
  assume "\<exists>xs ys. bs = xs @ 0 # ys \<and> length xs = i \<and> 0 \<notin> set xs"
  then show "zero_byte_at bs = Some i" using zero_byte_at_append by blast
qed

lemma unit_zero_iff: "unat (hi :: u8) * 256 + unat (lo :: u8) = 0 \<longleftrightarrow> lo = 0 \<and> hi = 0"
  by (auto simp: unat_eq_0)

lemma zero_unit_at_split:
  "zero_unit_at bs = Some i \<longleftrightarrow>
     (\<exists>xs ys. bs = xs @ 0 # 0 # ys \<and> length xs = 2 * i \<and> 0 \<notin> set (units_le xs))"
proof
  show "zero_unit_at bs = Some i \<Longrightarrow>
     \<exists>xs ys. bs = xs @ 0 # 0 # ys \<and> length xs = 2 * i \<and> 0 \<notin> set (units_le xs)"
  proof (induction bs arbitrary: i rule: zero_unit_at.induct)
    case (1 a b bs)
    show ?case
    proof (cases "a = 0 \<and> b = 0")
      case True
      then show ?thesis using "1.prems" by (intro exI [of _ "[]"] exI [of _ bs]) auto
    next
      case False
      then obtain j where j: "zero_unit_at bs = Some j" "i = Suc j" using "1.prems" by auto
      then obtain xs ys where "bs = xs @ 0 # 0 # ys" "length xs = 2 * j" "0 \<notin> set (units_le xs)"
        using "1.IH" [OF False] by blast
      then show ?thesis using False j(2) unit_zero_iff [of b a]
        by (intro exI [of _ "a # b # xs"] exI [of _ ys]) auto
    qed
  qed simp_all
next
  assume "\<exists>xs ys. bs = xs @ 0 # 0 # ys \<and> length xs = 2 * i \<and> 0 \<notin> set (units_le xs)"
  then obtain xs ys where "bs = xs @ 0 # 0 # ys" "length xs = 2 * i" "0 \<notin> set (units_le xs)" by blast
  then show "zero_unit_at bs = Some i"
    using zero_unit_at_append [of xs ys] by (metis dvd_triv_left nonzero_mult_div_cancel_left zero_neq_numeral)
qed

lemma replicate_two: "replicate 2 x = [x, x]"
  by (simp add: numeral_2_eq_2)

lemma split_terminated_iff:
  assumes len: "length bs \<le> isize_max"
  shows "split_terminated e bs offset ctx = Inr (key, nxt) \<longleftrightarrow>
    offset \<le> length bs \<and> no_zero_unit e key \<and> nxt = offset + length key + unit_size e \<and>
    (\<exists>ys. drop offset bs = key @ replicate (unit_size e) 0 @ ys)"
proof (cases "offset \<le> length bs")
  case True
  have part: "slice offset (offset + length xs) bs = xs" "offset + length xs + length zs \<le> length bs"
    if "drop offset bs = xs @ zs" for xs zs
  proof -
    show "slice offset (offset + length xs) bs = xs" using that by (simp add: slice_def)
    have "length (drop offset bs) = length xs + length zs" using that by simp
    then show "offset + length xs + length zs \<le> length bs" using True by simp
  qed
  have max: "isize_max + 2 \<le> u64_max" by (simp add: isize_max_def u64_max_def)
  show ?thesis
  proof (cases "e = Utf16Le")
    case u16: True
    show ?thesis
    proof
      assume "split_terminated e bs offset ctx = Inr (key, nxt)"
      then obtain i where i: "zero_unit_at (drop offset bs) = Some i"
        and k: "key = slice offset (offset + i * 2) bs" and n: "nxt = offset + i * 2 + 2"
        using u16 True by (auto simp: split_terminated_def split: option.splits)
      obtain xs ys where d: "drop offset bs = xs @ 0 # 0 # ys" and l: "length xs = 2 * i"
        and z: "0 \<notin> set (units_le xs)" using i zero_unit_at_split by blast
      have "key = xs" using part(1) [OF d] l k by (simp add: mult.commute)
      then show "offset \<le> length bs \<and> no_zero_unit e key \<and> nxt = offset + length key + unit_size e \<and>
          (\<exists>ys. drop offset bs = key @ replicate (unit_size e) 0 @ ys)"
        using True u16 d l z n by (simp add: no_zero_unit_def unit_size_def replicate_two)
    next
      assume h: "offset \<le> length bs \<and> no_zero_unit e key \<and> nxt = offset + length key + unit_size e \<and>
          (\<exists>ys. drop offset bs = key @ replicate (unit_size e) 0 @ ys)"
      then obtain ys where d: "drop offset bs = key @ 0 # 0 # ys"
        using u16 by (auto simp: unit_size_def replicate_two)
      obtain i where i: "length key = 2 * i" using h u16 by (auto simp: no_zero_unit_def)
      have "zero_unit_at (drop offset bs) = Some i"
        using d i h u16 unfolding zero_unit_at_split by (auto simp: no_zero_unit_def)
      moreover have "offset + i * 2 + 2 \<le> u64_max" using part(2) [OF d] i len max by simp
      ultimately show "split_terminated e bs offset ctx = Inr (key, nxt)"
        using True u16 part(1) [OF d] i h
        by (simp add: split_terminated_def unit_size_def ok_or_def checked_mul_def checked_add_def mult.commute)
    qed
  next
    case u8: False
    show ?thesis
    proof
      assume "split_terminated e bs offset ctx = Inr (key, nxt)"
      then obtain i where i: "zero_byte_at (drop offset bs) = Some i"
        and k: "key = slice offset (offset + i) bs" and n: "nxt = offset + i + 1"
        using u8 True by (auto simp: split_terminated_def split: option.splits)
      obtain xs ys where d: "drop offset bs = xs @ 0 # ys" and l: "length xs = i"
        and z: "0 \<notin> set xs" using i zero_byte_at_split by blast
      have "key = xs" using part(1) [OF d] l k by simp
      then show "offset \<le> length bs \<and> no_zero_unit e key \<and> nxt = offset + length key + unit_size e \<and>
          (\<exists>ys. drop offset bs = key @ replicate (unit_size e) 0 @ ys)"
        using True u8 d l z n by (simp add: no_zero_unit_def unit_size_def)
    next
      assume h: "offset \<le> length bs \<and> no_zero_unit e key \<and> nxt = offset + length key + unit_size e \<and>
          (\<exists>ys. drop offset bs = key @ replicate (unit_size e) 0 @ ys)"
      then obtain ys where d: "drop offset bs = key @ 0 # ys"
        using u8 by (auto simp: unit_size_def)
      have "zero_byte_at (drop offset bs) = Some (length key)"
        using d h u8 unfolding zero_byte_at_split by (auto simp: no_zero_unit_def)
      moreover have "offset + length key + 1 \<le> u64_max" using part(2) [OF d] len max by simp
      ultimately show "split_terminated e bs offset ctx = Inr (key, nxt)"
        using True u8 part(1) [OF d] h
        by (simp add: split_terminated_def unit_size_def ok_or_def checked_add_def)
    qed
  qed
qed (simp add: split_terminated_def)

end
