(* ===== verification/Source.thy ===== *)
theory Source
  imports Limits
begin

text \<open>
  Positional reads of the dictionary file (\<^verbatim>\<open>src/src/format/common/source.rs\<close>). A file source
  is the length recorded when the file was opened and the bytes the file holds now: another process
  may have truncated it since, which \<open>read_exact\<close> reports as an I/O error. The mutex, the
  modification time and the file system itself are not modelled.
\<close>

record file_source =
  fs_len :: nat
  fs_bytes :: bytes

text \<open>\<open>FileSource::open\<close>, given what the opened file holds.\<close>

definition source_of_file :: "bytes \<Rightarrow> file_source result" where
  "source_of_file content =
     (if content = [] then Inl (InvalidFormat ''empty input file'')
      else Inr \<lparr>fs_len = length content, fs_bytes = content\<rparr>)"

definition ensure_range :: "file_source \<Rightarrow> nat \<Rightarrow> nat \<Rightarrow> string \<Rightarrow> unit result" where
  "ensure_range src offset len context =
     and_then (ok_or (checked_add offset len) (InvalidFormat ''source range overflow'')) (\<lambda>end.
     if fs_len src < end
     then Inl (Truncated context (min len usize_max) (min (fs_len src - offset) usize_max))
     else Inr ())"

definition read_exact_at :: "file_source \<Rightarrow> nat \<Rightarrow> nat \<Rightarrow> string \<Rightarrow> bytes result" where
  "read_exact_at src offset len context =
     and_then (checked_u64 len context) (\<lambda>len_u64.
     and_then (ensure_range src offset len_u64 context) (\<lambda>_.
     and_then (try_reserve_vec 1 0 len context) (\<lambda>_.
     if length (fs_bytes src) < offset + len \<and> 0 < len
     then Inl (Io ''failed to fill whole buffer'')
     else Inr (slice offset (offset + len) (fs_bytes src)))))"

text \<open>A source whose file still has the length it had when it was opened, and which fits the
  offsets of the platform.\<close>

definition source_ok :: "file_source \<Rightarrow> bool" where
  "source_ok src \<longleftrightarrow> fs_len src = length (fs_bytes src) \<and> fs_len src \<le> isize_max"

lemma ensure_range_Inr [simp]:
  "ensure_range src offset len c = Inr u \<longleftrightarrow> offset + len \<le> u64_max \<and> offset + len \<le> fs_len src"
  by (auto simp: ensure_range_def and_then_Inr)

lemma read_exact_at_ok:
  assumes "read_exact_at src offset len c = Inr bs"
  shows "length bs = len" "offset + len \<le> fs_len src" "bs = slice offset (offset + len) (fs_bytes src)"
    "len \<le> isize_max"
  using assms by (auto simp: read_exact_at_def and_then_Inr split: if_splits)

lemma read_exact_at_Inr:
  assumes "source_ok src"
  shows "read_exact_at src offset len c = Inr bs \<longleftrightarrow>
    offset + len \<le> fs_len src \<and> bs = slice offset (offset + len) (fs_bytes src)"
  using assms by (auto simp: read_exact_at_def and_then_Inr source_ok_def isize_max_def width_defs)

lemma source_of_file_ok: "source_of_file content = Inr src \<Longrightarrow> length content \<le> isize_max \<Longrightarrow> source_ok src"
  by (auto simp: source_of_file_def source_ok_def split: if_splits)

end
