(* ===== verification/Tiling.thy ===== *)
theory Tiling
  imports Prelude
begin

text \<open>
  Tables of consecutive intervals. Keyword blocks cover the entry ordinals, record blocks cover the
  decoded record stream, and compressed blocks cover their section of the file: each is a list of
  intervals that begin where their predecessor ends. \<open>tiles\<close> states that, and the locale
  \<open>interval_search\<close> states what the two binary searches of the program promise about such a
  table; \<open>Descriptors\<close> interprets it for record blocks and \<open>Keys\<close> for keyword blocks.
\<close>

fun tiles :: "('b \<Rightarrow> nat) \<Rightarrow> ('b \<Rightarrow> nat) \<Rightarrow> nat \<Rightarrow> 'b list \<Rightarrow> nat \<Rightarrow> bool" where
  "tiles start width lo [] hi \<longleftrightarrow> lo = hi"
| "tiles start width lo (b # bs) hi \<longleftrightarrow> start b = lo \<and> tiles start width (lo + width b) bs hi"

lemma tiles_append:
  "tiles start width lo (xs @ ys) hi \<longleftrightarrow>
     (\<exists>mid. tiles start width lo xs mid \<and> tiles start width mid ys hi)"
  by (induction xs arbitrary: lo) auto

lemma tiles_total: "tiles start width lo bs hi \<Longrightarrow> hi = lo + sum_list (map width bs)"
proof (induction bs arbitrary: lo)
  case (Cons b bs)
  then have "hi = lo + width b + sum_list (map width bs)" by auto
  then show ?case by simp
qed simp

lemma tiles_le: "tiles start width lo bs hi \<Longrightarrow> lo \<le> hi"
  by (drule tiles_total) simp

lemma tiles_nth:
  "tiles start width lo bs hi \<Longrightarrow> i < length bs \<Longrightarrow> start (bs ! i) = lo + sum_list (map width (take i bs))"
proof (induction bs arbitrary: lo i)
  case (Cons b bs)
  then show ?case by (cases i) (auto simp: add.assoc)
qed simp

lemma tiles_nth_Suc:
  "tiles start width lo bs hi \<Longrightarrow> Suc i < length bs \<Longrightarrow> start (bs ! Suc i) = start (bs ! i) + width (bs ! i)"
  by (simp add: tiles_nth take_Suc_conv_app_nth)

lemma tiles_end_le:
  assumes "tiles start width lo bs hi" and "i < length bs"
  shows "lo \<le> start (bs ! i)" and "start (bs ! i) + width (bs ! i) \<le> hi"
proof -
  have split: "bs = take i bs @ bs ! i # drop (Suc i) bs" using assms(2) by (rule id_take_nth_drop)
  then obtain mid where "tiles start width lo (take i bs) mid"
    and rest: "tiles start width mid (bs ! i # drop (Suc i) bs) hi"
    using assms(1) by (metis tiles_append)
  then show "lo \<le> start (bs ! i)" by (auto dest: tiles_le)
  show "start (bs ! i) + width (bs ! i) \<le> hi" using rest by (auto dest: tiles_le)
qed

lemma tiles_last:
  assumes "tiles start width lo bs hi" and "Suc i = length bs"
  shows "start (bs ! i) + width (bs ! i) = hi"
proof -
  have "bs = take i bs @ [bs ! i]" using assms(2) by (metis lessI take_Suc_conv_app_nth take_all_iff order_refl)
  then have "tiles start width lo (take i bs @ [bs ! i]) hi" using assms(1) by simp
  then show ?thesis by (auto simp: tiles_append)
qed

lemma tiles_before:
  assumes "tiles start width lo bs hi" and "i < j" and "j < length bs"
  shows "start (bs ! i) + width (bs ! i) \<le> start (bs ! j)"
proof -
  have j: "start (bs ! j) = lo + sum_list (map width (take j bs))"
    and i: "start (bs ! i) = lo + sum_list (map width (take i bs))"
    using assms by (auto intro: tiles_nth)
  have "take j bs = take i bs @ bs ! i # take (j - Suc i) (drop (Suc i) bs)"
  proof -
    have "take j bs = take (Suc i + (j - Suc i)) bs" using assms(2) by simp
    also have "\<dots> = take (Suc i) bs @ take (j - Suc i) (drop (Suc i) bs)" by (simp only: take_add)
    also have "take (Suc i) bs = take i bs @ [bs ! i]" using assms by (simp add: take_Suc_conv_app_nth)
    finally show ?thesis by simp
  qed
  with i j show ?thesis by simp
qed

lemma tiles_unique:
  assumes t: "tiles start width lo bs hi" and i: "i < length bs" and j: "j < length bs"
    and xi: "start (bs ! i) \<le> x" "x < start (bs ! i) + width (bs ! i)"
    and xj: "start (bs ! j) \<le> x" "x < start (bs ! j) + width (bs ! j)"
  shows "i = j"
proof (rule ccontr)
  assume "i \<noteq> j"
  then consider "i < j" | "j < i" by linarith
  then show False
    by cases (use tiles_before [OF t, of i j] tiles_before [OF t, of j i] i j xi xj in auto)
qed

lemma tiles_cover:
  "tiles start width lo bs hi \<Longrightarrow> lo \<le> x \<Longrightarrow> x < hi \<Longrightarrow>
     \<exists>i < length bs. start (bs ! i) \<le> x \<and> x < start (bs ! i) + width (bs ! i)"
proof (induction bs arbitrary: lo)
  case (Cons b bs)
  show ?case
  proof (cases "x < lo + width b")
    case True
    then show ?thesis using Cons.prems by (intro exI [of _ 0]) auto
  next
    case False
    then have "\<exists>i < length bs. start (bs ! i) \<le> x \<and> x < start (bs ! i) + width (bs ! i)"
      using Cons.prems by (intro Cons.IH [of "lo + width b"]) auto
    then show ?thesis by (metis Suc_less_eq length_Cons nth_Cons_Suc)
  qed
qed simp

section \<open>Bisection\<close>

text \<open>
  The loop of \<open>find_record_block\<close> and of \<open>find_key_block_by_ordinal\<close>, over the
  half-open range \<open>[left, right)\<close>. \<open>None\<close> is an interval whose end overflows, which
  the two callers report differently.
\<close>

function bisect ::
    "('b \<Rightarrow> nat) \<Rightarrow> ('b \<Rightarrow> nat) \<Rightarrow> 'b list \<Rightarrow> nat \<Rightarrow> nat \<Rightarrow> nat \<Rightarrow> nat option option" where
  "bisect start width blocks x left right =
     (if left < right then
        let mid = (left + right) div 2; block = blocks ! mid in
        case checked_add (start block) (width block) of
          None \<Rightarrow> None
        | Some end_ \<Rightarrow>
            if x < start block then bisect start width blocks x left mid
            else if end_ \<le> x then bisect start width blocks x (mid + 1) right
            else Some (Some mid)
      else Some None)"
  by pat_completeness auto
termination
  by (relation "measure (\<lambda>(_, _, _, _, left, right). right - left)") auto

declare bisect.simps [simp del]

lemma bisect_hit:
  "bisect start width bs x left right = Some (Some i) \<Longrightarrow> right \<le> length bs \<Longrightarrow>
     i < length bs \<and> start (bs ! i) \<le> x \<and> x < start (bs ! i) + width (bs ! i)"
proof (induction start width bs x left right rule: bisect.induct)
  case (1 start width bs x left right)
  show ?case
  proof (cases "left < right")
    case False
    then show ?thesis using "1.prems" by (simp add: bisect.simps)
  next
    case True
    define mid where "mid = (left + right) div 2"
    have m: "mid < right" using True by (simp add: mid_def)
    obtain e where e: "checked_add (start (bs ! mid)) (width (bs ! mid)) = Some e"
      using "1.prems"(1) True by (auto simp: bisect.simps [of start] mid_def [symmetric] Let_def split: option.splits)
    consider "x < start (bs ! mid)" | "\<not> x < start (bs ! mid)" "e \<le> x"
      | "\<not> x < start (bs ! mid)" "\<not> e \<le> x" by blast
    then show ?thesis
    proof cases
      case 1
      then show ?thesis using "1.IH"(1) [OF True mid_def refl e 1] "1.prems" True e m
        by (simp add: bisect.simps [of start width bs x left right] mid_def [symmetric] Let_def)
    next
      case 2
      then show ?thesis using "1.IH"(2) [OF True mid_def refl e 2] "1.prems" True e
        by (simp add: bisect.simps [of start width bs x left right] mid_def [symmetric] Let_def)
    next
      case 3
      then show ?thesis using "1.prems" True e m
        by (auto simp: bisect.simps [of start width bs x left right] mid_def [symmetric] Let_def)
    qed
  qed
qed

lemma bisect_total:
  assumes "tiles start width lo bs hi" and "hi \<le> u64_max"
  shows "right \<le> length bs \<Longrightarrow> bisect start width bs x left right \<noteq> None"
proof (induction "right - left" arbitrary: left right rule: less_induct)
  case less
  define mid where "mid = (left + right) div 2"
  show ?case
  proof (cases "left < right")
    case True
    then have m: "left \<le> mid" "mid < right" by (auto simp: mid_def)
    then have "start (bs ! mid) + width (bs ! mid) \<le> hi"
      using tiles_end_le(2) [OF assms(1), of mid] less.prems by simp
    then have e: "checked_add (start (bs ! mid)) (width (bs ! mid)) = Some (start (bs ! mid) + width (bs ! mid))"
      using assms(2) by simp
    have "bisect start width bs x left mid \<noteq> None" "bisect start width bs x (mid + 1) right \<noteq> None"
      using less.hyps [of mid left] less.hyps [of right "mid + 1"] m True less.prems by auto
    then show ?thesis using True
      by (simp add: bisect.simps [of start width bs x left right] mid_def [symmetric] Let_def e del: checked_add_Some)
  qed (simp add: bisect.simps)
qed

lemma bisect_miss:
  assumes t: "tiles start width lo bs hi" and h: "hi \<le> u64_max"
  shows "right \<le> length bs \<Longrightarrow> bisect start width bs x left right = Some None \<Longrightarrow>
    left \<le> i \<Longrightarrow> i < right \<Longrightarrow> \<not> (start (bs ! i) \<le> x \<and> x < start (bs ! i) + width (bs ! i))"
proof (induction "right - left" arbitrary: left right rule: less_induct)
  case less
  define mid where "mid = (left + right) div 2"
  have lr: "left < right" using less.prems by simp
  then have m: "left \<le> mid" "mid < right" by (auto simp: mid_def)
  then have e: "checked_add (start (bs ! mid)) (width (bs ! mid)) = Some (start (bs ! mid) + width (bs ! mid))"
    using tiles_end_le(2) [OF t, of mid] less.prems h by simp
  note unfolded = bisect.simps [of start width bs x left right, folded mid_def]
  show ?case
  proof (cases "x < start (bs ! mid)")
    case True
    then have b: "bisect start width bs x left mid = Some None"
      using less.prems(2) lr e by (simp add: unfolded Let_def del: checked_add_Some)
    show ?thesis
    proof (cases "i < mid")
      case True
      show ?thesis by (rule less.hyps [of mid left]) (use m less.prems b True lr in auto)
    next
      case False
      then have "start (bs ! mid) \<le> start (bs ! i)"
        using tiles_before [OF t, of mid i] less.prems by (cases "i = mid") auto
      then show ?thesis using True by simp
    qed
  next
    case ge: False
    then have ge2: "start (bs ! mid) + width (bs ! mid) \<le> x"
      and b: "bisect start width bs x (mid + 1) right = Some None"
      using less.prems(2) lr e by (auto simp: unfolded Let_def simp del: checked_add_Some split: if_splits)
    show ?thesis
    proof (cases "mid < i")
      case True
      show ?thesis by (rule less.hyps [of right "mid + 1"]) (use m less.prems b True lr in auto)
    next
      case False
      then have "start (bs ! i) + width (bs ! i) \<le> start (bs ! mid) + width (bs ! mid)"
        using tiles_before [OF t, of i mid] m less.prems by (cases "i = mid") auto
      then show ?thesis using ge2 by simp
    qed
  qed
qed

section \<open>The contract of an interval search\<close>

locale interval_search =
  fixes start :: "'b \<Rightarrow> nat" and width :: "'b \<Rightarrow> nat"
    and search :: "'b list \<Rightarrow> nat \<Rightarrow> nat option"
  assumes hit: "search bs x = Some i \<Longrightarrow>
      i < length bs \<and> start (bs ! i) \<le> x \<and> x < start (bs ! i) + width (bs ! i)"
    and miss: "tiles start width lo bs hi \<Longrightarrow> hi \<le> u64_max \<Longrightarrow> search bs x = None \<Longrightarrow>
      i < length bs \<Longrightarrow> \<not> (start (bs ! i) \<le> x \<and> x < start (bs ! i) + width (bs ! i))"
begin

lemma found:
  assumes "tiles start width lo bs hi" and "hi \<le> u64_max" and "lo \<le> x" and "x < hi"
  obtains i where "search bs x = Some i" and "i < length bs" and "start (bs ! i) \<le> x"
    and "x < start (bs ! i) + width (bs ! i)"
proof -
  obtain j where j: "j < length bs" "start (bs ! j) \<le> x \<and> x < start (bs ! j) + width (bs ! j)"
    using tiles_cover [OF assms(1,3,4)] by blast
  then obtain i where "search bs x = Some i" using miss [OF assms(1,2)] by (cases "search bs x") auto
  then show ?thesis using that hit by blast
qed

lemma search_iff:
  assumes t: "tiles start width 0 bs hi" and "hi \<le> u64_max"
  shows "search bs x = Some i \<longleftrightarrow>
    i < length bs \<and> start (bs ! i) \<le> x \<and> x < start (bs ! i) + width (bs ! i)" (is "_ \<longleftrightarrow> ?in i")
proof
  assume "search bs x = Some i"
  then show "?in i" by (rule hit)
next
  assume i: "?in i"
  then obtain k where k: "search bs x = Some k" using miss [OF assms] by (cases "search bs x") auto
  then have "k = i" using tiles_unique [OF t] hit [OF k] i by blast
  with k show "search bs x = Some i" by simp
qed

lemma none_iff:
  assumes t: "tiles start width 0 bs hi" and "hi \<le> u64_max"
  shows "search bs x = None \<longleftrightarrow> hi \<le> x"
proof
  assume "search bs x = None"
  then show "hi \<le> x" using found [OF assms, of x] by (metis not_less option.distinct(1) zero_le)
next
  assume "hi \<le> x"
  then show "search bs x = None"
    using search_iff [OF assms] tiles_end_le [OF t] by (metis leD le_trans not_None_eq)
qed

end

text \<open>Compressed blocks laid out one after another: the running offset of the parsers.\<close>

lemma tiles_step:
  "tiles start width lo xs mid \<Longrightarrow> start b = mid \<Longrightarrow> hi = mid + width b \<Longrightarrow>
   tiles start width lo (xs @ [b]) hi"
  by (auto simp: tiles_append)

section \<open>Contents of a table\<close>

text \<open>When every interval holds a list of its width, positions in the table are positions in the
  concatenation.\<close>

lemma length_concat_take:
  assumes "length rows = length bs" and "\<And>i. i < length bs \<Longrightarrow> length (rows ! i) = width (bs ! i)"
  shows "i \<le> length bs \<Longrightarrow> length (concat (take i rows)) = sum_list (map width (take i bs))"
proof (induction i)
  case (Suc i)
  then show ?case using assms by (simp add: take_Suc_conv_app_nth)
qed simp

lemma tiles_concat:
  assumes t: "tiles start width 0 bs hi" and len: "length rows = length bs"
    and w: "\<And>i. i < length bs \<Longrightarrow> length (rows ! i) = width (bs ! i)"
  shows "length (concat rows) = hi"
    and "i < length bs \<Longrightarrow> drop (start (bs ! i)) (concat rows) = rows ! i @ concat (drop (Suc i) rows)"
    and "i < length bs \<Longrightarrow> j < width (bs ! i) \<Longrightarrow> concat rows ! (start (bs ! i) + j) = rows ! i ! j"
proof -
  show "length (concat rows) = hi"
    using length_concat_take [OF len w, of "length bs"] tiles_total [OF t] len by simp
  have split: "concat rows = concat (take i rows) @ rows ! i @ concat (drop (Suc i) rows)"
    and st: "start (bs ! i) = length (concat (take i rows))" if "i < length bs" for i
  proof -
    have "concat rows = concat (take i rows @ rows ! i # drop (Suc i) rows)"
      using id_take_nth_drop [of i rows] that len by simp
    then show "concat rows = concat (take i rows) @ rows ! i @ concat (drop (Suc i) rows)" by simp
    show "start (bs ! i) = length (concat (take i rows))"
      using tiles_nth [OF t that] length_concat_take [OF len w, of i] that by simp
  qed
  show "i < length bs \<Longrightarrow> drop (start (bs ! i)) (concat rows) = rows ! i @ concat (drop (Suc i) rows)"
    using split [of i] st [of i] by simp
  show "i < length bs \<Longrightarrow> j < width (bs ! i) \<Longrightarrow> concat rows ! (start (bs ! i) + j) = rows ! i ! j"
    using split [of i] st [of i] w by (simp add: nth_append)
qed

end
