(* ===== verification/Descriptors.thy ===== *)
theory Descriptors
  imports Types Encoding Source Tiling
begin

text \<open>
  The version-neutral layout (\<^verbatim>\<open>src/src/format/common/descriptors.rs\<close>): section ranges, keyword
  and record block descriptors, the row-decoder contract, the retained memory and
  \<open>ValidatedLayout::verify\<close>. The lemmas characterise \<open>verify\<close> (sections adjoin, keyword
  blocks tile the ordinals, record blocks tile the decoded stream) and show that
  \<open>find_record_block\<close> is an exact search in a verified layout.
\<close>

section \<open>Sections\<close>

record section_range =
  sr_offset :: nat
  sr_len :: nat

definition section_range_new :: "nat \<Rightarrow> nat \<Rightarrow> section_range" where
  "section_range_new offset len = \<lparr>sr_offset = offset, sr_len = len\<rparr>"

definition section_end :: "section_range \<Rightarrow> nat result" where
  "section_end s = ok_or (checked_add (sr_offset s) (sr_len s)) (InvalidFormat ''section range end overflow'')"

record section_ranges =
  sec_header :: section_range
  sec_keyword_header :: section_range
  sec_keyword_index :: section_range
  sec_keyword_blocks :: section_range
  sec_record_header :: section_range
  sec_record_index :: section_range
  sec_record_blocks :: section_range

definition ordered_sections :: "section_ranges \<Rightarrow> (string \<times> section_range) list" where
  "ordered_sections s =
     [(''header'', sec_header s), (''keyword header'', sec_keyword_header s),
      (''keyword index'', sec_keyword_index s), (''keyword blocks'', sec_keyword_blocks s),
      (''record header'', sec_record_header s), (''record index'', sec_record_index s),
      (''record blocks'', sec_record_blocks s)]"

fun verify_sections :: "string \<Rightarrow> nat \<Rightarrow> (string \<times> section_range) list \<Rightarrow> unit result" where
  "verify_sections expected cursor [] = Inr ()"
| "verify_sections expected cursor ((name, sec) # secs) =
     (if sr_offset sec \<noteq> cursor
      then Inl (InvalidData (name @ '' section starts at '' @ dec (sr_offset sec) @ '' but '' @ expected @
                  '' ended at '' @ dec cursor))
      else and_then (section_end sec) (\<lambda>cursor'. verify_sections name cursor' secs))"

definition verify_contiguous :: "section_ranges \<Rightarrow> unit result" where
  "verify_contiguous s = verify_sections ''header'' (sr_offset (sec_header s)) (ordered_sections s)"

section \<open>Blocks\<close>

record key_block_descriptor =
  kb_entry_count :: nat
  kb_entry_start_index :: nat
  kb_first_key :: rstring
  kb_last_key :: rstring
  kb_comp_offset :: nat
  kb_comp_size :: nat
  kb_decomp_size :: nat

record record_block_descriptor =
  rb_comp_offset :: nat
  rb_comp_size :: nat
  rb_decomp_offset :: nat
  rb_decomp_size :: nat

text \<open>\<open>mem::size_of\<close> on the modelled host: five \<open>u64\<close> and two \<open>String\<close>s of three
  words each; four \<open>u64\<close>; a \<open>String\<close> and a \<open>u64\<close>.\<close>

definition size_of_key_block_descriptor :: nat where
  "size_of_key_block_descriptor = 88"

definition size_of_record_block_descriptor :: nat where
  "size_of_record_block_descriptor = 32"

definition size_of_decoded_key_row :: nat where
  "size_of_decoded_key_row = 32"

lemmas layout_sizes = size_of_key_block_descriptor_def size_of_record_block_descriptor_def
  size_of_decoded_key_row_def

definition find_record_block :: "record_block_descriptor list \<Rightarrow> nat \<Rightarrow> nat option" where
  "find_record_block blocks record_offset =
     (case bisect rb_decomp_offset rb_decomp_size blocks record_offset 0 (length blocks) of
        None \<Rightarrow> None
      | Some r \<Rightarrow> r)"

record decoded_key_row =
  row_key :: rstring
  row_record_start :: nat

record key_row_context =
  krc_encoding :: text_encoding
  krc_expected_entries :: nat
  krc_total_decoded_record_len :: nat

text \<open>A function pointer chosen at open; the crates it may reach are an argument of the model.\<close>

type_synonym decode_key_rows = "externals \<Rightarrow> bytes \<Rightarrow> key_row_context \<Rightarrow> decoded_key_row list result"

section \<open>The validated layout\<close>

record retained_budget =
  ret_header :: nat
  ret_key_metadata :: nat
  ret_record_metadata :: nat

definition metadata_bytes :: "retained_budget \<Rightarrow> nat result" where
  "metadata_bytes r =
     ok_or (Option.bind (checked_add (ret_header r) (ret_key_metadata r))
              (\<lambda>n. checked_add n (ret_record_metadata r)))
       (InvalidFormat ''metadata memory accounting overflow'')"

record validated_layout =
  vl_header :: header
  vl_key_encoding :: text_encoding
  vl_record_encoding :: "text_encoding option"
  vl_sections :: section_ranges
  vl_total_entries :: nat
  vl_total_decoded_record_len :: nat
  vl_key_blocks :: "key_block_descriptor list"
  vl_record_blocks :: "record_block_descriptor list"
  vl_wire :: decode_key_rows
  vl_retained :: retained_budget

fun verify_key_blocks :: "nat \<Rightarrow> key_block_descriptor list \<Rightarrow> nat result" where
  "verify_key_blocks expected_start [] = Inr expected_start"
| "verify_key_blocks expected_start (b # bs) =
     (if kb_entry_start_index b \<noteq> expected_start
      then Inl (InvalidData (''key block starts at ordinal '' @ dec (kb_entry_start_index b) @
                  '' but '' @ dec expected_start @ '' was expected''))
      else and_then (ok_or (checked_add (kb_entry_start_index b) (kb_entry_count b))
                       (InvalidFormat ''keyword entry count overflow'')) (\<lambda>next_start.
           verify_key_blocks next_start bs))"

fun verify_record_blocks :: "nat \<Rightarrow> record_block_descriptor list \<Rightarrow> nat result" where
  "verify_record_blocks expected_offset [] = Inr expected_offset"
| "verify_record_blocks expected_offset (b # bs) =
     (if rb_decomp_offset b \<noteq> expected_offset
      then Inl (InvalidData (''record block starts at '' @ dec (rb_decomp_offset b) @
                  '' but '' @ dec expected_offset @ '' was expected''))
      else and_then (ok_or (checked_add (rb_decomp_offset b) (rb_decomp_size b))
                       (InvalidFormat ''record block offset overflow'')) (\<lambda>next_offset.
           verify_record_blocks next_offset bs))"

definition verify :: "validated_layout \<Rightarrow> unit result" where
  "verify l =
     and_then (verify_contiguous (vl_sections l)) (\<lambda>_.
     and_then (verify_key_blocks 0 (vl_key_blocks l)) (\<lambda>expected_start.
     if expected_start \<noteq> vl_total_entries l
     then Inl (InvalidData (''key blocks cover '' @ dec expected_start @ '' entries but '' @
                 dec (vl_total_entries l) @ '' were declared''))
     else
     and_then (verify_record_blocks 0 (vl_record_blocks l)) (\<lambda>expected_offset.
     if expected_offset \<noteq> vl_total_decoded_record_len l
     then Inl (InvalidData (''record blocks cover '' @ dec expected_offset @ '' bytes but '' @
                 dec (vl_total_decoded_record_len l) @ '' were declared''))
     else Inr ())))"

section \<open>What verification establishes\<close>

text \<open>The seven sections adjoin, from the header on.\<close>

definition section_bytes_end :: "section_range \<Rightarrow> nat" where
  "section_bytes_end s = sr_offset s + sr_len s"

definition sections_adjoin :: "section_ranges \<Rightarrow> bool" where
  "sections_adjoin s \<longleftrightarrow>
     sr_offset (sec_keyword_header s) = section_bytes_end (sec_header s) \<and>
     sr_offset (sec_keyword_index s) = section_bytes_end (sec_keyword_header s) \<and>
     sr_offset (sec_keyword_blocks s) = section_bytes_end (sec_keyword_index s) \<and>
     sr_offset (sec_record_header s) = section_bytes_end (sec_keyword_blocks s) \<and>
     sr_offset (sec_record_index s) = section_bytes_end (sec_record_header s) \<and>
     sr_offset (sec_record_blocks s) = section_bytes_end (sec_record_index s) \<and>
     section_bytes_end (sec_record_blocks s) \<le> u64_max"

lemma section_range_new_simps [simp]:
  "sr_offset (section_range_new a n) = a" "sr_len (section_range_new a n) = n"
  "section_bytes_end (section_range_new a n) = a + n"
  by (simp_all add: section_range_new_def section_bytes_end_def)

lemma section_end_Inr [simp]:
  "section_end s = Inr e \<longleftrightarrow> e = section_bytes_end s \<and> section_bytes_end s \<le> u64_max"
  by (simp add: section_end_def section_bytes_end_def)

lemma verify_sections_iff:
  "cursor \<le> u64_max \<Longrightarrow> verify_sections expected cursor secs = Inr () \<longleftrightarrow>
   (\<exists>hi \<le> u64_max. tiles (sr_offset \<circ> snd) (sr_len \<circ> snd) cursor secs hi)"
proof (induction expected cursor secs rule: verify_sections.induct)
  case (2 expected cursor name sec secs)
  show ?case
  proof (cases "sr_offset sec = cursor \<and> section_bytes_end sec \<le> u64_max")
    case True
    then show ?thesis using 2 by (simp add: and_then_Inr section_bytes_end_def)
  next
    case False
    then have "verify_sections expected cursor ((name, sec) # secs) \<noteq> Inr ()"
      by (auto simp: and_then_Inr)
    moreover have "\<not> tiles (sr_offset \<circ> snd) (sr_len \<circ> snd) cursor ((name, sec) # secs) hi"
      if "hi \<le> u64_max" for hi
      using False that by (auto simp: section_bytes_end_def dest!: tiles_le)
    ultimately show ?thesis by blast
  qed
qed auto

lemma verify_contiguous_iff: "verify_contiguous s = Inr () \<longleftrightarrow> sections_adjoin s"
proof (cases "sr_offset (sec_header s) \<le> u64_max")
  case True
  have "verify_contiguous s = Inr () \<longleftrightarrow>
      (\<exists>hi \<le> u64_max. tiles (sr_offset \<circ> snd) (sr_len \<circ> snd) (sr_offset (sec_header s)) (ordered_sections s) hi)"
    unfolding verify_contiguous_def by (rule verify_sections_iff [OF True])
  then show ?thesis
    by (auto simp: ordered_sections_def sections_adjoin_def section_bytes_end_def)
next
  case False
  then have "section_bytes_end (sec_header s) > u64_max" by (simp add: section_bytes_end_def)
  then have "\<not> sections_adjoin s" and "verify_contiguous s \<noteq> Inr ()"
    by (auto simp: sections_adjoin_def verify_contiguous_def ordered_sections_def and_then_Inr
        section_bytes_end_def simp del: verify_sections.simps(1))
  then show ?thesis by blast
qed

lemma verify_key_blocks_iff:
  "lo \<le> u64_max \<Longrightarrow> verify_key_blocks lo bs = Inr hi \<longleftrightarrow>
     tiles kb_entry_start_index kb_entry_count lo bs hi \<and> hi \<le> u64_max"
proof (induction lo bs rule: verify_key_blocks.induct)
  case (2 lo b bs)
  show ?case
  proof (cases "kb_entry_start_index b = lo \<and> lo + kb_entry_count b \<le> u64_max")
    case True
    then show ?thesis using 2 by (auto simp: and_then_Inr)
  next
    case False
    then show ?thesis by (auto simp: and_then_Inr dest: tiles_le)
  qed
qed auto

lemma verify_record_blocks_iff:
  "lo \<le> u64_max \<Longrightarrow> verify_record_blocks lo bs = Inr hi \<longleftrightarrow>
     tiles rb_decomp_offset rb_decomp_size lo bs hi \<and> hi \<le> u64_max"
proof (induction lo bs rule: verify_record_blocks.induct)
  case (2 lo b bs)
  show ?case
  proof (cases "rb_decomp_offset b = lo \<and> lo + rb_decomp_size b \<le> u64_max")
    case True
    then show ?thesis using 2 by (auto simp: and_then_Inr)
  next
    case False
    then show ?thesis by (auto simp: and_then_Inr dest: tiles_le)
  qed
qed auto

definition layout_ok :: "validated_layout \<Rightarrow> bool" where
  "layout_ok l \<longleftrightarrow> sections_adjoin (vl_sections l) \<and>
     tiles kb_entry_start_index kb_entry_count 0 (vl_key_blocks l) (vl_total_entries l) \<and>
     vl_total_entries l \<le> u64_max \<and>
     tiles rb_decomp_offset rb_decomp_size 0 (vl_record_blocks l) (vl_total_decoded_record_len l) \<and>
     vl_total_decoded_record_len l \<le> u64_max"

lemma verify_iff: "verify l = Inr () \<longleftrightarrow> layout_ok l"
  by (auto simp: verify_def layout_ok_def and_then_Inr verify_contiguous_iff verify_key_blocks_iff
      verify_record_blocks_iff)

interpretation record_table: interval_search rb_decomp_offset rb_decomp_size find_record_block
proof
  fix bs x i
  assume "find_record_block bs x = Some i"
  then have "bisect rb_decomp_offset rb_decomp_size bs x 0 (length bs) = Some (Some i)"
    by (auto simp: find_record_block_def split: option.splits)
  then show "i < length bs \<and> rb_decomp_offset (bs ! i) \<le> x \<and>
      x < rb_decomp_offset (bs ! i) + rb_decomp_size (bs ! i)"
    by (rule bisect_hit) simp
next
  fix lo bs hi x i
  assume t: "tiles rb_decomp_offset rb_decomp_size lo bs hi" and h: "hi \<le> u64_max"
    and "find_record_block bs x = None" and i: "i < length bs"
  then have "bisect rb_decomp_offset rb_decomp_size bs x 0 (length bs) = Some None"
    using bisect_total [OF t h, of "length bs" x 0]
    by (auto simp: find_record_block_def split: option.splits)
  from bisect_miss [OF t h _ this _ i]
  show "\<not> (rb_decomp_offset (bs ! i) \<le> x \<and> x < rb_decomp_offset (bs ! i) + rb_decomp_size (bs ! i))"
    by simp
qed

end
