(* ===== verification/Checksum.thy ===== *)
theory Checksum
  imports Prelude
begin

text \<open>
  ADLER32 with deferred reduction (\<^verbatim>\<open>src/src/format/common/checksum.rs\<close>). The code adds
  a block of 5552 bytes into two \<open>u32\<close> accumulators before it reduces them modulo 65521. The
  lemmas show that no accumulator overflows inside a block and that the result is the closed form
  of the RFC 1950 checksum.
\<close>

definition MOD_ADLER :: u32 where
  "MOD_ADLER = 65521"

definition REDUCTION_BLOCK_BYTES :: nat where
  "REDUCTION_BLOCK_BYTES = 5552"

text \<open>\<open>slice::chunks\<close>.\<close>

function chunks :: "nat \<Rightarrow> 'a list \<Rightarrow> 'a list list" where
  "chunks n xs = (if n = 0 \<or> xs = [] then [] else take n xs # chunks n (drop n xs))"
  by pat_completeness auto
termination
  by (relation "measure (\<lambda>(n, xs). length xs)") auto

declare chunks.simps [simp del]

definition adler_byte :: "u32 \<times> u32 \<Rightarrow> u8 \<Rightarrow> u32 \<times> u32" where
  "adler_byte s byte = (let a = fst s + ucast byte; b = snd s + a in (a, b))"

definition adler_block :: "u32 \<times> u32 \<Rightarrow> bytes \<Rightarrow> u32 \<times> u32" where
  "adler_block s block =
     (let (a, b) = foldl adler_byte s block in (a mod MOD_ADLER, b mod MOD_ADLER))"

definition adler32 :: "bytes \<Rightarrow> u32" where
  "adler32 bs =
     (let (a, b) = foldl adler_block (1, 0) (chunks REDUCTION_BLOCK_BYTES bs)
      in or (push_bit 16 b) a)"

definition verify_adler32 :: "string \<Rightarrow> bytes \<Rightarrow> u32 \<Rightarrow> unit result" where
  "verify_adler32 context bs expected =
     (let actual = adler32 bs
      in if actual = expected then Inr () else Inl (ChecksumMismatch context expected actual))"

lemma adler_byte_sel [simp]:
  "fst (adler_byte s b) = fst s + ucast b" "snd (adler_byte s b) = snd s + (fst s + ucast b)"
  by (simp_all add: adler_byte_def Let_def)

lemma verify_adler32_pass [simp]: "verify_adler32 ctx bs (adler32 bs) = Inr ()"
  by (simp add: verify_adler32_def)

lemma verify_adler32_Inr [simp]: "verify_adler32 ctx bs w = Inr u \<longleftrightarrow> adler32 bs = w"
  by (auto simp: verify_adler32_def Let_def)

section \<open>Chunks\<close>

lemma concat_chunks: "0 < n \<Longrightarrow> concat (chunks n xs) = xs"
proof (induction n xs rule: chunks.induct)
  case (1 n xs)
  then show ?case by (subst chunks.simps) auto
qed

lemma length_in_chunks: "ys \<in> set (chunks n xs) \<Longrightarrow> length ys \<le> n"
proof (induction n xs rule: chunks.induct)
  case (1 n xs)
  then show ?case by (subst (asm) chunks.simps) (auto split: if_splits)
qed

section \<open>The closed form\<close>

text \<open>\<open>weighted bs\<close> is \<open>n * bs[0] + (n - 1) * bs[1] + \<dots> + bs[n - 1]\<close>.\<close>

fun weighted :: "bytes \<Rightarrow> nat" where
  "weighted [] = 0"
| "weighted (b # bs) = Suc (length bs) * unat b + weighted bs"

definition byte_sum :: "bytes \<Rightarrow> nat" where
  "byte_sum bs = sum_list (map unat bs)"

lemma byte_sum_simps [simp]:
  "byte_sum [] = 0" "byte_sum (b # bs) = unat b + byte_sum bs"
  "byte_sum (xs @ ys) = byte_sum xs + byte_sum ys"
  by (simp_all add: byte_sum_def)

lemma weighted_append:
  "weighted (xs @ ys) = weighted xs + length ys * byte_sum xs + weighted ys"
  by (induction xs) (simp_all add: algebra_simps)

lemma byte_sum_bound: "byte_sum bs \<le> 255 * length bs"
proof (induction bs)
  case (Cons b bs)
  then show ?case using unat_u8_less [of b] by simp
qed simp

lemma weighted_bound: "2 * weighted bs \<le> 255 * (length bs * Suc (length bs))"
proof (induction bs)
  case (Cons b bs)
  have "unat b \<le> 255" using unat_u8_less [of b] by simp
  then have "Suc (length bs) * unat b \<le> Suc (length bs) * 255" by (rule mult_le_mono2)
  with Cons show ?case by (simp add: algebra_simps)
qed simp

text \<open>Inside a block the word accumulators equal the exact sums as long as these fit.\<close>

lemma adler_fold_exact:
  assumes "unat (fst s) + byte_sum bs < 2 ^ 32"
    and "unat (snd s) + length bs * unat (fst s) + weighted bs < 2 ^ 32"
  shows "unat (fst (foldl adler_byte s bs)) = unat (fst s) + byte_sum bs"
    and "unat (snd (foldl adler_byte s bs)) = unat (snd s) + length bs * unat (fst s) + weighted bs"
  using assms
proof (induction bs rule: rev_induct)
  case Nil
  case 1 then show ?case by simp
  case 2 then show ?case by simp
next
  case (snoc b bs)
  let ?s = "foldl adler_byte s bs"
  have w: "weighted (bs @ [b]) = weighted bs + byte_sum bs + unat b"
    by (simp add: weighted_append)
  have ub: "unat (ucast b :: u32) = unat b"
    using unat_u8_less [of b] by (simp add: unsigned_ucast_eq take_bit_nat_eq_self)
  { assume p: "unat (fst s) + byte_sum (bs @ [b]) < 2 ^ 32"
      "unat (snd s) + length (bs @ [b]) * unat (fst s) + weighted (bs @ [b]) < 2 ^ 32"
    have i1: "unat (fst ?s) = unat (fst s) + byte_sum bs"
      and i2: "unat (snd ?s) = unat (snd s) + length bs * unat (fst s) + weighted bs"
      using snoc p w by simp_all
    have a: "unat (fst ?s + ucast b) = unat (fst s) + byte_sum (bs @ [b])"
      using i1 ub p(1) by (simp add: unat_word_ariths)
    have "unat (snd ?s + (fst ?s + ucast b)) =
        unat (snd s) + length (bs @ [b]) * unat (fst s) + weighted (bs @ [b])"
      using i2 a p(2) w by (simp add: unat_word_ariths(1) [of "snd ?s"])
    note a this }
  note step = this
  case 1 then show ?case using step(1) by simp
  case 2 then show ?case using step(2) by simp
qed

lemma block_fits:
  assumes "length bs \<le> 5552" and "a < 65521" and "b < 65521"
  shows "a + byte_sum bs < 2 ^ 32" and "b + length bs * a + weighted bs < 2 ^ 32"
proof -
  show "a + byte_sum bs < 2 ^ 32" using byte_sum_bound [of bs] assms by simp
  have "length bs * Suc (length bs) \<le> 5552 * 5553" using assms(1) by (intro mult_le_mono) simp_all
  then have "2 * weighted bs \<le> 255 * (5552 * 5553)"
    using weighted_bound [of bs] by linarith
  moreover have "length bs * a \<le> 5552 * 65520" using assms by (intro mult_le_mono) simp_all
  ultimately show "b + length bs * a + weighted bs < 2 ^ 32" using assms(3) by simp
qed

lemma adler_block_exact:
  assumes "length bs \<le> 5552" and "unat (fst s) < 65521" and "unat (snd s) < 65521"
  shows "unat (fst (adler_block s bs)) = (unat (fst s) + byte_sum bs) mod 65521"
    and "unat (snd (adler_block s bs)) = (unat (snd s) + length bs * unat (fst s) + weighted bs) mod 65521"
  using adler_fold_exact [OF block_fits [OF assms]]
  by (simp_all add: adler_block_def MOD_ADLER_def case_prod_beta unat_mod)

lemma adler_blocks_exact:
  assumes "\<forall>bs \<in> set bss. length bs \<le> 5552" and "unat (fst s) < 65521" and "unat (snd s) < 65521"
  shows "unat (fst (foldl adler_block s bss)) = (unat (fst s) + byte_sum (concat bss)) mod 65521 \<and>
    unat (snd (foldl adler_block s bss)) =
      (unat (snd s) + length (concat bss) * unat (fst s) + weighted (concat bss)) mod 65521"
  using assms
proof (induction bss arbitrary: s)
  case Nil
  then show ?case by simp
next
  case (Cons bs bss)
  let ?s = "adler_block s bs" and ?r = "concat bss"
  have len: "length bs \<le> 5552" using Cons.prems(1) by simp
  note e = adler_block_exact [OF len Cons.prems(2,3)]
  have "unat (fst ?s) < 65521" "unat (snd ?s) < 65521" using e by simp_all
  from Cons.IH [OF _ this] Cons.prems(1)
  have ih1: "unat (fst (foldl adler_block ?s bss)) = (unat (fst ?s) + byte_sum ?r) mod 65521"
    and ih2: "unat (snd (foldl adler_block ?s bss)) =
      (unat (snd ?s) + length ?r * unat (fst ?s) + weighted ?r) mod 65521" by simp_all
  have "(unat (fst ?s) + byte_sum ?r) mod 65521 = (unat (fst s) + byte_sum (bs @ ?r)) mod 65521"
    using e(1) by (simp add: mod_simps add.assoc)
  moreover have "(unat (snd ?s) + length ?r * unat (fst ?s) + weighted ?r) mod 65521 =
      (unat (snd s) + length bs * unat (fst s) + weighted bs
        + length ?r * (unat (fst s) + byte_sum bs) + weighted ?r) mod 65521"
    unfolding e by (metis (no_types, lifting) mod_add_eq mod_mult_right_eq mod_mod_trivial)
  moreover have "unat (snd s) + length bs * unat (fst s) + weighted bs
        + length ?r * (unat (fst s) + byte_sum bs) + weighted ?r =
      unat (snd s) + length (bs @ ?r) * unat (fst s) + weighted (bs @ ?r)"
    by (simp add: weighted_append algebra_simps)
  ultimately show ?case using ih1 ih2 by simp
qed

lemma or_push16:
  assumes "unat a < 65536" and "unat b < 65536"
  shows "unat (or (push_bit 16 b) a :: u32) = unat b * 65536 + unat a"
proof -
  have a: "take_bit 16 (unat a) = unat a" using assms(1) by (simp add: take_bit_nat_eq_self)
  have "push_bit 16 (unat b) = unat b * 65536" by (simp add: push_bit_eq_mult)
  moreover have "unat b * 65536 < 4294967296" using assms(2) by simp
  ultimately have pb: "unat (push_bit 16 b) = push_bit 16 (unat b)"
    by (simp add: unsigned_push_bit_eq take_bit_nat_eq_self)
  have "push_bit 16 (unat b) + take_bit 16 (unat a) = or (push_bit 16 (unat b)) (take_bit 16 (unat a))"
    by (rule disjunctive_add_eq_or) (auto simp: bit_eq_iff bit_simps)
  then show ?thesis using a pb \<open>push_bit 16 (unat b) = unat b * 65536\<close>
    by (simp add: unsigned_or_eq)
qed

theorem adler32_closed_form:
  "unat (adler32 bs) =
     ((length bs + weighted bs) mod 65521) * 65536 + (1 + byte_sum bs) mod 65521"
proof -
  let ?cs = "chunks REDUCTION_BLOCK_BYTES bs"
  have c: "concat ?cs = bs" by (rule concat_chunks) (simp add: REDUCTION_BLOCK_BYTES_def)
  have l: "\<forall>ys \<in> set ?cs. length ys \<le> 5552"
    using length_in_chunks by (fastforce simp: REDUCTION_BLOCK_BYTES_def)
  define s where "s = foldl adler_block (1, 0) ?cs"
  have "unat (fst s) = (1 + byte_sum bs) mod 65521 \<and> unat (snd s) = (length bs + weighted bs) mod 65521"
    using adler_blocks_exact [OF l, of "(1, 0)"] c by (simp add: s_def)
  moreover from this have "unat (fst s) < 65536" "unat (snd s) < 65536"
    by (auto intro: less_trans [OF mod_less_divisor])
  ultimately show ?thesis
    using or_push16 [of "fst s" "snd s"] by (simp add: adler32_def s_def [symmetric] case_prod_beta)
qed

end
