(* ===== verification/Header.thy ===== *)
theory Header
  imports Descriptors Cursor Checksum
begin

text \<open>
  The top-level header (\<^verbatim>\<open>src/src/format/common/header.rs\<close>): its length prefix and
  checksum, the single XML tag it holds, entity decoding, and the resolution of known attributes.
  The parser of the source walks byte indices of a UTF-8 string and stops only at ASCII delimiters;
  the model walks the same text as scalar values, an index being the text that remains. Copies of
  header text are the text itself.

  The lemmas give the round trip of entity escaping and of a printed tag, characterise alias
  resolution, and fix the section geometry a parsed header reports.
\<close>

section \<open>Text scanning\<close>

text \<open>\<open>u8::is_ascii_whitespace\<close>: tab, line feed, form feed, carriage return, space.\<close>

definition is_ascii_whitespace :: "nat \<Rightarrow> bool" where
  "is_ascii_whitespace c \<longleftrightarrow> c = 9 \<or> c = 10 \<or> c = 12 \<or> c = 13 \<or> c = 32"

definition skip_ascii_whitespace :: "rstring \<Rightarrow> rstring" where
  "skip_ascii_whitespace s = dropWhile is_ascii_whitespace s"

text \<open>\<open>char::to_digit\<close> and the unsigned \<open>from_str_radix\<close>, which accepts a leading plus.\<close>

definition to_digit :: "nat \<Rightarrow> nat \<Rightarrow> nat option" where
  "to_digit radix c =
     (let d = (if 48 \<le> c \<and> c \<le> 57 then c - 48
               else if 97 \<le> c \<and> c \<le> 122 then c - 87
               else if 65 \<le> c \<and> c \<le> 90 then c - 55 else radix)
      in if d < radix then Some d else None)"

fun digits_value :: "nat \<Rightarrow> nat \<Rightarrow> nat \<Rightarrow> rstring \<Rightarrow> nat option" where
  "digits_value radix maximum acc [] = Some acc"
| "digits_value radix maximum acc (c # s) =
     (case to_digit radix c of None \<Rightarrow> None
      | Some d \<Rightarrow> if maximum < acc * radix + d then None else digits_value radix maximum (acc * radix + d) s)"

definition parse_unsigned :: "nat \<Rightarrow> nat \<Rightarrow> rstring \<Rightarrow> nat option" where
  "parse_unsigned radix maximum s =
     (case s of [] \<Rightarrow> None
      | c # digits \<Rightarrow>
          if digits = [] \<and> (c = 43 \<or> c = 45) then None
          else digits_value radix maximum 0 (if c = 43 then digits else s))"

section \<open>Entities\<close>

definition from_codepoint :: "nat option \<Rightarrow> string \<Rightarrow> string \<Rightarrow> nat result" where
  "from_codepoint codepoint bad_number bad_codepoint =
     and_then (ok_or codepoint (InvalidFormat bad_number)) (\<lambda>c.
     if is_scalar c then Inr c else Inl (InvalidFormat bad_codepoint))"

definition entity_char :: "rstring \<Rightarrow> nat result" where
  "entity_char entity =
     (if entity = ascii ''amp'' then Inr 38
      else if entity = ascii ''lt'' then Inr 60
      else if entity = ascii ''gt'' then Inr 62
      else if entity = ascii ''quot'' then Inr 34
      else if entity = ascii ''apos'' then Inr 39
      else if take 2 entity = ascii ''#x'' \<or> take 2 entity = ascii ''#X''
      then from_codepoint (parse_unsigned 16 u32_max (drop 2 entity))
             ''invalid hex xml entity'' ''invalid hex xml codepoint''
      else if take 1 entity = ascii ''#''
      then from_codepoint (parse_unsigned 10 u32_max (drop 1 entity))
             ''invalid decimal xml entity'' ''invalid decimal xml codepoint''
      else Inl (InvalidFormat ''unsupported xml entity''))"

function unescape_xml :: "rstring \<Rightarrow> rstring result" where
  "unescape_xml s =
     (case dropWhile (\<lambda>c. c \<noteq> 38) s of
        [] \<Rightarrow> Inr s
      | _ # after_ampersand \<Rightarrow>
          (case dropWhile (\<lambda>c. c \<noteq> 59) after_ampersand of
             [] \<Rightarrow> Inl (InvalidFormat ''unterminated XML entity'')
           | _ # after_entity \<Rightarrow>
               and_then (entity_char (takeWhile (\<lambda>c. c \<noteq> 59) after_ampersand)) (\<lambda>c.
               and_then (unescape_xml after_entity) (\<lambda>out.
               Inr (takeWhile (\<lambda>c. c \<noteq> 38) s @ c # out)))))"
  by pat_completeness auto
termination
proof (relation "measure length")
  fix s :: rstring and x xs y ys
  assume "dropWhile (\<lambda>c. c \<noteq> 38) s = x # xs" and "dropWhile (\<lambda>c. c \<noteq> 59) xs = y # ys"
  then have "Suc (length xs) \<le> length s" and "Suc (length ys) \<le> length xs"
    by (metis length_Cons length_dropWhile_le)+
  then show "(ys, s) \<in> measure length" by simp
qed simp

declare unescape_xml.simps [simp del]

section \<open>The tag\<close>

definition tag_char :: "nat \<Rightarrow> bool" where
  "tag_char c \<longleftrightarrow> \<not> is_ascii_whitespace c \<and> c \<noteq> 47 \<and> c \<noteq> 62"

definition attribute_char :: "nat \<Rightarrow> bool" where
  "attribute_char c \<longleftrightarrow> \<not> is_ascii_whitespace c \<and> c \<noteq> 61 \<and> c \<noteq> 62"

text \<open>One attribute: its name, value and what follows the closing quote.\<close>

definition parse_attribute ::
    "(rstring \<times> rstring) list \<Rightarrow> rstring \<Rightarrow> ((rstring \<times> rstring) \<times> rstring) result" where
  "parse_attribute attrs s =
     (let name = takeWhile attribute_char s in
      if name = [] then Inl (InvalidFormat ''empty header XML attribute name'')
      else if list_ex (\<lambda>(candidate, _). candidate = name) attrs
      then Inl (InvalidData ''duplicate exact header XML attribute'')
      else
        (case skip_ascii_whitespace (dropWhile attribute_char s) of
           [] \<Rightarrow> Inl (InvalidFormat ''expected '=' in header xml attribute'')
         | c # after_equals \<Rightarrow>
             if c \<noteq> 61 then Inl (InvalidFormat ''expected '=' in header xml attribute'')
             else
               (case skip_ascii_whitespace after_equals of
                  [] \<Rightarrow> Inl (InvalidFormat ''expected quoted header xml attribute'')
                | q # quoted \<Rightarrow>
                    if q \<noteq> 34 \<and> q \<noteq> 39 then Inl (InvalidFormat ''expected quoted header xml attribute'')
                    else
                      (case dropWhile (\<lambda>c. c \<noteq> q) quoted of
                         [] \<Rightarrow> Inl (InvalidFormat ''unterminated header xml attribute value'')
                       | _ # after_value \<Rightarrow>
                           and_then (unescape_xml (takeWhile (\<lambda>c. c \<noteq> q) quoted)) (\<lambda>value.
                           and_then (try_reserve_vec 48 (length attrs) 1 ''header attributes'') (\<lambda>_.
                           Inr ((name, value), after_value)))))))"

lemma parse_attribute_shorter:
  "parse_attribute attrs s = Inr (a, t) \<Longrightarrow> length t < length s"
proof -
  assume "parse_attribute attrs s = Inr (a, t)"
  then obtain c1 s1 c2 s2 c3 q where
    e: "skip_ascii_whitespace (dropWhile attribute_char s) = c1 # s1" "skip_ascii_whitespace s1 = c2 # s2"
      "dropWhile (\<lambda>c. c \<noteq> q) s2 = c3 # t"
    by (auto simp: parse_attribute_def Let_def split: list.splits if_splits)
  have "Suc (length s1) \<le> length s"
    using e(1) length_dropWhile_le [of is_ascii_whitespace "dropWhile attribute_char s"]
      length_dropWhile_le [of attribute_char s] by (simp add: skip_ascii_whitespace_def)
  moreover have "Suc (length s2) \<le> length s1"
    using e(2) length_dropWhile_le [of is_ascii_whitespace s1] by (simp add: skip_ascii_whitespace_def)
  moreover have "Suc (length t) \<le> length s2"
    using e(3) length_dropWhile_le [of "\<lambda>c. c \<noteq> q" s2] by simp
  ultimately show ?thesis by simp
qed

text \<open>The attribute loop. It returns the attributes, whether the tag closed itself, and the text
  after the tag.\<close>

function tag_attributes ::
    "limits \<Rightarrow> rstring \<Rightarrow> (rstring \<times> rstring) list \<Rightarrow> ((rstring \<times> rstring) list \<times> bool \<times> rstring) result" where
  "tag_attributes lim s attrs =
     (case skip_ascii_whitespace s of
        [] \<Rightarrow> Inl (InvalidFormat ''unterminated header xml tag'')
      | c # cs \<Rightarrow>
          if c = 47 then
            (if take 1 cs = [62] then Inr (attrs, True, drop 1 cs)
             else Inl (InvalidFormat ''invalid self-closing header tag''))
          else if c = 62 then Inr (attrs, False, cs)
          else if header_attributes lim \<le> length attrs
          then Inl (LimitExceeded ''header_attributes'' (length attrs + 1) (header_attributes lim))
          else (case parse_attribute attrs (c # cs) of
                  Inl e \<Rightarrow> Inl e
                | Inr (attr, after) \<Rightarrow> tag_attributes lim after (attrs @ [attr])))"
  by pat_completeness auto
termination
proof (relation "measure (\<lambda>(_, s, _). length s)")
  fix lim :: limits and s attrs c cs p attr after
  assume s: "skip_ascii_whitespace s = c # cs" and p: "parse_attribute attrs (c # cs) = Inr p"
    and "(attr, after) = p"
  then have "length after < length (c # cs)" using parse_attribute_shorter by metis
  also have "\<dots> \<le> length s"
    using s length_dropWhile_le [of is_ascii_whitespace s] by (simp add: skip_ascii_whitespace_def)
  finally show "((lim, after, attrs @ [attr]), lim, s, attrs) \<in> measure (\<lambda>(_, s, _). length s)" by simp
qed simp

declare tag_attributes.simps [simp del]

definition closing_tag :: "rstring \<Rightarrow> rstring \<Rightarrow> unit result" where
  "closing_tag tag s =
     (if take 2 s \<noteq> [60, 47]
      then Inl (InvalidFormat ''content inside top-level header element is not supported'')
      else
      let stop = (\<lambda>c. \<not> is_ascii_whitespace c \<and> c \<noteq> 62) in
      if takeWhile stop (drop 2 s) \<noteq> tag
      then Inl (InvalidFormat ''mismatched top-level header closing tag'')
      else
        (case skip_ascii_whitespace (dropWhile stop (drop 2 s)) of
           [] \<Rightarrow> Inl (InvalidFormat ''malformed top-level header closing tag'')
         | c # after \<Rightarrow>
             if c \<noteq> 62 then Inl (InvalidFormat ''malformed top-level header closing tag'')
             else if skip_ascii_whitespace after \<noteq> []
             then Inl (InvalidFormat ''trailing content after top-level header element'')
             else Inr ()))"

definition parse_single_tag :: "rstring \<Rightarrow> limits \<Rightarrow> (rstring \<times> (rstring \<times> rstring) list) result" where
  "parse_single_tag xml lim =
     (if take 1 xml \<noteq> [60] then Inl (InvalidFormat (''header xml must start with '<'' @ [CHR 0x27]))
      else
      let tag = takeWhile tag_char (drop 1 xml) in
      if tag = [] then Inl (InvalidFormat ''empty top-level header tag'')
      else
      and_then (tag_attributes lim (dropWhile tag_char (drop 1 xml)) []) (\<lambda>(attrs, self_closing, tail).
      let tail = skip_ascii_whitespace tail in
      if tail \<noteq> [] \<and> self_closing
      then Inl (InvalidFormat ''trailing content after top-level header tag'')
      else if tail \<noteq> [] then and_then (closing_tag tag tail) (\<lambda>_. Inr (tag, attrs))
      else Inr (tag, attrs)))"

section \<open>Known attributes\<close>

text \<open>
  The three loops over aliases of one attribute: names match regardless of ASCII case, every match
  is interpreted, and two matches must agree.
\<close>

fun resolve_aliases ::
    "rstring \<Rightarrow> (rstring \<Rightarrow> 'v result) \<Rightarrow> error \<Rightarrow> 'v option \<Rightarrow> (rstring \<times> rstring) list \<Rightarrow> 'v option result" where
  "resolve_aliases canonical interp conflict found [] = Inr found"
| "resolve_aliases canonical interp conflict found ((name, value) # attrs) =
     (if \<not> eq_ignore_ascii_case name canonical
      then resolve_aliases canonical interp conflict found attrs
      else
      and_then (interp value) (\<lambda>parsed.
      if found \<noteq> None \<and> found \<noteq> Some parsed then Inl conflict
      else resolve_aliases canonical interp conflict (Some parsed) attrs))"

definition conflicting_aliases :: "string \<Rightarrow> error" where
  "conflicting_aliases name = InvalidData (''conflicting aliases for header attribute '' @ name)"

definition known_attribute :: "(rstring \<times> rstring) list \<Rightarrow> string \<Rightarrow> rstring option result" where
  "known_attribute attrs name = resolve_aliases (ascii name) Inr (conflicting_aliases name) None attrs"

definition clone_optional_attribute :: "(rstring \<times> rstring) list \<Rightarrow> string \<Rightarrow> rstring option result" where
  "clone_optional_attribute attrs name =
     and_then (known_attribute attrs name) (\<lambda>v. Inr (if v = Some [] then None else v))"

definition parse_yes_no :: "string \<Rightarrow> rstring \<Rightarrow> bool result" where
  "parse_yes_no name value =
     (if eq_ignore_ascii_case value (ascii ''yes'') then Inr True
      else if eq_ignore_ascii_case value (ascii ''no'') then Inr False
      else Inl (InvalidData (''header attribute '' @ name @ '' must be Yes or No'')))"

definition parse_known_bool :: "(rstring \<times> rstring) list \<Rightarrow> string \<Rightarrow> bool \<Rightarrow> bool result" where
  "parse_known_bool attrs name dflt =
     and_then (resolve_aliases (ascii name) (parse_yes_no name) (conflicting_aliases name) None attrs)
       (\<lambda>found. Inr (case found of None \<Rightarrow> dflt | Some b \<Rightarrow> b))"

definition parse_encryption_value :: "rstring \<Rightarrow> nat result" where
  "parse_encryption_value value =
     and_then
       (if eq_ignore_ascii_case value (ascii ''yes'') then Inr 1
        else if eq_ignore_ascii_case value (ascii ''no'') then Inr 0
        else ok_or (parse_unsigned 10 255 value)
               (InvalidData ''header attribute Encrypted is malformed'')) (\<lambda>bits.
     if 3 < bits
     then Inl (InvalidData (''header attribute Encrypted contains unknown bits 0x'' @ hex2 (word_of_nat bits)))
     else Inr bits)"

definition parse_known_encryption :: "(rstring \<times> rstring) list \<Rightarrow> nat result" where
  "parse_known_encryption attrs =
     and_then (resolve_aliases (ascii ''Encrypted'') parse_encryption_value
                 (conflicting_aliases ''Encrypted'') None attrs)
       (\<lambda>found. Inr (case found of None \<Rightarrow> 0 | Some bits \<Rightarrow> bits))"

section \<open>The header section\<close>

record header_section =
  hs_header :: header
  hs_keyword_section_offset :: nat
  hs_retained_bytes :: nat
  hs_section :: section_range

definition build_header_section ::
    "container_kind \<Rightarrow> nat \<Rightarrow> rstring \<Rightarrow> rstring \<Rightarrow> (rstring \<times> rstring) list \<Rightarrow> nat \<Rightarrow> header_section result" where
  "build_header_section kind xml_len xml tag attrs kept =
     (if \<not> (kind = Mdx \<and> tag = ascii ''Dictionary'' \<or> kind = Mdd \<and> tag = ascii ''Library_Data'')
      then Inl (InvalidFormat ''unexpected top-level header tag'')
      else
      and_then (and_then (known_attribute attrs ''GeneratedByEngineVersion'') (\<lambda>v.
                  ok_or v (InvalidFormat ''missing GeneratedByEngineVersion''))) (\<lambda>generated.
      and_then (and_then (known_attribute attrs ''RequiredEngineVersion'') (\<lambda>v.
                  Inr (case v of Some r \<Rightarrow> r | None \<Rightarrow> generated))) (\<lambda>required.
      and_then (parse_known_encryption attrs) (\<lambda>bits.
      and_then (clone_optional_attribute attrs ''Encoding'') (\<lambda>enc.
      and_then (clone_optional_attribute attrs ''Format'') (\<lambda>fmt.
      and_then (parse_known_bool attrs ''KeyCaseSensitive'' (kind = Mdd)) (\<lambda>case_sensitive.
      and_then (parse_known_bool attrs ''StripKey'' False) (\<lambda>strip.
      and_then (clone_optional_attribute attrs ''RegisterBy'') (\<lambda>regby.
      and_then (clone_optional_attribute attrs ''RegCode'') (\<lambda>code.
      and_then (clone_optional_attribute attrs ''Description'') (\<lambda>desc.
      and_then (clone_optional_attribute attrs ''Title'') (\<lambda>ttl.
      and_then (clone_optional_attribute attrs ''CreationDate'') (\<lambda>date.
      and_then (checked_u64 xml_len ''header XML length'') (\<lambda>xml_len.
      and_then (ok_or (Option.bind (checked_add 4 xml_len) (\<lambda>v. checked_add v 4))
                  (InvalidFormat ''header section offset overflow'')) (\<lambda>keyword_section_offset.
      Inr \<lparr>hs_header =
             \<lparr>raw_xml = xml, tag_name = tag, attributes = attrs,
              generated_by_engine_version = generated, required_engine_version = required,
              encoding_label = enc, hdr_format = fmt, key_case_sensitive = case_sensitive,
              strip_key = strip, encrypted = bits, register_by = regby, reg_code = code,
              description = desc, title = ttl, creation_date = date\<rparr>,
           hs_keyword_section_offset = keyword_section_offset, hs_retained_bytes = kept,
           hs_section = section_range_new 0 keyword_section_offset\<rparr>)))))))))))))))"

text \<open>\<open>size_of::<(String, String)>()\<close> and \<open>size_of::<Header>()\<close>: two strings; five strings or
  vectors, seven optional strings, two booleans and a byte.\<close>

definition size_of_attribute :: nat where
  "size_of_attribute = 48"

definition size_of_header :: nat where
  "size_of_header = 296"

definition header_memory_estimate :: "nat \<Rightarrow> limits \<Rightarrow> nat result" where
  "header_memory_estimate xml_len lim =
     (let possible_attributes = min (header_attributes lim) (xml_len div 4 + 1) in
      ok_or (Option.bind (checked_mul xml_len 8) (\<lambda>bs.
             Option.bind (checked_mul possible_attributes size_of_attribute) (\<lambda>as.
             Option.bind (checked_add bs as) (\<lambda>n. checked_add n size_of_header))))
        (InvalidFormat ''header memory estimate overflow''))"

definition parse_header_bytes_with_limits ::
    "externals \<Rightarrow> bytes \<Rightarrow> container_kind \<Rightarrow> limits \<Rightarrow> checksum_policy \<Rightarrow> header_section mem" where
  "parse_header_bytes_with_limits X bs kind lim policy =
     attempt (read_u32_be (cursor_new bs) ''header length'') (\<lambda>(len_word, cur).
     let xml_len = unat len_word in
     attempt (ensure_u64_limit ''header_xml_bytes'' xml_len (header_xml_bytes lim)) (\<lambda>_.
     if xml_len mod 2 \<noteq> 0
     then lift (Inl (InvalidFormat ''header XML length is not UTF-16LE aligned''))
     else
     attempt (checked_usize xml_len ''header XML length'') (\<lambda>xml_len.
     attempt (header_memory_estimate xml_len lim) (\<lambda>retained_bytes.
     scoped retained_bytes (
     attempt (read_bytes cur xml_len ''header xml'') (\<lambda>(xml_bytes, cur).
     attempt (read_u32_le cur ''header checksum'') (\<lambda>(expected, cur).
     attempt (if policy = Verify then verify_adler32 ''header xml'' xml_bytes expected else Inr ()) (\<lambda>_.
     attempt (decode X Utf16Le xml_bytes ''header xml'') (\<lambda>decoded_xml.
     let xml = trim (trim_matches (\<lambda>c. c = 0) decoded_xml) in
     attempt (parse_single_tag xml lim) (\<lambda>(tag, attrs).
     lift (build_header_section kind xml_len xml tag attrs retained_bytes)))))))))))"

definition parse_header ::
    "externals \<Rightarrow> file_source \<Rightarrow> container_kind \<Rightarrow> limits \<Rightarrow> checksum_policy \<Rightarrow> header_section mem" where
  "parse_header X src kind lim policy =
     scoped 4 (
     attempt (read_exact_at src 0 4 ''header length'') (\<lambda>len_bytes.
     attempt (read_u32_be (cursor_new len_bytes) ''header length'') (\<lambda>(len_word, _).
     let xml_len = unat len_word in
     attempt (ensure_u64_limit ''header_xml_bytes'' xml_len (header_xml_bytes lim)) (\<lambda>_.
     if xml_len mod 2 \<noteq> 0
     then lift (Inl (InvalidFormat ''header XML length is not UTF-16LE aligned''))
     else
     attempt (ok_or (Option.bind (checked_add 4 xml_len) (\<lambda>v. checked_add v 4))
                (InvalidFormat ''header size overflow'')) (\<lambda>total_len.
     attempt (ensure_range src 0 total_len ''header section'') (\<lambda>_.
     attempt (checked_usize total_len ''header section length'') (\<lambda>total_len.
     scoped total_len (
     attempt (read_exact_at src 0 total_len ''header section'') (\<lambda>bs.
     parse_header_bytes_with_limits X bs kind lim policy)))))))))"

section \<open>Entities, escaped and unescaped\<close>

definition escape_char :: "nat \<Rightarrow> rstring" where
  "escape_char c =
     (if c = 38 then ascii ''&amp;'' else if c = 60 then ascii ''&lt;'' else if c = 62 then ascii ''&gt;''
      else if c = 34 then ascii ''&quot;'' else if c = 39 then ascii ''&apos;'' else [c])"

definition escape_xml :: "rstring \<Rightarrow> rstring" where
  "escape_xml s = concat (map escape_char s)"

lemma escape_xml_simps [simp]:
  "escape_xml [] = []" "escape_xml (c # s) = escape_char c @ escape_xml s"
  by (simp_all add: escape_xml_def)

lemma unescape_plain: "38 \<notin> set p \<Longrightarrow> unescape_xml (p @ s) = and_then (unescape_xml s) (\<lambda>out. Inr (p @ out))"
proof -
  assume p: "38 \<notin> set p"
  have d: "dropWhile (\<lambda>c. c \<noteq> 38) (p @ s) = dropWhile (\<lambda>c. c \<noteq> 38) s"
    and t: "takeWhile (\<lambda>c. c \<noteq> 38) (p @ s) = p @ takeWhile (\<lambda>c. c \<noteq> 38) s"
    using p by (induction p) auto
  note unfolded = unescape_xml.simps [of "p @ s"] unescape_xml.simps [of s] d t
  show ?thesis
  proof (cases "dropWhile (\<lambda>c. c \<noteq> 38) s")
    case Nil
    show ?thesis unfolding unfolded Nil by simp
  next
    case amp: (Cons x xs)
    show ?thesis
    proof (cases "dropWhile (\<lambda>c. c \<noteq> 59) xs")
      case Nil
      show ?thesis unfolding unfolded amp list.case Nil by simp
    next
      case (Cons y ys)
      show ?thesis unfolding unfolded amp list.case Cons by (simp add: and_then_assoc)
    qed
  qed
qed

lemma unescape_entity:
  assumes "59 \<notin> set entity"
  shows "unescape_xml (38 # entity @ 59 # s) =
    and_then (entity_char entity) (\<lambda>c. and_then (unescape_xml s) (\<lambda>out. Inr (c # out)))"
proof -
  have "dropWhile (\<lambda>c. c \<noteq> 59) (entity @ 59 # s) = 59 # s" "takeWhile (\<lambda>c. c \<noteq> 59) (entity @ 59 # s) = entity"
    using assms by (induction entity) auto
  then show ?thesis by (simp add: unescape_xml.simps [of "38 # entity @ 59 # s"])
qed

lemma unescape_Nil [simp]: "unescape_xml [] = Inr []"
  by (simp add: unescape_xml.simps)

lemma entity_names:
  "entity_char (ascii ''amp'') = Inr 38" "entity_char (ascii ''lt'') = Inr 60"
  "entity_char (ascii ''gt'') = Inr 62" "entity_char (ascii ''quot'') = Inr 34"
  "entity_char (ascii ''apos'') = Inr 39"
  by (simp_all add: entity_char_def ascii_def)

lemma unescape_named:
  "entity_char (ascii e) = Inr c \<Longrightarrow> 59 \<notin> set (ascii e) \<Longrightarrow>
   unescape_xml (38 # ascii e @ 59 # s) = and_then (unescape_xml s) (\<lambda>out. Inr (c # out))"
  by (simp add: unescape_entity)

lemma escape_char_cases:
  "(\<exists>e. entity_char (ascii e) = Inr c \<and> 59 \<notin> set (ascii e) \<and> escape_char c = 38 # ascii e @ [59]) \<or>
   c \<noteq> 38 \<and> escape_char c = [c]"
proof -
  have "\<exists>e. entity_char (ascii e) = Inr c \<and> 59 \<notin> set (ascii e) \<and> escape_char c = 38 # ascii e @ [59]"
    if "c = 38 \<and> e' = ''amp'' \<or> c = 60 \<and> e' = ''lt'' \<or> c = 62 \<and> e' = ''gt'' \<or> c = 34 \<and> e' = ''quot'' \<or>
      c = 39 \<and> e' = ''apos''" for e'
    using that by (intro exI [of _ e']) (auto simp: entity_names escape_char_def, auto simp: ascii_def)
  then show ?thesis by (auto simp: escape_char_def)
qed

lemma unescape_escape: "unescape_xml (escape_xml s) = Inr s"
proof (induction s)
  case (Cons c s)
  from escape_char_cases [of c] show ?case
  proof
    assume "\<exists>e. entity_char (ascii e) = Inr c \<and> 59 \<notin> set (ascii e) \<and> escape_char c = 38 # ascii e @ [59]"
    then obtain e where e: "entity_char (ascii e) = Inr c" "59 \<notin> set (ascii e)" "escape_char c = 38 # ascii e @ [59]"
      by blast
    then show ?thesis using unescape_named [OF e(1,2), of "escape_xml s"] Cons.IH by simp
  next
    assume "c \<noteq> 38 \<and> escape_char c = [c]"
    then show ?thesis using unescape_plain [of "[c]" "escape_xml s"] Cons.IH by simp
  qed
qed simp

lemma escape_no_quote: "34 \<notin> set (escape_xml s)"
  by (induction s) (auto simp: escape_char_def ascii_def)

section \<open>Printing a tag and parsing it back\<close>

definition print_attribute :: "rstring \<times> rstring \<Rightarrow> rstring" where
  "print_attribute a = 32 # fst a @ [61, 34] @ escape_xml (snd a) @ [34]"

definition print_tag :: "rstring \<Rightarrow> (rstring \<times> rstring) list \<Rightarrow> rstring" where
  "print_tag tag attrs = 60 # tag @ concat (map print_attribute attrs) @ [47, 62]"

text \<open>Names a tag and an attribute can have.\<close>

definition tag_name_ok :: "rstring \<Rightarrow> bool" where
  "tag_name_ok tag \<longleftrightarrow> tag \<noteq> [] \<and> list_all tag_char tag"

definition attribute_name_ok :: "rstring \<Rightarrow> bool" where
  "attribute_name_ok name \<longleftrightarrow> name \<noteq> [] \<and> list_all attribute_char name \<and> hd name \<noteq> 47"

lemma takeWhile_stop: "list_all p xs \<Longrightarrow> \<not> p c \<Longrightarrow> takeWhile p (xs @ c # ys) = xs \<and> dropWhile p (xs @ c # ys) = c # ys"
  by (induction xs) auto

lemma parse_printed_attribute:
  assumes "attribute_name_ok name" and "name \<notin> fst ` set attrs" and "Suc (length attrs) * 48 \<le> isize_max"
  shows "parse_attribute attrs (name @ [61, 34] @ escape_xml value @ 34 # s) = Inr ((name, value), s)"
proof -
  have n: "takeWhile attribute_char (name @ 61 # 34 # escape_xml value @ 34 # s) = name"
    "dropWhile attribute_char (name @ 61 # 34 # escape_xml value @ 34 # s) = 61 # 34 # escape_xml value @ 34 # s"
    using takeWhile_stop [of attribute_char name 61] assms(1)
    by (auto simp: attribute_name_ok_def attribute_char_def)
  have "list_all (\<lambda>c. c \<noteq> 34) (escape_xml value)" using escape_no_quote by (auto simp: list_all_iff)
  then have v: "takeWhile (\<lambda>c. c \<noteq> 34) (escape_xml value @ 34 # s) = escape_xml value"
    "dropWhile (\<lambda>c. c \<noteq> 34) (escape_xml value @ 34 # s) = 34 # s"
    using takeWhile_stop [of "\<lambda>c. c \<noteq> 34" "escape_xml value" 34] by auto
  have "\<not> list_ex (\<lambda>(candidate, _). candidate = name) attrs"
    using assms(2) by (force simp: list_ex_iff)
  then show ?thesis
    using n v assms(1,3) by (simp add: parse_attribute_def Let_def skip_ascii_whitespace_def is_ascii_whitespace_def
        attribute_name_ok_def unescape_escape)
qed

lemma tag_attributes_step:
  "skip_ascii_whitespace s = c # cs \<Longrightarrow> c \<noteq> 47 \<Longrightarrow> c \<noteq> 62 \<Longrightarrow> length attrs < header_attributes lim \<Longrightarrow>
   parse_attribute attrs (c # cs) = Inr (a, after) \<Longrightarrow>
     tag_attributes lim s attrs = tag_attributes lim after (attrs @ [a])"
  by (simp add: tag_attributes.simps [of lim s attrs])

lemma parse_printed_attributes:
  "\<forall>a \<in> set attrs. attribute_name_ok (fst a) \<Longrightarrow> distinct (map fst (done_attrs @ attrs)) \<Longrightarrow>
   length (done_attrs @ attrs) \<le> header_attributes lim \<Longrightarrow> header_attributes lim * 48 \<le> isize_max \<Longrightarrow>
     tag_attributes lim (concat (map print_attribute attrs) @ [47, 62]) done_attrs = Inr (done_attrs @ attrs, True, [])"
proof (induction attrs arbitrary: done_attrs)
  case Nil
  then show ?case
    by (simp add: tag_attributes.simps skip_ascii_whitespace_def is_ascii_whitespace_def)
next
  case (Cons a attrs)
  obtain name v where a: "a = (name, v)" by (cases a)
  obtain c cs where name: "name = c # cs" using Cons.prems(1) by (cases name) (auto simp: a attribute_name_ok_def)
  have c: "\<not> is_ascii_whitespace c" "c \<noteq> 47" "c \<noteq> 62"
    using Cons.prems(1) by (auto simp: a name attribute_name_ok_def attribute_char_def)
  let ?tail = "concat (map print_attribute attrs) @ [47, 62]"
  have len: "Suc (length done_attrs) * 48 \<le> isize_max"
    using Cons.prems(3,4) by simp
  have p: "parse_attribute done_attrs (name @ [61, 34] @ escape_xml v @ 34 # ?tail) = Inr ((name, v), ?tail)"
    by (rule parse_printed_attribute) (use Cons.prems len a in auto)
  have "skip_ascii_whitespace (concat (map print_attribute (a # attrs)) @ [47, 62]) =
      name @ [61, 34] @ escape_xml v @ 34 # ?tail"
    using c by (simp add: a name print_attribute_def skip_ascii_whitespace_def is_ascii_whitespace_def)
  then have "tag_attributes lim (concat (map print_attribute (a # attrs)) @ [47, 62]) done_attrs =
      tag_attributes lim ?tail (done_attrs @ [(name, v)])"
    using p c Cons.prems(3) by (intro tag_attributes_step) (auto simp: name)
  also have "\<dots> = Inr ((done_attrs @ [(name, v)]) @ attrs, True, [])"
    by (rule Cons.IH) (use Cons.prems a in auto)
  finally show ?case by (simp add: a)
qed

lemma parse_print_tag:
  assumes "tag_name_ok tag" and "\<forall>a \<in> set attrs. attribute_name_ok (fst a)" and "distinct (map fst attrs)"
    and "length attrs \<le> header_attributes lim" and "header_attributes lim * 48 \<le> isize_max"
  shows "parse_single_tag (print_tag tag attrs) lim = Inr (tag, attrs)"
proof -
  obtain c ys where tail: "concat (map print_attribute attrs) @ [47, 62] = c # ys" and c: "\<not> tag_char c"
    by (cases attrs) (auto simp: print_attribute_def tag_char_def is_ascii_whitespace_def)
  have t: "takeWhile tag_char (tag @ c # ys) = tag" "dropWhile tag_char (tag @ c # ys) = c # ys"
    using takeWhile_stop [of tag_char tag c ys] assms(1) c by (auto simp: tag_name_ok_def)
  have "tag_attributes lim (c # ys) [] = Inr (attrs, True, [])"
    using parse_printed_attributes [of attrs "[]" lim] assms unfolding tail by simp
  then show ?thesis
    using t assms(1) unfolding print_tag_def tail
    by (simp add: parse_single_tag_def Let_def skip_ascii_whitespace_def tag_name_ok_def)
qed

section \<open>Alias resolution\<close>

text \<open>The values a canonical name resolves to, in document order.\<close>

definition alias_values :: "rstring \<Rightarrow> (rstring \<times> rstring) list \<Rightarrow> rstring list" where
  "alias_values canonical attrs = map snd (filter (\<lambda>a. eq_ignore_ascii_case (fst a) canonical) attrs)"

lemma alias_values_simps [simp]:
  "alias_values canonical [] = []"
  "alias_values canonical ((n, v) # attrs) =
     (if eq_ignore_ascii_case n canonical then v # alias_values canonical attrs else alias_values canonical attrs)"
  by (simp_all add: alias_values_def)

lemma resolve_aliases_iff:
  "resolve_aliases canonical interp conflict found attrs = Inr r \<longleftrightarrow>
     (if alias_values canonical attrs = [] then r = found
      else \<exists>x. r = Some x \<and> (found = None \<or> found = Some x) \<and>
             (\<forall>v \<in> set (alias_values canonical attrs). interp v = Inr x))"
proof (induction canonical interp conflict found attrs rule: resolve_aliases.induct)
  case (2 canonical interp conflict found name v attrs)
  show ?case
  proof (cases "eq_ignore_ascii_case name canonical")
    case True
    show ?thesis
    proof (cases "interp v")
      case (Inr x)
      then show ?thesis using 2 True by (cases "found \<noteq> None \<and> found \<noteq> Some x") (auto split: if_splits)
    qed (use True in simp)
  qed (use 2 in simp)
qed auto

lemma known_attribute_iff:
  "known_attribute attrs name = Inr r \<longleftrightarrow>
     (case r of None \<Rightarrow> alias_values (ascii name) attrs = []
      | Some x \<Rightarrow> alias_values (ascii name) attrs \<noteq> [] \<and> set (alias_values (ascii name) attrs) = {x})"
  unfolding known_attribute_def resolve_aliases_iff by (cases "alias_values (ascii name) attrs") (auto split: option.splits)

lemma parse_encryption_value_bits: "parse_encryption_value v = Inr b \<Longrightarrow> b \<le> 3"
  by (auto simp: parse_encryption_value_def split: if_splits)

lemma parse_known_encryption_bits: "parse_known_encryption attrs = Inr b \<Longrightarrow> b \<le> 3"
proof -
  assume "parse_known_encryption attrs = Inr b"
  then obtain r where "resolve_aliases (ascii ''Encrypted'') parse_encryption_value (conflicting_aliases ''Encrypted'') None attrs = Inr r"
    and "b = (case r of None \<Rightarrow> 0 | Some bits \<Rightarrow> bits)" by (auto simp: parse_known_encryption_def)
  then show ?thesis unfolding resolve_aliases_iff
    by (cases "alias_values (ascii ''Encrypted'') attrs") (auto dest: parse_encryption_value_bits)
qed

section \<open>The geometry of a parsed header\<close>

definition header_section_ok :: "file_source \<Rightarrow> container_kind \<Rightarrow> header_section \<Rightarrow> bool" where
  "header_section_ok src kind h \<longleftrightarrow>
     hs_section h = section_range_new 0 (hs_keyword_section_offset h) \<and>
     8 \<le> hs_keyword_section_offset h \<and> hs_keyword_section_offset h \<le> fs_len src \<and>
     hs_keyword_section_offset h = 8 + nat_from_be (slice 0 4 (fs_bytes src)) \<and>
     even (hs_keyword_section_offset h) \<and> encrypted (hs_header h) \<le> 3 \<and>
     tag_name (hs_header h) = (case kind of Mdx \<Rightarrow> ascii ''Dictionary'' | Mdd \<Rightarrow> ascii ''Library_Data'')"

lemma build_header_section_ok:
  assumes "build_header_section kind xml_len xml tag attrs kept = Inr h"
  shows "hs_keyword_section_offset h = 8 + xml_len" "hs_section h = section_range_new 0 (8 + xml_len)"
    "hs_retained_bytes h = kept" "encrypted (hs_header h) \<le> 3"
    "tag_name (hs_header h) = (case kind of Mdx \<Rightarrow> ascii ''Dictionary'' | Mdd \<Rightarrow> ascii ''Library_Data'')"
    "raw_xml (hs_header h) = xml" "attributes (hs_header h) = attrs"
  using assms by (auto simp: build_header_section_def bind_eq_Some_conv parse_known_encryption_bits
      split: if_splits container_kind.splits)

lemma read_u32_be_Inr: "read_u32_be c ctx = Inr (v, c') \<longleftrightarrow>
    (\<exists>bs. read_bytes c 4 ctx = Inr (bs, c') \<and> v = u32_from_be bs)"
  unfolding read_u32_be_def by (rule read_field_Inr)

lemma read_u32_be_head:
  assumes "read_u32_be (cursor_new bs) ctx = Inr (v, c')"
  shows "unat v = nat_from_be (take 4 bs)" "4 \<le> length bs"
proof -
  obtain xs where r: "read_bytes (cursor_new bs) 4 ctx = Inr (xs, c')" and v: "v = u32_from_be xs"
    using assms by (auto simp: read_u32_be_Inr)
  have "xs = take 4 bs" using read_bytes_ok(7) [OF r] by simp
  then show "unat v = nat_from_be (take 4 bs)" using v u32_from_be_nat [of xs] read_bytes_ok(4) [OF r] by simp
  show "4 \<le> length bs" using r by (simp add: read_bytes_Inr)
qed

lemma parse_header_bytes_ok:
  assumes "returns (parse_header_bytes_with_limits X bs kind lim policy) h"
  obtains n xml tag attrs k where "n = nat_from_be (take 4 bs)" and "even n" and "n \<le> header_xml_bytes lim"
    and "header_memory_estimate n lim = Inr k" and "parse_single_tag xml lim = Inr (tag, attrs)"
    and "build_header_section kind n xml tag attrs k = Inr h"
proof -
  from assms obtain w c1 ctx k xml tag attrs where w: "read_u32_be (cursor_new bs) ctx = Inr (w, c1)"
    and f: "even (unat w)" "unat w \<le> header_xml_bytes lim" "header_memory_estimate (unat w) lim = Inr k"
      "parse_single_tag xml lim = Inr (tag, attrs)" "build_header_section kind (unat w) xml tag attrs k = Inr h"
    unfolding parse_header_bytes_with_limits_def Let_def
    by (auto split: prod.splits if_splits simp: even_iff_mod_2_eq_zero)
  show ?thesis by (rule that [of "unat w" k xml tag attrs]) (use f read_u32_be_head [OF w] in simp_all)
qed

lemma parse_header_ok:
  assumes "returns (parse_header X src kind lim policy) h"
  shows "header_section_ok src kind h"
    and "hs_keyword_section_offset h \<le> header_xml_bytes lim + 8"
    and "header_memory_estimate (hs_keyword_section_offset h - 8) lim = Inr (hs_retained_bytes h)"
proof -
  from assms obtain len_bytes w c1 ctx bs where r4: "read_exact_at src 0 4 ''header length'' = Inr len_bytes"
    and w: "read_u32_be (cursor_new len_bytes) ctx = Inr (w, c1)"
    and rb: "read_exact_at src 0 (4 + unat w + 4) ''header section'' = Inr bs"
    and p: "returns (parse_header_bytes_with_limits X bs kind lim policy) h"
    unfolding parse_header_def Let_def by (auto split: prod.splits if_splits simp: bind_eq_Some_conv)
  from p obtain n xml tag attrs k where n: "n = nat_from_be (take 4 bs)" and f: "even n" "n \<le> header_xml_bytes lim"
    "header_memory_estimate n lim = Inr k" "build_header_section kind n xml tag attrs k = Inr h"
    by (rule parse_header_bytes_ok)
  have "len_bytes = take 4 (fs_bytes src)" using read_exact_at_ok(3) [OF r4] by (simp add: slice_0)
  moreover have "bs = take (4 + unat w + 4) (fs_bytes src)" using read_exact_at_ok(3) [OF rb] by (simp add: slice_0)
  ultimately have "take 4 bs = take 4 len_bytes" "take 4 len_bytes = slice 0 4 (fs_bytes src)"
    by (simp_all add: slice_0)
  then have wn: "unat w = n" "n = nat_from_be (slice 0 4 (fs_bytes src))"
    using read_u32_be_head [OF w] n by simp_all
  have "8 + n \<le> fs_len src" using read_exact_at_ok(2) [OF rb] wn by simp
  then show "header_section_ok src kind h"
    using build_header_section_ok [OF f(4)] wn f by (simp add: header_section_ok_def)
  show "hs_keyword_section_offset h \<le> header_xml_bytes lim + 8"
    and "header_memory_estimate (hs_keyword_section_offset h - 8) lim = Inr (hs_retained_bytes h)"
    using build_header_section_ok [OF f(4)] f by simp_all
qed

lemma accounts_parse_header_bytes [accounting]:
  "accounts (parse_header_bytes_with_limits X bs kind lim policy) (\<lambda>_. 0)"
  unfolding parse_header_bytes_with_limits_def Let_def by (intro accounting)

lemma accounts_parse_header [accounting]: "accounts (parse_header X src kind lim policy) (\<lambda>_. 0)"
  unfolding parse_header_def Let_def by (intro accounting)

end
