(* ===== verification/Record_Sections.thy ===== *)
theory Record_Sections
  imports Descriptors Cursor
begin

text \<open>
  The record sections of both wire versions (\<^verbatim>\<open>src/src/format/v1/record.rs\<close>,
  \<^verbatim>\<open>src/src/format/v2/record.rs\<close>). The two parsers are the same sequence of checks over fields of
  different widths, so \<open>parse_record_section\<close> takes the field reader, the header length and the
  index row length, and the version functions fix them. The main result is that a successful parse
  leaves nothing unchecked: the section lies in the file, its index is exactly the encoding of the
  returned descriptors, the compressed blocks tile the block section and the decoded sizes tile the
  record stream.
\<close>

record record_section =
  rs_num_entries :: nat
  rs_total_decompressed_len :: nat
  rs_blocks :: "record_block_descriptor list"
  rs_retained_bytes :: nat
  rs_header :: section_range
  rs_index :: section_range
  rs_block_range :: section_range

definition validate_record_header :: "nat \<Rightarrow> nat \<Rightarrow> nat \<Rightarrow> limits \<Rightarrow> (nat \<times> nat) result" where
  "validate_record_header row_len num_blocks index_len lim =
     and_then (mul_u64 num_blocks row_len ''record index length overflow'') (\<lambda>expected_index_len.
     if index_len \<noteq> expected_index_len
     then Inl (InvalidData (''record index length mismatch: header='' @ dec index_len @
                 '', expected='' @ dec expected_index_len))
     else
     and_then (ensure_u64_limit ''record_index_bytes'' index_len (record_index_bytes lim)) (\<lambda>_.
     and_then (checked_usize index_len ''record index length'') (\<lambda>index_len.
     and_then (checked_usize num_blocks ''record block count'') (\<lambda>num_blocks.
     and_then (ok_or (checked_mul num_blocks size_of_record_block_descriptor)
                 (InvalidFormat ''record block metadata size overflow'')) (\<lambda>metadata_bytes.
     and_then (ensure_usize_limit ''record_block_metadata_bytes'' metadata_bytes
                 (block_metadata_bytes lim)) (\<lambda>_.
     Inr (num_blocks, index_len)))))))"

definition validate_record_block_sizes :: "nat \<Rightarrow> nat \<Rightarrow> limits \<Rightarrow> unit result" where
  "validate_record_block_sizes comp_size decomp_size lim =
     and_then (ensure_u64_limit ''record_block_compressed_bytes'' comp_size
                 (compressed_block_bytes lim)) (\<lambda>_.
     and_then (ensure_u64_limit ''record_block_decompressed_bytes'' decomp_size
                 (decompressed_block_bytes lim)) (\<lambda>_.
     if comp_size < 8
     then Inl (InvalidData (''record block is '' @ dec comp_size @ '' bytes; at least 8 are required''))
     else Inr ()))"

record record_rows_state =
  rr_cursor :: cursor
  rr_comp_offset :: nat
  rr_decomp_offset :: nat
  rr_total_comp :: nat

text \<open>The loop over the index rows. Blocks are consed here and pushed there.\<close>

fun record_rows ::
    "reader \<Rightarrow> file_source \<Rightarrow> limits \<Rightarrow> nat \<Rightarrow> record_rows_state \<Rightarrow>
     (record_block_descriptor list \<times> record_rows_state) result" where
  "record_rows rd src lim 0 st = Inr ([], st)"
| "record_rows rd src lim (Suc n) st =
     and_then (rd (rr_cursor st) ''record block compressed size'') (\<lambda>(comp_size, cur).
     and_then (rd cur ''record block decompressed size'') (\<lambda>(decomp_size, cur).
     and_then (validate_record_block_sizes comp_size decomp_size lim) (\<lambda>_.
     and_then (ensure_range src (rr_comp_offset st) comp_size ''record block'') (\<lambda>_.
     and_then (add_u64 (rr_comp_offset st) comp_size ''record block offset overflow'') (\<lambda>next_comp_offset.
     and_then (add_u64 (rr_decomp_offset st) decomp_size ''record block offset overflow'') (\<lambda>next_decomp_offset.
     and_then (add_u64 (rr_total_comp st) comp_size ''record block length overflow'') (\<lambda>total_comp.
     and_then (record_rows rd src lim n
                 \<lparr>rr_cursor = cur, rr_comp_offset = next_comp_offset,
                  rr_decomp_offset = next_decomp_offset, rr_total_comp = total_comp\<rparr>) (\<lambda>(blocks, st').
     Inr (\<lparr>rb_comp_offset = rr_comp_offset st, rb_comp_size = comp_size,
           rb_decomp_offset = rr_decomp_offset st, rb_decomp_size = decomp_size\<rparr> # blocks, st')))))))))"

text \<open>The four header fields, in file order.\<close>

definition read_record_header :: "reader \<Rightarrow> bytes \<Rightarrow> (nat \<times> nat \<times> nat \<times> nat) result" where
  "read_record_header rd header_bytes =
     and_then (rd (cursor_new header_bytes) ''record num_blocks'') (\<lambda>(num_blocks, cur).
     and_then (rd cur ''record num_entries'') (\<lambda>(num_entries, cur).
     and_then (rd cur ''record index length'') (\<lambda>(index_len, cur).
     and_then (rd cur ''record blocks length'') (\<lambda>(blocks_len, cur).
     Inr (num_blocks, num_entries, index_len, blocks_len)))))"

text \<open>The rows and the checks on their totals, with the index in memory.\<close>

definition parse_record_index ::
    "reader \<Rightarrow> file_source \<Rightarrow> limits \<Rightarrow> nat \<Rightarrow> nat \<Rightarrow> nat \<Rightarrow> bytes \<Rightarrow>
     (record_block_descriptor list \<times> nat) result" where
  "parse_record_index rd src lim num_blocks blocks_offset blocks_len index_bytes =
     and_then (try_reserve_vec size_of_record_block_descriptor 0 num_blocks ''record block metadata'') (\<lambda>_.
     and_then (record_rows rd src lim num_blocks
                 \<lparr>rr_cursor = cursor_new index_bytes, rr_comp_offset = blocks_offset,
                  rr_decomp_offset = 0, rr_total_comp = 0\<rparr>) (\<lambda>(blocks, st).
     if rr_total_comp st \<noteq> blocks_len
     then Inl (InvalidData (''record blocks length mismatch: header='' @ dec blocks_len @
                 '', summed='' @ dec (rr_total_comp st)))
     else if \<not> cur_is_empty (rr_cursor st)
     then Inl (InvalidData (''record block index has '' @ dec (remaining (rr_cursor st)) @
                 '' trailing bytes''))
     else
     and_then (add_u64 blocks_offset blocks_len ''record block section end overflow'') (\<lambda>expected_blocks_end.
     if rr_comp_offset st \<noteq> expected_blocks_end
     then Inl (InvalidData ''record block ranges do not cover the declared section'')
     else Inr (blocks, rr_decomp_offset st))))"

definition parse_record_section ::
    "reader \<Rightarrow> nat \<Rightarrow> nat \<Rightarrow> file_source \<Rightarrow> nat \<Rightarrow> limits \<Rightarrow> record_section mem" where
  "parse_record_section rd header_len row_len src record_section_offset lim =
     scoped header_len (
     attempt (read_exact_at src record_section_offset header_len ''record section header'') (\<lambda>header_bytes.
     attempt (read_record_header rd header_bytes) (\<lambda>(num_blocks, num_entries, index_len, blocks_len).
     attempt (validate_record_header row_len num_blocks index_len lim) (\<lambda>(num_blocks, index_len_usize).
     attempt (add_u64 record_section_offset header_len ''record index offset overflow'') (\<lambda>index_offset.
     attempt (add_u64 index_offset index_len ''record blocks offset overflow'') (\<lambda>blocks_offset.
     attempt (ensure_range src index_offset index_len ''record block index'') (\<lambda>_.
     attempt (ensure_range src blocks_offset blocks_len ''record block section'') (\<lambda>_.
     scoped index_len_usize (
     attempt (ok_or (checked_mul num_blocks size_of_record_block_descriptor)
                (InvalidFormat ''record metadata size overflow'')) (\<lambda>retained_bytes.
     scoped retained_bytes (
     attempt (read_exact_at src index_offset index_len_usize ''record block index'') (\<lambda>index_bytes.
     attempt (parse_record_index rd src lim num_blocks blocks_offset blocks_len index_bytes)
       (\<lambda>(blocks, total_decompressed_len).
     mret \<lparr>rs_num_entries = num_entries, rs_total_decompressed_len = total_decompressed_len,
           rs_blocks = blocks, rs_retained_bytes = retained_bytes,
           rs_header = section_range_new record_section_offset header_len,
           rs_index = section_range_new index_offset index_len,
           rs_block_range = section_range_new blocks_offset blocks_len\<rparr>)))))))))))))"

definition v1_parse_record_section :: "file_source \<Rightarrow> nat \<Rightarrow> limits \<Rightarrow> record_section mem" where
  "v1_parse_record_section src record_section_offset lim =
     attempt (checked_usize 16 ''record section header length'') (\<lambda>header_len.
     parse_record_section read_u32_be_widened header_len 8 src record_section_offset lim)"

definition v2_parse_record_section :: "file_source \<Rightarrow> nat \<Rightarrow> limits \<Rightarrow> record_section mem" where
  "v2_parse_record_section src record_section_offset lim =
     parse_record_section read_u64_be 32 16 src record_section_offset lim"

section \<open>The specification of a record section\<close>

definition encode_record_row :: "nat \<Rightarrow> record_block_descriptor \<Rightarrow> bytes" where
  "encode_record_row w b = nat_to_be w (rb_comp_size b) @ nat_to_be w (rb_decomp_size b)"

definition record_block_in_limits :: "limits \<Rightarrow> record_block_descriptor \<Rightarrow> bool" where
  "record_block_in_limits lim b \<longleftrightarrow> 8 \<le> rb_comp_size b \<and> rb_comp_size b \<le> compressed_block_bytes lim \<and>
     rb_decomp_size b \<le> decompressed_block_bytes lim"

definition record_section_ok ::
    "nat \<Rightarrow> nat \<Rightarrow> file_source \<Rightarrow> limits \<Rightarrow> nat \<Rightarrow> record_section \<Rightarrow> bool" where
  "record_section_ok w header_len src lim offset r \<longleftrightarrow>
     rs_header r = section_range_new offset header_len \<and>
     sr_offset (rs_index r) = section_bytes_end (rs_header r) \<and>
     sr_offset (rs_block_range r) = section_bytes_end (rs_index r) \<and>
     section_bytes_end (rs_block_range r) \<le> fs_len src \<and> section_bytes_end (rs_block_range r) \<le> u64_max \<and>
     slice (sr_offset (rs_index r)) (section_bytes_end (rs_index r)) (fs_bytes src) =
       concat (map (encode_record_row w) (rs_blocks r)) \<and>
     tiles rb_comp_offset rb_comp_size (sr_offset (rs_block_range r)) (rs_blocks r)
       (section_bytes_end (rs_block_range r)) \<and>
     tiles rb_decomp_offset rb_decomp_size 0 (rs_blocks r) (rs_total_decompressed_len r) \<and>
     rs_total_decompressed_len r \<le> u64_max \<and>
     rs_retained_bytes r = length (rs_blocks r) * size_of_record_block_descriptor \<and>
     (\<forall>b \<in> set (rs_blocks r). record_block_in_limits lim b)"

lemma validate_record_header_ok:
  "validate_record_header row n len lim = Inr (n', len') \<Longrightarrow>
     n' = n \<and> len' = len \<and> len = n * row \<and> len \<le> record_index_bytes lim \<and>
     n * size_of_record_block_descriptor \<le> block_metadata_bytes lim"
  by (auto simp: validate_record_header_def split: if_splits)

lemma validate_record_block_sizes_ok:
  "validate_record_block_sizes c d lim = Inr u \<Longrightarrow>
     8 \<le> c \<and> c \<le> compressed_block_bytes lim \<and> d \<le> decompressed_block_bytes lim"
  by (auto simp: validate_record_block_sizes_def split: if_splits)

context field_reader
begin

lemma record_rows_ok:
  "record_rows rd src lim n st = Inr (bs, st') \<Longrightarrow> rr_decomp_offset st \<le> u64_max \<Longrightarrow>
   cursor_ok (rr_cursor st) \<Longrightarrow>
     length bs = n \<and> rest (rr_cursor st) = concat (map (encode_record_row w) bs) @ rest (rr_cursor st') \<and>
     tiles rb_comp_offset rb_comp_size (rr_comp_offset st) bs (rr_comp_offset st') \<and>
     tiles rb_decomp_offset rb_decomp_size (rr_decomp_offset st) bs (rr_decomp_offset st') \<and>
     rr_decomp_offset st' \<le> u64_max \<and> cursor_ok (rr_cursor st') \<and>
     rr_total_comp st' = rr_total_comp st + sum_list (map rb_comp_size bs) \<and>
     (\<forall>b \<in> set bs. record_block_in_limits lim b)"
proof (induction n arbitrary: st bs)
  case (Suc n)
  from Suc.prems(1) obtain c1 cur1 c2 cur2 bs' where
    r1: "rd (rr_cursor st) ''record block compressed size'' = Inr (c1, cur1)" and
    r2: "rd cur1 ''record block decompressed size'' = Inr (c2, cur2)" and
    v: "validate_record_block_sizes c1 c2 lim = Inr ()" and
    le: "rr_comp_offset st + c1 \<le> u64_max" "rr_decomp_offset st + c2 \<le> u64_max" and
    rr: "record_rows rd src lim n \<lparr>rr_cursor = cur2, rr_comp_offset = rr_comp_offset st + c1,
        rr_decomp_offset = rr_decomp_offset st + c2, rr_total_comp = rr_total_comp st + c1\<rparr> = Inr (bs', st')" and
    bs: "bs = \<lparr>rb_comp_offset = rr_comp_offset st, rb_comp_size = c1,
        rb_decomp_offset = rr_decomp_offset st, rb_decomp_size = c2\<rparr> # bs'"
    by (auto split: prod.splits)
  note ok1 = rd_ok [OF r1] and ok2 = rd_ok [OF r2]
  show ?case
    using Suc.IH [OF rr] ok1 ok2 le validate_record_block_sizes_ok [OF v]
    by (simp add: bs encode_record_row_def record_block_in_limits_def)
qed simp

lemma parse_record_index_ok:
  assumes "parse_record_index rd src lim n off len bytes = Inr (bs, total_len)"
  shows "bytes = concat (map (encode_record_row w) bs)" "length bs = n"
    "tiles rb_comp_offset rb_comp_size off bs (off + len)"
    "tiles rb_decomp_offset rb_decomp_size 0 bs total_len" "total_len \<le> u64_max"
    "\<forall>b \<in> set bs. record_block_in_limits lim b"
proof -
  obtain st where rr: "record_rows rd src lim n \<lparr>rr_cursor = cursor_new bytes, rr_comp_offset = off,
      rr_decomp_offset = 0, rr_total_comp = 0\<rparr> = Inr (bs, st)" and e: "cur_is_empty (rr_cursor st)"
    and c: "rr_comp_offset st = off + len" and t: "rr_decomp_offset st = total_len"
    using assms by (auto simp: parse_record_index_def split: prod.splits if_splits)
  note ok = record_rows_ok [OF rr, simplified]
  show "bytes = concat (map (encode_record_row w) bs)" using ok e by (simp add: cur_is_empty_rest)
  show "length bs = n" "tiles rb_comp_offset rb_comp_size off bs (off + len)"
    "tiles rb_decomp_offset rb_decomp_size 0 bs total_len" "total_len \<le> u64_max"
    "\<forall>b \<in> set bs. record_block_in_limits lim b" using ok c t by simp_all
qed

lemma parse_record_section_ok:
  assumes "returns (parse_record_section rd header_len row_len src offset lim) r"
  shows "record_section_ok w header_len src lim offset r"
proof -
  from assms obtain n0 num_blocks num_entries l0 index_len blocks_len index_bytes blocks total_len where
    v: "validate_record_header row_len n0 l0 lim = Inr (num_blocks, index_len)" and
    ri: "read_exact_at src (offset + header_len) index_len ''record block index'' = Inr index_bytes" and
    p: "parse_record_index rd src lim num_blocks (offset + header_len + l0) blocks_len index_bytes =
          Inr (blocks, total_len)" and
    le: "offset + header_len + l0 + blocks_len \<le> fs_len src"
      "offset + header_len + l0 + blocks_len \<le> u64_max" and
    r: "r = \<lparr>rs_num_entries = num_entries, rs_total_decompressed_len = total_len, rs_blocks = blocks,
          rs_retained_bytes = num_blocks * size_of_record_block_descriptor,
          rs_header = section_range_new offset header_len,
          rs_index = section_range_new (offset + header_len) l0,
          rs_block_range = section_range_new (offset + header_len + l0) blocks_len\<rparr>"
    unfolding parse_record_section_def by (auto split: prod.splits)
  have eq: "index_len = l0" "num_blocks = n0" using validate_record_header_ok [OF v] by simp_all
  note ok = parse_record_index_ok [OF p] and ib = read_exact_at_ok [OF ri]
  show ?thesis
    unfolding record_section_ok_def r
    using ok ib le eq by (simp add: section_range_new_def section_bytes_end_def)
qed

end

lemma v1_parse_record_section_ok:
  "returns (v1_parse_record_section src offset lim) r \<Longrightarrow> record_section_ok 4 16 src lim offset r"
  unfolding v1_parse_record_section_def by (auto intro: u32_field.parse_record_section_ok)

lemma v2_parse_record_section_ok:
  "returns (v2_parse_record_section src offset lim) r \<Longrightarrow> record_section_ok 8 32 src lim offset r"
  unfolding v2_parse_record_section_def by (rule u64_field.parse_record_section_ok)

section \<open>Memory\<close>

lemma accounts_parse_record_section [accounting]:
  "accounts (parse_record_section rd header_len row_len src offset lim) (\<lambda>_. 0)"
  unfolding parse_record_section_def by (intro accounting)

lemma accounts_v1_record_section [accounting]: "accounts (v1_parse_record_section src offset lim) (\<lambda>_. 0)"
  unfolding v1_parse_record_section_def by (intro accounting)

lemma accounts_v2_record_section [accounting]: "accounts (v2_parse_record_section src offset lim) (\<lambda>_. 0)"
  unfolding v2_parse_record_section_def by (intro accounting)

end
