(* ===== verification/Compression.thy ===== *)
theory Compression
  imports Encoding Checksum Types
begin

text \<open>
  The eight-byte block envelope and its decompressors
  (\<^verbatim>\<open>src/src/format/common/compression.rs\<close>). Inflate and LZO are crates and come in
  through \<open>externals\<close>; everything around them is modelled: the size and limit checks made
  before the payload is touched, the dispatch on the tag, the exact-length checks after it and the
  checksum policy. The lemmas show that a decoded block always has the declared length, whatever
  the decompressor did, and that a stored block is read back unchanged.
\<close>

datatype compression_type = NoCompression | Lzo | Zlib

definition debug_hex :: "bytes \<Rightarrow> string" where
  "debug_hex bs = ''['' @ (case map hex2 bs of [] \<Rightarrow> '''' | h # hs \<Rightarrow> h @ concat (map (\<lambda>x. '', '' @ x) hs)) @ '']''"

definition parse_comp_type :: "bytes \<Rightarrow> compression_type result" where
  "parse_comp_type bs =
     (if bs = [0, 0, 0, 0] then Inr NoCompression
      else if bs = [1, 0, 0, 0] then Inr Lzo
      else if bs = [2, 0, 0, 0] then Inr Zlib
      else Inl (InvalidData (''unknown compression tag: '' @ debug_hex bs)))"

definition decode_uncompressed_block :: "string \<Rightarrow> bytes \<Rightarrow> nat \<Rightarrow> bytes result" where
  "decode_uncompressed_block context payload expected =
     (if length payload \<noteq> expected
      then Inl (InvalidData (context @ '' contains '' @ dec (length payload) @
                  '' uncompressed bytes, expected '' @ dec expected))
      else and_then (try_reserve_vec 1 0 (length payload) context) (\<lambda>_. Inr payload))"

definition decode_zlib_block ::
    "externals \<Rightarrow> string \<Rightarrow> bytes \<Rightarrow> nat \<Rightarrow> checksum_policy \<Rightarrow> bytes result" where
  "decode_zlib_block X context payload expected policy =
     and_then (try_reserve_vec 1 0 expected context) (\<lambda>_.
     case ext_inflate X (policy = Skip) payload expected of
       (status, input_read, actual, output) \<Rightarrow>
         if status \<noteq> ''Done''
         then Inl (InvalidData (''invalid or oversized zlib block in '' @ context @ '': '' @ status))
         else if input_read \<noteq> length payload
         then Inl (InvalidData (''zlib block in '' @ context @ '' has '' @
                     dec (length payload - input_read) @ '' trailing compressed bytes''))
         else if actual \<noteq> expected
         then Inl (InvalidData (context @ '' decompressed to '' @ dec actual @
                     '' bytes, expected '' @ dec expected))
         else Inr output)"

definition decode_lzo_block :: "externals \<Rightarrow> string \<Rightarrow> bytes \<Rightarrow> nat \<Rightarrow> bytes result" where
  "decode_lzo_block X context payload expected =
     (case ext_lzo X of
        None \<Rightarrow> Inl (Unsupported ''LZO compressed blocks (enable the `lzo` feature)'')
      | Some decompress \<Rightarrow>
          and_then (try_reserve_vec 1 0 expected context) (\<lambda>_.
          case decompress payload expected of
            None \<Rightarrow> Inl (InvalidData (''invalid lzo block in '' @ context))
          | Some (actual, output) \<Rightarrow>
              if actual \<noteq> expected
              then Inl (InvalidData (context @ '' decompressed to '' @ dec actual @
                          '' bytes, expected '' @ dec expected))
              else Inr output))"

definition decode_block ::
    "externals \<Rightarrow> string \<Rightarrow> bytes \<Rightarrow> nat \<Rightarrow> limits \<Rightarrow> checksum_policy \<Rightarrow> bytes result" where
  "decode_block X context block expected lim policy =
     (if length block < 8 then Inl (Truncated context 8 (length block))
      else
        and_then (ensure_usize_limit ''compressed_block_bytes'' (length block)
                    (compressed_block_bytes lim)) (\<lambda>_.
        and_then (ensure_usize_limit ''decompressed_block_bytes'' expected
                    (decompressed_block_bytes lim)) (\<lambda>_.
        and_then (parse_comp_type (take 4 block)) (\<lambda>comp_type.
        let checksum = u32_from_be (slice 4 8 block); payload = drop 8 block in
        and_then
          (case comp_type of
             NoCompression \<Rightarrow> decode_uncompressed_block context payload expected
           | Zlib \<Rightarrow> decode_zlib_block X context payload expected policy
           | Lzo \<Rightarrow> decode_lzo_block X context payload expected) (\<lambda>decoded.
        if length decoded \<noteq> expected
        then Inl (InvalidData (context @ '' decompressed to '' @ dec (length decoded) @
                    '' bytes, expected '' @ dec expected))
        else if policy = Verify
        then and_then (verify_adler32 context decoded checksum) (\<lambda>_. Inr decoded)
        else Inr decoded)))))"

section \<open>What a decoded block is\<close>

lemma decode_block_ok:
  assumes "decode_block X ctx block n lim policy = Inr out"
  shows "length out = n" "8 \<le> length block" "length block \<le> compressed_block_bytes lim"
    "n \<le> decompressed_block_bytes lim"
    "policy = Verify \<longrightarrow> adler32 out = u32_from_be (slice 4 8 block)"
  using assms by (auto simp: decode_block_def Let_def split: if_splits)

lemma decode_block_dispatch:
  assumes "decode_block X ctx block n lim policy = Inr out"
  obtains "take 4 block = [0, 0, 0, 0]" and "out = drop 8 block"
  | st r w where "take 4 block = [2, 0, 0, 0]"
      and "ext_inflate X (policy = Skip) (drop 8 block) n = (''Done'', length (drop 8 block), n, out)"
  | f where "take 4 block = [1, 0, 0, 0]" and "ext_lzo X = Some f" and "f (drop 8 block) n = Some (n, out)"
proof -
  obtain t where t: "parse_comp_type (take 4 block) = Inr t"
    and d: "(case t of
             NoCompression \<Rightarrow> decode_uncompressed_block ctx (drop 8 block) n
           | Zlib \<Rightarrow> decode_zlib_block X ctx (drop 8 block) n policy
           | Lzo \<Rightarrow> decode_lzo_block X ctx (drop 8 block) n) = Inr out"
    using assms by (auto simp: decode_block_def Let_def split: if_splits)
  show ?thesis
  proof (cases t)
    case NoCompression
    then show ?thesis using t d that(1)
      by (auto simp: parse_comp_type_def decode_uncompressed_block_def split: if_splits)
  next
    case Lzo
    then show ?thesis using t d that(3)
      by (auto simp: parse_comp_type_def decode_lzo_block_def split: if_splits option.splits)
  next
    case Zlib
    then show ?thesis using t d that(2)
      by (auto simp: parse_comp_type_def decode_zlib_block_def split: if_splits prod.splits)
  qed
qed

lemma decode_block_output:
  assumes "decode_block X ctx block n lim policy = Inr out"
  shows "take 4 block = [0, 0, 0, 0] \<and> out = drop 8 block \<or>
     take 4 block = [2, 0, 0, 0] \<and>
       ext_inflate X (policy = Skip) (drop 8 block) n = (''Done'', length (drop 8 block), n, out) \<or>
     take 4 block = [1, 0, 0, 0] \<and> (\<exists>f. ext_lzo X = Some f \<and> f (drop 8 block) n = Some (n, out))"
  using assms by (rule decode_block_dispatch) (blast+)

text \<open>The stored form of a block: tag, checksum, payload.\<close>

definition stored_block :: "bytes \<Rightarrow> bytes" where
  "stored_block data = [0, 0, 0, 0] @ u32_to_be (adler32 data) @ data"

lemma length_stored_block [simp]: "length (stored_block data) = length data + 8"
  by (simp add: stored_block_def)

lemma stored_block_parts:
  "take 4 (stored_block data) = [0, 0, 0, 0]" "drop 8 (stored_block data) = data"
  "slice 4 8 (stored_block data) = u32_to_be (adler32 data)"
  by (simp_all add: stored_block_def slice_def)

lemma decode_stored_block:
  assumes "length data + 8 \<le> compressed_block_bytes lim" and "length data \<le> decompressed_block_bytes lim"
    and "length data \<le> isize_max"
  shows "decode_block X ctx (stored_block data) (length data) lim policy = Inr data"
proof -
  have "decode_uncompressed_block ctx data (length data) = Inr data"
    using assms(3) by (simp add: decode_uncompressed_block_def)
  then show ?thesis using assms
    by (simp add: decode_block_def stored_block_parts parse_comp_type_def Let_def)
qed

end
