(* ===== verification/Crypto.thy ===== *)
theory Crypto
  imports Checksum
begin

text \<open>
  The cryptographic primitives shared by the wire versions
  (\<^verbatim>\<open>src/src/format/common/crypto.rs\<close>): hexadecimal key decoding, RIPEMD-128 and the
  Salsa20/8 keystream. Arrays are lists of the array's length, indexed only by literals and by the
  tables of the source. The lemmas give the sizes of every block, that hexadecimal
  decoding accepts exactly 32 digits and inverts the encoder, and that applying the keystream twice
  is the identity.
\<close>

unbundle bit_operations_syntax

section \<open>Hexadecimal keys\<close>

definition hex_nibble :: "u8 \<Rightarrow> u8 result" where
  "hex_nibble byte =
     (if 48 \<le> byte \<and> byte \<le> 57 then Inr (byte - 48)
      else if 97 \<le> byte \<and> byte \<le> 102 then Inr (byte - 97 + 10)
      else if 65 \<le> byte \<and> byte \<le> 70 then Inr (byte - 65 + 10)
      else Inl (InvalidData ''registration code contains non-hex bytes''))"

fun decode_hex_pairs :: "bytes \<Rightarrow> bytes result" where
  "decode_hex_pairs (h # l # rest) =
     and_then (hex_nibble h) (\<lambda>high.
     and_then (hex_nibble l) (\<lambda>low.
     and_then (decode_hex_pairs rest) (\<lambda>out.
     Inr ((push_bit 4 high OR low) # out))))"
| "decode_hex_pairs _ = Inr []"

definition decode_hex_16 :: "bytes \<Rightarrow> bytes result" where
  "decode_hex_16 text =
     (if length text \<noteq> 32 then Inl (InvalidData ''registration code must be 32 hex digits'')
      else decode_hex_pairs text)"

section \<open>RIPEMD-128\<close>

definition RIPEMD128_R :: "nat list" where
  "RIPEMD128_R =
    [0, 1, 2, 3, 4, 5, 6, 7, 8, 9, 10, 11, 12, 13, 14, 15, 7, 4, 13, 1, 10, 6, 15, 3, 12, 0, 9, 5,
     2, 14, 11, 8, 3, 10, 14, 4, 9, 15, 8, 1, 2, 7, 0, 6, 13, 11, 5, 12, 1, 9, 11, 10, 0, 8, 12, 4,
     13, 3, 7, 15, 14, 5, 6, 2]"

definition RIPEMD128_RP :: "nat list" where
  "RIPEMD128_RP =
    [5, 14, 7, 0, 9, 2, 11, 4, 13, 6, 15, 8, 1, 10, 3, 12, 6, 11, 3, 7, 0, 13, 5, 10, 14, 15, 8, 12,
     4, 9, 1, 2, 15, 5, 1, 3, 7, 14, 6, 9, 11, 8, 12, 2, 10, 0, 4, 13, 8, 6, 4, 1, 3, 11, 15, 0, 5,
     12, 2, 13, 9, 7, 10, 14]"

definition RIPEMD128_S :: "nat list" where
  "RIPEMD128_S =
    [11, 14, 15, 12, 5, 8, 7, 9, 11, 13, 14, 15, 6, 7, 9, 8, 7, 6, 8, 13, 11, 9, 7, 15, 7, 12, 15,
     9, 11, 7, 13, 12, 11, 13, 6, 7, 14, 9, 13, 15, 14, 8, 13, 6, 5, 12, 7, 5, 11, 12, 14, 15, 14,
     15, 9, 8, 9, 14, 5, 6, 8, 6, 5, 12]"

definition RIPEMD128_SP :: "nat list" where
  "RIPEMD128_SP =
    [8, 9, 9, 11, 13, 15, 15, 5, 7, 7, 8, 11, 14, 14, 12, 6, 9, 13, 15, 7, 12, 8, 9, 11, 7, 7, 12,
     7, 6, 15, 13, 11, 9, 7, 15, 11, 8, 6, 6, 14, 12, 13, 5, 14, 13, 13, 7, 5, 15, 5, 8, 11, 14, 14,
     6, 14, 6, 9, 12, 9, 12, 5, 15, 8]"

definition rmd_f :: "nat \<Rightarrow> u32 \<Rightarrow> u32 \<Rightarrow> u32 \<Rightarrow> u32" where
  "rmd_f idx x y z =
     (if idx \<le> 15 then x XOR y XOR z
      else if idx \<le> 31 then (x AND y) OR (NOT x AND z)
      else if idx \<le> 47 then (x OR NOT y) XOR z
      else (x AND z) OR (y AND NOT z))"

definition rmd_fp :: "nat \<Rightarrow> u32 \<Rightarrow> u32 \<Rightarrow> u32 \<Rightarrow> u32" where
  "rmd_fp idx x y z =
     (if idx \<le> 15 then (x AND z) OR (y AND NOT z)
      else if idx \<le> 31 then (x OR NOT y) XOR z
      else if idx \<le> 47 then (x AND y) OR (NOT x AND z)
      else x XOR y XOR z)"

definition rmd_k :: "nat \<Rightarrow> u32" where
  "rmd_k idx =
     (if idx \<le> 15 then 0x00000000 else if idx \<le> 31 then 0x5a827999
      else if idx \<le> 47 then 0x6ed9eba1 else 0x8f1bbcdc)"

definition rmd_kp :: "nat \<Rightarrow> u32" where
  "rmd_kp idx =
     (if idx \<le> 15 then 0x50a28be6 else if idx \<le> 31 then 0x5c4dd124
      else if idx \<le> 47 then 0x6d703ef3 else 0x00000000)"

type_synonym quad = "u32 \<times> u32 \<times> u32 \<times> u32"

text \<open>One iteration of the 64-step loop: both lines rotate \<open>(a, b, c, d)\<close> to
  \<open>(d, tmp, b, c)\<close>.\<close>

definition rmd_step :: "u32 list \<Rightarrow> quad \<times> quad \<Rightarrow> nat \<Rightarrow> quad \<times> quad" where
  "rmd_step words st idx =
     (case st of ((a, b, c, d), (aa, bb, cc, dd)) \<Rightarrow>
       let tmp = word_rotl (RIPEMD128_S ! idx)
                   (a + rmd_f idx b c d + words ! (RIPEMD128_R ! idx) + rmd_k idx);
           tmp_p = word_rotl (RIPEMD128_SP ! idx)
                   (aa + rmd_fp idx bb cc dd + words ! (RIPEMD128_RP ! idx) + rmd_kp idx)
       in ((d, tmp, b, c), (dd, tmp_p, bb, cc)))"

definition rmd_words :: "bytes \<Rightarrow> u32 list" where
  "rmd_words chunk = map (\<lambda>idx. u32_from_le (slice (idx * 4) (idx * 4 + 4) chunk)) [0..<16]"

definition ripemd128_compress :: "quad \<Rightarrow> bytes \<Rightarrow> quad" where
  "ripemd128_compress st chunk =
     (case st of (h0, h1, h2, h3) \<Rightarrow>
      case foldl (rmd_step (rmd_words chunk)) (st, st) [0..<64] of
        ((a, b, c, d), (aa, bb, cc, dd)) \<Rightarrow> (h1 + c + dd, h2 + d + aa, h3 + a + bb, h0 + b + cc))"

definition rmd_tail :: "bytes \<Rightarrow> nat \<Rightarrow> bytes" where
  "rmd_tail remainder total_len =
     (let padded_len = (if length remainder < 56 then 64 else 128);
          bit_len = (total_len * 8) mod (u64_max + 1)
      in take (padded_len - 8) (remainder @ [0x80] @ replicate 128 0) @ rev (nat_to_be 8 bit_len))"

definition ripemd128 :: "bytes \<Rightarrow> bytes" where
  "ripemd128 bs =
     (let full = length bs div 64 * 64;
          st = foldl ripemd128_compress (0x67452301, 0xefcdab89, 0x98badcfe, 0x10325476)
                 (chunks 64 (take full bs))
      in case foldl ripemd128_compress st (chunks 64 (rmd_tail (drop full bs) (length bs))) of
           (a, b, c, d) \<Rightarrow> concat (map u32_to_le [a, b, c, d]))"

section \<open>Salsa20/8\<close>

definition quarter_round :: "u32 list \<Rightarrow> nat \<Rightarrow> nat \<Rightarrow> nat \<Rightarrow> nat \<Rightarrow> u32 list" where
  "quarter_round s0 a b c d =
     (let s1 = s0[b := s0 ! b XOR word_rotl 7 (s0 ! a + s0 ! d)];
          s2 = s1[c := s1 ! c XOR word_rotl 9 (s1 ! b + s1 ! a)];
          s3 = s2[d := s2 ! d XOR word_rotl 13 (s2 ! c + s2 ! b)]
      in s3[a := s3 ! a XOR word_rotl 18 (s3 ! d + s3 ! c)])"

definition column_round :: "u32 list \<Rightarrow> u32 list" where
  "column_round st =
     quarter_round (quarter_round (quarter_round (quarter_round st 0 4 8 12) 5 9 13 1) 10 14 2 6) 15 3 7 11"

definition row_round :: "u32 list \<Rightarrow> u32 list" where
  "row_round st =
     quarter_round (quarter_round (quarter_round (quarter_round st 0 1 2 3) 5 6 7 4) 10 11 8 9) 15 12 13 14"

definition double_round :: "u32 list \<Rightarrow> u32 list" where
  "double_round st = row_round (column_round st)"

text \<open>The constant \<open>b"expand 16-byte k"\<close> read as four little-endian words.\<close>

definition salsa_constants :: "bytes" where
  "salsa_constants = map (\<lambda>c. word_of_nat (of_char c)) ''expand 16-byte k''"

definition le_word_at :: "bytes \<Rightarrow> nat \<Rightarrow> u32" where
  "le_word_at bs i = u32_from_le (slice i (i + 4) bs)"

definition salsa20_8_block :: "bytes \<Rightarrow> nat \<Rightarrow> bytes" where
  "salsa20_8_block key counter =
     (let k0 = le_word_at key 0; k1 = le_word_at key 4; k2 = le_word_at key 8; k3 = le_word_at key 12;
          state = [le_word_at salsa_constants 0, k0, k1, k2, k3, le_word_at salsa_constants 4, 0, 0,
                   word_of_nat counter, word_of_nat (counter div 2 ^ 32),
                   le_word_at salsa_constants 8, k0, k1, k2, k3, le_word_at salsa_constants 12];
          working = (double_round ^^ 4) state
      in concat (map u32_to_le (map2 (+) working state)))"

text \<open>\<open>data.chunks_mut(64).enumerate()\<close> as a loop over the chunks with their counter.\<close>

fun xor_chunks :: "bytes \<Rightarrow> nat \<Rightarrow> bytes list \<Rightarrow> bytes list" where
  "xor_chunks key counter [] = []"
| "xor_chunks key counter (chunk # cs) =
     map2 (XOR) chunk (salsa20_8_block key counter) # xor_chunks key (Suc counter) cs"

definition salsa20_8_xor :: "bytes \<Rightarrow> bytes \<Rightarrow> bytes" where
  "salsa20_8_xor data key = concat (xor_chunks key 0 (chunks 64 data))"

section \<open>Sizes\<close>

lemma length_quarter_round [simp]: "length (quarter_round s a b c d) = length s"
  by (simp add: quarter_round_def Let_def)

lemma length_double_round [simp]: "length (double_round s) = length s"
  by (simp add: double_round_def row_round_def column_round_def)

lemma length_double_round_pow [simp]: "length ((double_round ^^ n) s) = length s"
  by (induction n) simp_all

lemma length_concat_u32_to_le: "length (concat (map u32_to_le ws)) = 4 * length ws"
  by (induction ws) simp_all

lemma length_le_words_of_16: "length xs = 16 \<Longrightarrow> length ys = 16 \<Longrightarrow>
    length (concat (map u32_to_le (map2 (+) xs ys))) = 64"
  by (simp only: length_concat_u32_to_le length_map length_zip)

lemma length_salsa20_8_block [simp]: "length (salsa20_8_block key counter) = 64"
  unfolding salsa20_8_block_def Let_def by (rule length_le_words_of_16) simp_all

lemma length_ripemd128 [simp]: "length (ripemd128 bs) = 16"
  by (simp add: ripemd128_def Let_def split: prod.splits)

section \<open>Keystream involution\<close>

lemma map2_xor_twice:
  fixes xs ks :: "u8 list"
  assumes "length xs \<le> length ks"
  shows "map2 (XOR) (map2 (XOR) xs ks) ks = xs"
  using assms
proof (induction xs arbitrary: ks)
  case (Cons x xs)
  then show ?case by (cases ks) (auto simp: xor.assoc)
qed simp

text \<open>Chunks whose members are all full, the last one excepted, are reproduced by \<open>chunks\<close>.\<close>

fun chunked :: "nat \<Rightarrow> 'a list list \<Rightarrow> bool" where
  "chunked n [] = True"
| "chunked n [c] = (c \<noteq> [] \<and> length c \<le> n)"
| "chunked n (c # cs) = (length c = n \<and> c \<noteq> [] \<and> chunked n cs)"

lemma chunked_Cons: "chunked n (c # cs) \<longleftrightarrow>
    c \<noteq> [] \<and> length c \<le> n \<and> (cs \<noteq> [] \<longrightarrow> length c = n) \<and> chunked n cs"
  by (cases cs) auto

lemma chunked_chunks: "0 < n \<Longrightarrow> chunked n (chunks n xs)"
proof (induction n xs rule: chunks.induct)
  case (1 n xs)
  have nil: "chunks n [] = []" by (subst chunks.simps) simp
  then have "chunks n (drop n xs) \<noteq> [] \<Longrightarrow> n < length xs" by (cases "length xs \<le> n") auto
  then show ?case
    using 1 by (subst chunks.simps) (auto simp: chunked_Cons)
qed

lemma chunks_concat: "chunked n cs \<Longrightarrow> 0 < n \<Longrightarrow> chunks n (concat cs) = cs"
proof (induction cs)
  case Nil
  then show ?case by (subst chunks.simps) simp
next
  case (Cons c cs)
  then have ih: "chunks n (concat cs) = cs" and c: "c \<noteq> []" "length c \<le> n"
    "cs \<noteq> [] \<longrightarrow> length c = n" by (auto simp: chunked_Cons)
  have "take n (c @ concat cs) = c \<and> drop n (c @ concat cs) = concat cs"
    using c by (cases "cs = []") auto
  then show ?case using ih c Cons.prems by (subst chunks.simps) simp
qed

lemma xor_chunks_chunked:
  assumes "chunked 64 cs" shows "chunked 64 (xor_chunks key i cs)"
  using assms
proof (induction key i cs rule: xor_chunks.induct)
  case (2 key i c cs)
  then have c: "c \<noteq> []" "length c \<le> 64" "cs \<noteq> [] \<longrightarrow> length c = 64"
    and ih: "chunked 64 (xor_chunks key (Suc i) cs)" by (auto simp: chunked_Cons)
  have "xor_chunks key (Suc i) cs = [] \<longleftrightarrow> cs = []" by (cases cs) auto
  with c ih show ?case by (auto simp: chunked_Cons simp flip: length_greater_0_conv)
qed simp

lemma xor_chunks_twice:
  "chunked 64 cs \<Longrightarrow> xor_chunks key i (xor_chunks key i cs) = cs"
proof (induction key i cs rule: xor_chunks.induct)
  case (2 key i c cs)
  then show ?case by (auto simp: chunked_Cons map2_xor_twice)
qed simp

lemma salsa20_8_xor_twice: "salsa20_8_xor (salsa20_8_xor data key) key = data"
proof -
  let ?cs = "chunks 64 data"
  have ch: "chunked 64 ?cs" by (simp add: chunked_chunks)
  have "chunks 64 (salsa20_8_xor data key) = xor_chunks key 0 ?cs"
    unfolding salsa20_8_xor_def by (rule chunks_concat) (use xor_chunks_chunked [OF ch] in simp_all)
  then have "salsa20_8_xor (salsa20_8_xor data key) key = concat (xor_chunks key 0 (xor_chunks key 0 ?cs))"
    by (simp add: salsa20_8_xor_def)
  also have "\<dots> = concat ?cs" by (simp add: xor_chunks_twice [OF ch])
  also have "\<dots> = data" by (simp add: concat_chunks)
  finally show ?thesis .
qed

lemma length_xor_chunks: "chunked 64 cs \<Longrightarrow> length (concat (xor_chunks key i cs)) = length (concat cs)"
  by (induction key i cs rule: xor_chunks.induct) (auto simp: chunked_Cons)

lemma length_salsa20_8_xor [simp]: "length (salsa20_8_xor data key) = length data"
  by (simp add: salsa20_8_xor_def length_xor_chunks chunked_chunks concat_chunks)

section \<open>Hexadecimal round trip\<close>

definition hex_digit :: "u8 \<Rightarrow> u8" where
  "hex_digit n = (if n < 10 then n + 48 else n - 10 + 97)"

definition is_hex_digit :: "u8 \<Rightarrow> bool" where
  "is_hex_digit b \<longleftrightarrow> 48 \<le> b \<and> b \<le> 57 \<or> 97 \<le> b \<and> b \<le> 102 \<or> 65 \<le> b \<and> b \<le> 70"

fun encode_hex :: "bytes \<Rightarrow> bytes" where
  "encode_hex [] = []"
| "encode_hex (b # bs) = hex_digit (drop_bit 4 b) # hex_digit (b AND 15) # encode_hex bs"

lemma hex_nibble_ok: "(\<exists>v. hex_nibble b = Inr v) \<longleftrightarrow> is_hex_digit b"
  by (auto simp: hex_nibble_def is_hex_digit_def)

lemma length_encode_hex [simp]: "length (encode_hex bs) = 2 * length bs"
  by (induction bs) simp_all

lemma decode_hex_pairs_ok:
  "even (length digits) \<Longrightarrow> (\<exists>v. decode_hex_pairs digits = Inr v) \<longleftrightarrow> list_all is_hex_digit digits"
proof (induction digits rule: decode_hex_pairs.induct)
  case (1 h l rest)
  then have "(\<exists>v. decode_hex_pairs rest = Inr v) \<longleftrightarrow> list_all is_hex_digit rest" by simp
  then show ?case using hex_nibble_ok [of h] hex_nibble_ok [of l]
    by (cases "hex_nibble h"; cases "hex_nibble l"; cases "decode_hex_pairs rest") auto
qed simp_all

lemma decode_hex_16_ok:
  "(\<exists>v. decode_hex_16 digits = Inr v) \<longleftrightarrow> length digits = 32 \<and> list_all is_hex_digit digits"
  using decode_hex_pairs_ok [of digits] by (auto simp: decode_hex_16_def)

lemma hex_nibble_digit:
  assumes "n < 16" shows "hex_nibble (hex_digit n) = Inr n"
proof -
  have "unat n < 16" using assms by (simp add: word_less_nat_alt)
  then have "unat n \<in> set [0..<16]" by simp
  moreover have "\<forall>k \<in> set [0..<16]. hex_nibble (hex_digit (word_of_nat k)) = Inr (word_of_nat k)"
    by code_simp
  ultimately have "hex_nibble (hex_digit (word_of_nat (unat n))) = Inr (word_of_nat (unat n))" by blast
  then show ?thesis by simp
qed

lemma join_nibbles: "push_bit 4 (drop_bit 4 b) OR (b AND 15) = (b :: u8)"
proof (rule bit_word_eqI)
  fix n assume n: "n < LENGTH(8)"
  have "bit (15 :: u8) n \<longleftrightarrow> n < 4"
  proof -
    have "(15 :: u8) = mask 4" by (simp add: mask_eq_exp_minus_1)
    then show ?thesis using n by (simp only: bit_mask_iff) simp
  qed
  with n show "bit (push_bit 4 (drop_bit 4 b) OR (b AND 15)) n = bit b n"
    by (auto simp: bit_or_iff bit_and_iff bit_push_bit_iff bit_drop_bit_eq)
qed

lemma nibble_bounds: "drop_bit 4 (b :: u8) < 16" "b AND 15 < (16 :: u8)"
proof -
  have "unat (drop_bit 4 b) = unat b div 16" by (simp only: drop_bit_eq_div unat_div) simp
  then have "unat (drop_bit 4 b) < 16" using unat_u8_less [of b] by simp
  then show "drop_bit 4 b < 16" by (simp add: word_less_nat_alt)
  have "b AND 15 \<le> 15" by (rule word_and_le1)
  then show "b AND 15 < (16 :: u8)" by (simp add: word_le_nat_alt word_less_nat_alt)
qed

lemma decode_encode_hex: "decode_hex_pairs (encode_hex bs) = Inr bs"
  by (induction bs) (simp_all add: hex_nibble_digit nibble_bounds join_nibbles)

lemma decode_encode_hex_16: "length bs = 16 \<Longrightarrow> decode_hex_16 (encode_hex bs) = Inr bs"
  by (simp add: decode_hex_16_def decode_encode_hex)

end
