(* ===== verification/V2_Crypto.thy ===== *)
theory V2_Crypto
  imports Crypto Types
begin

text \<open>
  Version 2 keyword-section encryption (\<^verbatim>\<open>src/src/format/v2/crypto.rs\<close>): the byte cipher of
  the keyword index, keyed by the block checksum and chained through the previous ciphertext byte,
  and the passcode-derived Salsa20/8 key of the keyword header. The interface \<open>byte_cipher\<close>
  states what the keyword parser relies on; it is interpreted for both ciphers.
\<close>

section \<open>The keyword-index cipher\<close>

definition index_key :: "u32 \<Rightarrow> bytes" where
  "index_key checksum = ripemd128 (u32_to_be checksum @ [0x95, 0x36, 0x00, 0x00])"

text \<open>The loop over \<open>iter_mut().enumerate()\<close>; \<open>index as u8\<close> truncates.\<close>

fun decrypt_index_loop :: "bytes \<Rightarrow> nat \<Rightarrow> u8 \<Rightarrow> bytes \<Rightarrow> bytes" where
  "decrypt_index_loop key index previous [] = []"
| "decrypt_index_loop key index previous (cipher # rest) =
     (word_rotl 4 cipher XOR word_of_nat index XOR key ! (index mod length key) XOR previous)
       # decrypt_index_loop key (Suc index) cipher rest"

definition decrypt_keyword_index_block :: "u32 \<Rightarrow> bytes \<Rightarrow> bytes" where
  "decrypt_keyword_index_block checksum data = decrypt_index_loop (index_key checksum) 0 0x36 data"

fun encrypt_index_loop :: "bytes \<Rightarrow> nat \<Rightarrow> u8 \<Rightarrow> bytes \<Rightarrow> bytes" where
  "encrypt_index_loop key index previous [] = []"
| "encrypt_index_loop key index previous (plain # rest) =
     (let byte = word_rotl 4 (plain XOR word_of_nat index XOR key ! (index mod length key) XOR previous)
      in byte # encrypt_index_loop key (Suc index) byte rest)"

definition encrypt_keyword_index_block :: "u32 \<Rightarrow> bytes \<Rightarrow> bytes" where
  "encrypt_keyword_index_block checksum data = encrypt_index_loop (index_key checksum) 0 0x36 data"

section \<open>The keyword-header key\<close>

definition derive_keyword_header_key :: "passcode \<Rightarrow> bytes result" where
  "derive_keyword_header_key p =
     and_then (decode_hex_16 (reg_code_hex p)) (\<lambda>encrypted_hash.
     Inr (salsa20_8_xor encrypted_hash (ripemd128 (user_id p))))"

definition decrypt_keyword_header_block :: "bytes \<Rightarrow> passcode \<Rightarrow> bytes result" where
  "decrypt_keyword_header_block data p =
     and_then (derive_keyword_header_key p) (\<lambda>key. Inr (salsa20_8_xor data key))"

section \<open>Round trips\<close>

lemma rotl_rotl_u8: "word_rotl 4 (word_rotl 4 (b :: u8)) = b"
proof (rule bit_word_eqI)
  fix n assume "n < LENGTH(8)"
  then have n: "n < 8" by simp
  then have "((n + 4) mod 8 + 4) mod 8 = n" by presburger
  with n show "bit (word_rotl 4 (word_rotl 4 b)) n = bit b n"
    by (simp add: bit_word_rotl_iff)
qed

lemma xor_cancel: "(p XOR i XOR k XOR q) XOR i XOR k XOR q = (p :: u8)"
  by (rule bit_word_eqI) (auto simp: bit_xor_iff)

lemma decrypt_encrypt_loop:
  "decrypt_index_loop key i prev (encrypt_index_loop key i prev bs) = bs"
  by (induction bs arbitrary: i prev) (simp_all add: Let_def rotl_rotl_u8 xor_cancel)

lemma encrypt_decrypt_loop:
  "encrypt_index_loop key i prev (decrypt_index_loop key i prev bs) = bs"
  by (induction bs arbitrary: i prev) (simp_all add: Let_def rotl_rotl_u8 xor_cancel)

lemma length_decrypt_index_loop [simp]: "length (decrypt_index_loop key i prev bs) = length bs"
  by (induction bs arbitrary: i prev) simp_all

lemma length_encrypt_index_loop [simp]: "length (encrypt_index_loop key i prev bs) = length bs"
  by (induction bs arbitrary: i prev) (simp_all add: Let_def)

lemma length_decrypt_keyword_index_block [simp]:
  "length (decrypt_keyword_index_block c bs) = length bs"
  by (simp add: decrypt_keyword_index_block_def)

text \<open>The key is never empty, so \<open>index % key.len()\<close> is in range.\<close>

lemma length_index_key [simp]: "length (index_key c) = 16"
  by (simp add: index_key_def)

locale byte_cipher =
  fixes enc :: "'k \<Rightarrow> bytes \<Rightarrow> bytes" and dec :: "'k \<Rightarrow> bytes \<Rightarrow> bytes"
  assumes dec_enc: "dec k (enc k bs) = bs"
    and enc_dec: "enc k (dec k bs) = bs"
    and dec_length: "length (dec k bs) = length bs"
begin

lemma dec_inject: "dec k xs = dec k ys \<longleftrightarrow> xs = ys"
  using enc_dec by metis

lemma enc_length: "length (enc k bs) = length bs"
  using dec_length [of k "enc k bs"] by (simp add: dec_enc)

lemma dec_iff: "dec k xs = ys \<longleftrightarrow> xs = enc k ys"
  using enc_dec dec_enc by metis

end

interpretation index_cipher: byte_cipher encrypt_keyword_index_block decrypt_keyword_index_block
  by unfold_locales
    (simp_all add: encrypt_keyword_index_block_def decrypt_keyword_index_block_def
      decrypt_encrypt_loop encrypt_decrypt_loop)

interpretation header_cipher: byte_cipher "\<lambda>k bs. salsa20_8_xor bs k" "\<lambda>k bs. salsa20_8_xor bs k"
  by unfold_locales (simp_all add: salsa20_8_xor_twice)

lemma length_decrypt_keyword_header_block:
  "decrypt_keyword_header_block bs p = Inr out \<Longrightarrow> length out = length bs"
  by (auto simp: decrypt_keyword_header_block_def)

text \<open>A registration code that hides a given 16-byte key from a given user.\<close>

lemma header_key_for_code:
  assumes "length k = 16" and "code = salsa20_8_xor k (ripemd128 user)"
  shows "derive_keyword_header_key \<lparr>reg_code_hex = encode_hex code, user_id = user\<rparr> = Inr k"
  using assms by (simp add: derive_keyword_header_key_def decode_encode_hex_16 salsa20_8_xor_twice)

end
