(* ===== verification/Keyword_Sections.thy ===== *)
theory Keyword_Sections
  imports Descriptors Cursor Compression V2_Crypto
begin

text \<open>
  The keyword sections of both wire versions (\<^verbatim>\<open>src/src/format/v1/keyword.rs\<close>,
  \<^verbatim>\<open>src/src/format/v2/keyword.rs\<close>). Version 1 stores its index raw with one-byte summary
  lengths; version 2 has a checksummed and possibly encrypted header, a compressed and possibly
  encrypted index, and a legacy variant recognised by a byte-swapped checksum. What the versions
  share is written once: the count checks, the row loop over an index, the size checks of a block
  and the reconciliation of totals. A row reader is an argument of the loop; its contract is the
  locale \<open>key_row_grammar\<close>, interpreted for the reader of each version.

  The main result is \<open>keyword_section_ok\<close>: blocks tile the block section and the entry
  ordinals, every block is within the limits, and the memory that stays reserved covers the decoded
  summaries.
\<close>

record keyword_section =
  ks_num_entries :: nat
  ks_blocks :: "key_block_descriptor list"
  ks_record_section_offset :: nat
  ks_retained_bytes :: nat
  ks_header :: section_range
  ks_index :: section_range
  ks_block_range :: section_range

section \<open>Checks shared by the versions\<close>

definition validate_keyword_header_counts ::
    "nat result \<Rightarrow> nat \<Rightarrow> nat \<Rightarrow> nat \<Rightarrow> limits \<Rightarrow> nat result" where
  "validate_keyword_header_counts min_row num_blocks num_entries key_info_len lim =
     (if num_entries < num_blocks
      then Inl (InvalidData (''keyword block count '' @ dec num_blocks @ '' exceeds entry count '' @
                  dec num_entries))
      else
      and_then min_row (\<lambda>row_len.
      and_then (mul_u64 num_blocks row_len ''minimum keyword index length overflow'') (\<lambda>minimum_index_len.
      if key_info_len < minimum_index_len
      then Inl (InvalidData (''keyword index length '' @ dec key_info_len @ '' cannot contain '' @
                  dec num_blocks @ '' blocks''))
      else
      and_then (checked_usize num_blocks ''keyword block count'') (\<lambda>num_blocks.
      and_then (ok_or (checked_mul num_blocks size_of_key_block_descriptor)
                  (InvalidFormat ''keyword block metadata size overflow'')) (\<lambda>metadata_bytes.
      and_then (ensure_usize_limit ''keyword_block_metadata_bytes'' metadata_bytes
                  (block_metadata_bytes lim)) (\<lambda>_.
      Inr num_blocks))))))"

text \<open>A key row is a record offset of \<open>offset_bytes\<close> bytes and a terminated key.\<close>

definition validate_key_block_sizes ::
    "nat \<Rightarrow> nat \<Rightarrow> nat \<Rightarrow> nat \<Rightarrow> text_encoding \<Rightarrow> limits \<Rightarrow> unit result" where
  "validate_key_block_sizes offset_bytes entry_count comp_size decomp_size e lim =
     (if entry_count = 0 then Inl (InvalidData ''keyword blocks must contain at least one entry'')
      else
      and_then (ensure_u64_ceiling ''keyword_block_entries'' entry_count (key_block_entries lim)) (\<lambda>_.
      and_then (ensure_u64_limit ''keyword_block_compressed_bytes'' comp_size
                  (compressed_block_bytes lim)) (\<lambda>_.
      and_then (ensure_u64_limit ''keyword_block_decompressed_bytes'' decomp_size
                  (decompressed_block_bytes lim)) (\<lambda>_.
      if comp_size < 8
      then Inl (InvalidData (''keyword block is '' @ dec comp_size @ '' bytes; at least 8 are required''))
      else
      and_then (add_u64 offset_bytes (unit_size e) ''minimum keyword entry size overflow'')
        (\<lambda>minimum_entry_bytes.
      and_then (mul_u64 entry_count minimum_entry_bytes ''minimum keyword block size overflow'')
        (\<lambda>minimum_decompressed_len.
      if decomp_size < minimum_decompressed_len
      then Inl (InvalidData (''keyword block declares '' @ dec entry_count @ '' entries in '' @
                  dec decomp_size @ '' decompressed bytes''))
      else Inr ()))))))"

record key_row_fields =
  krf_entry_count :: nat
  krf_first_key :: rstring
  krf_last_key :: rstring
  krf_comp_size :: nat
  krf_decomp_size :: nat

type_synonym row_reader = "cursor \<Rightarrow> (key_row_fields \<times> cursor) result"

fun keyword_rows ::
    "row_reader \<Rightarrow> (nat \<Rightarrow> nat \<Rightarrow> nat \<Rightarrow> unit result) \<Rightarrow> nat \<Rightarrow> cursor \<Rightarrow> nat \<Rightarrow> nat \<Rightarrow>
     (key_block_descriptor list \<times> cursor) result" where
  "keyword_rows read_row validate 0 cur comp_offset entry_start_index = Inr ([], cur)"
| "keyword_rows read_row validate (Suc n) cur comp_offset entry_start_index =
     and_then (read_row cur) (\<lambda>(row, cur).
     and_then (validate (krf_entry_count row) (krf_comp_size row) (krf_decomp_size row)) (\<lambda>_.
     and_then (add_u64 comp_offset (krf_comp_size row) ''keyword block offset overflow'')
       (\<lambda>next_comp_offset.
     and_then (add_u64 entry_start_index (krf_entry_count row) ''keyword entry index overflow'')
       (\<lambda>next_entry_start_index.
     and_then (keyword_rows read_row validate n cur next_comp_offset next_entry_start_index)
       (\<lambda>(blocks, cur).
     Inr (\<lparr>kb_entry_count = krf_entry_count row, kb_entry_start_index = entry_start_index,
           kb_first_key = krf_first_key row, kb_last_key = krf_last_key row,
           kb_comp_offset = comp_offset, kb_comp_size = krf_comp_size row,
           kb_decomp_size = krf_decomp_size row\<rparr> # blocks, cur))))))"

definition parse_keyword_index_entries ::
    "row_reader \<Rightarrow> (nat \<Rightarrow> nat \<Rightarrow> nat \<Rightarrow> unit result) \<Rightarrow> nat result \<Rightarrow> bytes \<Rightarrow> nat \<Rightarrow> nat \<Rightarrow>
     key_block_descriptor list result" where
  "parse_keyword_index_entries read_row validate min_row bs num_blocks key_blocks_offset =
     and_then min_row (\<lambda>row_len.
     and_then (checked_usize row_len ''minimum keyword index row length'') (\<lambda>row_len.
     and_then (ok_or (checked_mul num_blocks row_len)
                 (InvalidFormat ''minimum keyword index length overflow'')) (\<lambda>minimum_len.
     if length bs < minimum_len
     then Inl (InvalidData (''keyword index has '' @ dec (length bs) @ '' bytes but '' @ dec num_blocks @
                 '' blocks require at least '' @ dec minimum_len))
     else
     and_then (try_reserve_vec size_of_key_block_descriptor 0 num_blocks ''keyword block metadata'') (\<lambda>_.
     and_then (keyword_rows read_row validate num_blocks (cursor_new bs) key_blocks_offset 0) (\<lambda>(blocks, cur).
     if \<not> cur_is_empty cur
     then Inl (InvalidData (''keyword index has '' @ dec (remaining cur) @ '' trailing bytes''))
     else Inr blocks)))))"

text \<open>The entry total is read off the last block, the compressed total is a checked sum.\<close>

definition last_entry_end :: "key_block_descriptor list \<Rightarrow> nat result" where
  "last_entry_end blocks =
     (if blocks = [] then Inr 0
      else add_u64 (kb_entry_start_index (last blocks)) (kb_entry_count (last blocks))
             ''keyword entry count overflow'')"

fun sum_comp_sizes :: "nat \<Rightarrow> key_block_descriptor list \<Rightarrow> nat result" where
  "sum_comp_sizes acc [] = Inr acc"
| "sum_comp_sizes acc (b # bs) =
     and_then (add_u64 acc (kb_comp_size b) ''keyword blocks length overflow'') (\<lambda>acc. sum_comp_sizes acc bs)"

fun ensure_block_ranges :: "file_source \<Rightarrow> key_block_descriptor list \<Rightarrow> unit result" where
  "ensure_block_ranges src [] = Inr ()"
| "ensure_block_ranges src (b # bs) =
     and_then (ensure_range src (kb_comp_offset b) (kb_comp_size b) ''keyword block'') (\<lambda>_.
     ensure_block_ranges src bs)"

definition reconcile_keyword_blocks ::
    "file_source \<Rightarrow> nat \<Rightarrow> nat \<Rightarrow> key_block_descriptor list \<Rightarrow> unit result" where
  "reconcile_keyword_blocks src num_entries key_blocks_len blocks =
     and_then (last_entry_end blocks) (\<lambda>total_entries.
     if total_entries \<noteq> num_entries
     then Inl (InvalidData (''keyword entry count mismatch: header='' @ dec num_entries @
                 '', summed='' @ dec total_entries))
     else
     and_then (sum_comp_sizes 0 blocks) (\<lambda>total_comp.
     if total_comp \<noteq> key_blocks_len
     then Inl (InvalidData (''keyword blocks length mismatch: header='' @ dec key_blocks_len @
                 '', summed='' @ dec total_comp))
     else ensure_block_ranges src blocks))"

text \<open>The bytes that stay reserved for the descriptors and their decoded summaries.\<close>

definition keyword_retained_bytes :: "externals \<Rightarrow> text_encoding \<Rightarrow> nat \<Rightarrow> nat \<Rightarrow> nat result" where
  "keyword_retained_bytes X e index_len num_blocks =
     and_then (max_decoded_len X e index_len) (\<lambda>decoded_summary_bytes.
     and_then (ok_or (checked_mul num_blocks size_of_key_block_descriptor)
                 (InvalidFormat ''keyword metadata size overflow'')) (\<lambda>descriptor_bytes.
     ok_or (checked_add decoded_summary_bytes descriptor_bytes)
       (InvalidFormat ''keyword metadata size overflow'')))"

section \<open>Version 1\<close>

definition v1_read_summary ::
    "externals \<Rightarrow> cursor \<Rightarrow> text_encoding \<Rightarrow> string \<Rightarrow> (rstring \<times> cursor) result" where
  "v1_read_summary X cur e context =
     and_then (read_u8 cur context) (\<lambda>(units, cur).
     and_then (ok_or (checked_mul units (unit_size e))
                 (InvalidFormat ''keyword summary length overflow'')) (\<lambda>len.
     and_then (read_bytes cur len context) (\<lambda>(bs, cur).
     and_then (decode X e bs context) (\<lambda>s. Inr (s, cur)))))"

definition v1_read_row :: "externals \<Rightarrow> text_encoding \<Rightarrow> row_reader" where
  "v1_read_row X e cur =
     and_then (read_u32_be_widened cur ''keyword block entry count'') (\<lambda>(entry_count, cur).
     and_then (v1_read_summary X cur e ''keyword block first key'') (\<lambda>(first_key, cur).
     and_then (v1_read_summary X cur e ''keyword block last key'') (\<lambda>(last_key, cur).
     and_then (read_u32_be_widened cur ''keyword block compressed size'') (\<lambda>(comp_size, cur).
     and_then (read_u32_be_widened cur ''keyword block decompressed size'') (\<lambda>(decomp_size, cur).
     Inr (\<lparr>krf_entry_count = entry_count, krf_first_key = first_key, krf_last_key = last_key,
           krf_comp_size = comp_size, krf_decomp_size = decomp_size\<rparr>, cur))))))"

text \<open>\<open>MIN_KEY_INFO_ROW_LEN\<close>: a count, two empty summaries and two sizes.\<close>

definition v1_min_key_info_row_len :: nat where
  "v1_min_key_info_row_len = 4 + 1 + 1 + 4 + 4"

definition v1_parse_keyword_section ::
    "externals \<Rightarrow> file_source \<Rightarrow> header \<Rightarrow> text_encoding \<Rightarrow> nat \<Rightarrow> open_options \<Rightarrow> keyword_section mem" where
  "v1_parse_keyword_section X src hdr e keyword_section_offset opts =
     (if has_keyword_header hdr \<or> has_keyword_index hdr
      then lift (Inl (Unsupported ''encrypted MDict version 1 keyword sections''))
      else
      attempt (checked_usize 16 ''keyword section header length'') (\<lambda>header_len.
      scoped header_len (
      attempt (read_exact_at src keyword_section_offset header_len ''keyword section header'') (\<lambda>raw_header.
      attempt (read_u32_be_widened (cursor_new raw_header) ''keyword num_blocks'') (\<lambda>(num_blocks, cur).
      attempt (read_u32_be_widened cur ''keyword num_entries'') (\<lambda>(num_entries, cur).
      attempt (read_u32_be_widened cur ''keyword index length'') (\<lambda>(key_info_len, cur).
      attempt (read_u32_be_widened cur ''keyword blocks length'') (\<lambda>(key_blocks_len, cur).
      attempt (ensure_u64_limit ''key_index_bytes'' key_info_len (key_index_bytes (opt_limits opts))) (\<lambda>_.
      attempt (validate_keyword_header_counts (Inr v1_min_key_info_row_len) num_blocks num_entries
                 key_info_len (opt_limits opts)) (\<lambda>num_blocks.
      attempt (add_u64 keyword_section_offset 16 ''keyword index offset overflow'') (\<lambda>key_info_offset.
      attempt (add_u64 key_info_offset key_info_len ''keyword blocks offset overflow'') (\<lambda>key_blocks_offset.
      attempt (add_u64 key_blocks_offset key_blocks_len ''record section offset overflow'')
        (\<lambda>record_section_offset.
      attempt (ensure_range src key_info_offset key_info_len ''keyword index'') (\<lambda>_.
      attempt (ensure_range src key_blocks_offset key_blocks_len ''keyword block section'') (\<lambda>_.
      attempt (checked_usize key_info_len ''keyword index length'') (\<lambda>key_info_len_usize.
      scoped key_info_len_usize (
      attempt (read_exact_at src key_info_offset key_info_len_usize ''keyword index'') (\<lambda>key_info.
      attempt (keyword_retained_bytes X e key_info_len_usize num_blocks) (\<lambda>retained_bytes.
      scoped retained_bytes (
      attempt (parse_keyword_index_entries (v1_read_row X e)
                 (\<lambda>n c d. validate_key_block_sizes 4 n c d e (opt_limits opts))
                 (Inr v1_min_key_info_row_len) key_info num_blocks key_blocks_offset) (\<lambda>blocks.
      attempt (reconcile_keyword_blocks src num_entries key_blocks_len blocks) (\<lambda>_.
      mret \<lparr>ks_num_entries = num_entries, ks_blocks = blocks,
            ks_record_section_offset = record_section_offset, ks_retained_bytes = retained_bytes,
            ks_header = section_range_new keyword_section_offset 16,
            ks_index = section_range_new key_info_offset key_info_len,
            ks_block_range = section_range_new key_blocks_offset key_blocks_len\<rparr>))))))))))))))))))))))"

section \<open>Version 2\<close>

datatype keyword_index_layout =
  Canonical | LegacyLittleEndianChecksumWithoutSummaryTerminators

definition detect_keyword_index_layout ::
    "bytes \<Rightarrow> bytes \<Rightarrow> checksum_policy \<Rightarrow> keyword_index_layout result" where
  "detect_keyword_index_layout hdr checksum_bytes policy =
     (let actual = adler32 hdr; canonical_checksum = u32_from_be checksum_bytes in
      if actual = canonical_checksum then Inr Canonical
      else if actual = u32_from_le checksum_bytes
      then Inr LegacyLittleEndianChecksumWithoutSummaryTerminators
      else if policy = Skip then Inr Canonical
      else Inl (ChecksumMismatch ''keyword section header'' canonical_checksum actual))"

definition minimum_keyword_index_entry_bytes ::
    "text_encoding \<Rightarrow> keyword_index_layout \<Rightarrow> nat result" where
  "minimum_keyword_index_entry_bytes e layout =
     and_then (ok_or (checked_mul (unit_size e) (case layout of Canonical \<Rightarrow> 2 | _ \<Rightarrow> 0))
                 (InvalidFormat ''keyword index entry size overflow'')) (\<lambda>terminators.
     ok_or (checked_add 28 terminators) (InvalidFormat ''keyword index entry size overflow''))"

text \<open>One length-prefixed summary, followed in the canonical layout by a zero unit.\<close>

definition v2_skip_terminator ::
    "text_encoding \<Rightarrow> keyword_index_layout \<Rightarrow> string \<Rightarrow> string \<Rightarrow> cursor \<Rightarrow> cursor result" where
  "v2_skip_terminator e layout context bad_terminator cur =
     (if layout = Canonical then
        and_then (read_bytes cur (unit_size e) context) (\<lambda>(terminator, cur).
        if list_ex (\<lambda>b. b \<noteq> 0) terminator then Inl (InvalidFormat bad_terminator) else Inr cur)
      else Inr cur)"

definition v2_read_summary ::
    "externals \<Rightarrow> text_encoding \<Rightarrow> keyword_index_layout \<Rightarrow> string \<Rightarrow> string \<Rightarrow> cursor \<Rightarrow>
     (rstring \<times> cursor) result" where
  "v2_read_summary X e layout context bad_terminator cur =
     and_then (read_u16_be cur (context @ '' size'')) (\<lambda>(units, cur).
     and_then (ok_or (checked_mul units (unit_size e)) (InvalidFormat (context @ '' length overflow''))) (\<lambda>len.
     and_then (read_bytes cur len context) (\<lambda>(bs, cur).
     and_then (decode X e bs context) (\<lambda>s.
     and_then (v2_skip_terminator e layout (context @ '' terminator'') bad_terminator cur) (\<lambda>cur.
     Inr (s, cur))))))"

definition v2_read_row :: "externals \<Rightarrow> text_encoding \<Rightarrow> keyword_index_layout \<Rightarrow> row_reader" where
  "v2_read_row X e layout cur =
     and_then (read_u64_be cur ''keyword block entry count'') (\<lambda>(entry_count, cur).
     and_then (v2_read_summary X e layout ''keyword block first key'' ''invalid keyword block first-key terminator'' cur)
       (\<lambda>(first_key, cur).
     and_then (v2_read_summary X e layout ''keyword block last key'' ''invalid keyword block last-key terminator'' cur)
       (\<lambda>(last_key, cur).
     and_then (read_u64_be cur ''keyword block compressed size'') (\<lambda>(comp_size, cur).
     and_then (read_u64_be cur ''keyword block decompressed size'') (\<lambda>(decomp_size, cur).
     Inr (\<lparr>krf_entry_count = entry_count, krf_first_key = first_key, krf_last_key = last_key,
           krf_comp_size = comp_size, krf_decomp_size = decomp_size\<rparr>, cur))))))"

definition v2_header_plain :: "header \<Rightarrow> open_options \<Rightarrow> bytes \<Rightarrow> bytes result" where
  "v2_header_plain hdr opts raw =
     (if has_keyword_header hdr
      then and_then (ok_or (opt_passcode opts) MissingPasscode) (\<lambda>p. decrypt_keyword_header_block raw p)
      else Inr raw)"

definition v2_index_plain :: "header \<Rightarrow> bytes \<Rightarrow> bytes result" where
  "v2_index_plain hdr bs =
     (if has_keyword_index hdr then
        if length bs < 8 then Inl (Truncated ''keyword index block'' 8 (length bs))
        else Inr (take 8 bs @ decrypt_keyword_index_block (u32_from_be (slice 4 8 bs)) (drop 8 bs))
      else Inr bs)"

definition v2_parse_keyword_section ::
    "externals \<Rightarrow> file_source \<Rightarrow> header \<Rightarrow> text_encoding \<Rightarrow> nat \<Rightarrow> open_options \<Rightarrow> keyword_section mem" where
  "v2_parse_keyword_section X src hdr e keyword_section_offset opts =
     scoped 44 (
     attempt (read_exact_at src keyword_section_offset 44 ''keyword section header'') (\<lambda>raw_header.
     let checksum_bytes = slice 40 44 raw_header in
     attempt (v2_header_plain hdr opts (take 40 raw_header)) (\<lambda>plain.
     attempt (detect_keyword_index_layout plain checksum_bytes (opt_checksum_policy opts)) (\<lambda>layout.
     attempt (read_u64_be (cursor_new plain) ''keyword num_blocks'') (\<lambda>(num_blocks, cur).
     attempt (read_u64_be cur ''keyword num_entries'') (\<lambda>(num_entries, cur).
     attempt (read_u64_be cur ''keyword index decompressed length'') (\<lambda>(key_index_decomp_len, cur).
     attempt (read_u64_be cur ''keyword index compressed length'') (\<lambda>(key_index_comp_len, cur).
     attempt (read_u64_be cur ''keyword blocks length'') (\<lambda>(key_blocks_len, cur).
     attempt (ensure_u64_limit ''key_index_decompressed_bytes'' key_index_decomp_len
                (key_index_bytes (opt_limits opts))) (\<lambda>_.
     attempt (ensure_u64_limit ''key_index_compressed_bytes'' key_index_comp_len
                (key_index_bytes (opt_limits opts))) (\<lambda>_.
     if key_index_comp_len < 8
     then lift (Inl (InvalidData (''keyword index block is '' @ dec key_index_comp_len @
                       '' bytes; at least 8 are required'')))
     else
     attempt (validate_keyword_header_counts (minimum_keyword_index_entry_bytes e layout) num_blocks
                num_entries key_index_decomp_len (opt_limits opts)) (\<lambda>num_blocks.
     attempt (add_u64 keyword_section_offset 44 ''keyword index offset overflow'') (\<lambda>key_index_offset.
     attempt (add_u64 key_index_offset key_index_comp_len ''keyword blocks offset overflow'')
       (\<lambda>key_blocks_offset.
     attempt (add_u64 key_blocks_offset key_blocks_len ''record section offset overflow'')
       (\<lambda>record_section_offset.
     attempt (ensure_range src key_index_offset key_index_comp_len ''keyword index block'') (\<lambda>_.
     attempt (ensure_range src key_blocks_offset key_blocks_len ''keyword block section'') (\<lambda>_.
     attempt (checked_usize key_index_comp_len ''keyword index compressed length'')
       (\<lambda>key_index_comp_len_usize.
     scoped key_index_comp_len_usize (
     attempt (read_exact_at src key_index_offset key_index_comp_len_usize ''keyword index block'')
       (\<lambda>key_index_bytes.
     attempt (v2_index_plain hdr key_index_bytes) (\<lambda>key_index_bytes.
     attempt (checked_usize key_index_decomp_len ''keyword index decompressed length'')
       (\<lambda>key_index_decomp_len.
     scoped key_index_decomp_len (
     attempt (keyword_retained_bytes X e key_index_decomp_len num_blocks) (\<lambda>retained_bytes.
     scoped retained_bytes (
     attempt (decode_block X ''keyword index block'' key_index_bytes key_index_decomp_len
                (opt_limits opts) (opt_checksum_policy opts)) (\<lambda>decoded.
     attempt (parse_keyword_index_entries (v2_read_row X e layout)
                (\<lambda>n c d. validate_key_block_sizes 8 n c d e (opt_limits opts))
                (minimum_keyword_index_entry_bytes e layout) decoded num_blocks key_blocks_offset) (\<lambda>blocks.
     attempt (reconcile_keyword_blocks src num_entries key_blocks_len blocks) (\<lambda>_.
     mret \<lparr>ks_num_entries = num_entries, ks_blocks = blocks,
           ks_record_section_offset = record_section_offset, ks_retained_bytes = retained_bytes,
           ks_header = section_range_new keyword_section_offset 44,
           ks_index = section_range_new key_index_offset key_index_comp_len,
           ks_block_range = section_range_new key_blocks_offset key_blocks_len\<rparr>))))))))))))))))))))))))))))"

section \<open>The specification of a keyword section\<close>

definition key_block_in_limits :: "nat \<Rightarrow> text_encoding \<Rightarrow> limits \<Rightarrow> key_block_descriptor \<Rightarrow> bool" where
  "key_block_in_limits offset_bytes e lim b \<longleftrightarrow>
     0 < kb_entry_count b \<and> kb_entry_count b \<le> key_block_entries lim \<and>
     8 \<le> kb_comp_size b \<and> kb_comp_size b \<le> compressed_block_bytes lim \<and>
     kb_decomp_size b \<le> decompressed_block_bytes lim \<and>
     kb_entry_count b * (offset_bytes + unit_size e) \<le> kb_decomp_size b"

definition keyword_section_ok ::
    "nat \<Rightarrow> nat \<Rightarrow> text_encoding \<Rightarrow> file_source \<Rightarrow> limits \<Rightarrow> nat \<Rightarrow> keyword_section \<Rightarrow> bool" where
  "keyword_section_ok offset_bytes header_len e src lim offset r \<longleftrightarrow>
     ks_header r = section_range_new offset header_len \<and>
     sr_offset (ks_index r) = section_bytes_end (ks_header r) \<and>
     sr_offset (ks_block_range r) = section_bytes_end (ks_index r) \<and>
     ks_record_section_offset r = section_bytes_end (ks_block_range r) \<and>
     section_bytes_end (ks_block_range r) \<le> fs_len src \<and> section_bytes_end (ks_block_range r) \<le> u64_max \<and>
     tiles kb_comp_offset kb_comp_size (sr_offset (ks_block_range r)) (ks_blocks r)
       (section_bytes_end (ks_block_range r)) \<and>
     tiles kb_entry_start_index kb_entry_count 0 (ks_blocks r) (ks_num_entries r) \<and>
     ks_num_entries r \<le> u64_max \<and>
     (\<forall>b \<in> set (ks_blocks r). key_block_in_limits offset_bytes e lim b)"

text \<open>The reserved bytes cover the descriptors and the UTF-8 form of every summary.\<close>

definition summary_bytes :: "key_block_descriptor \<Rightarrow> nat" where
  "summary_bytes b = str_len (kb_first_key b) + str_len (kb_last_key b)"

definition summaries_covered :: "keyword_section \<Rightarrow> bool" where
  "summaries_covered r \<longleftrightarrow>
     length (ks_blocks r) * size_of_key_block_descriptor + sum_list (map summary_bytes (ks_blocks r))
       \<le> ks_retained_bytes r"

lemma validate_key_block_sizes_ok:
  "validate_key_block_sizes k n c d e lim = Inr u \<Longrightarrow>
     0 < n \<and> n \<le> key_block_entries lim \<and> 8 \<le> c \<and> c \<le> compressed_block_bytes lim \<and>
     d \<le> decompressed_block_bytes lim \<and> n * (k + unit_size e) \<le> d"
  by (auto simp: validate_key_block_sizes_def split: if_splits)

lemma keyword_rows_tile:
  "keyword_rows rd v n cur coff start = Inr (bs, cur') \<Longrightarrow> start \<le> u64_max \<Longrightarrow>
     length bs = n \<and> (\<exists>coff' start'. tiles kb_comp_offset kb_comp_size coff bs coff' \<and>
       tiles kb_entry_start_index kb_entry_count start bs start' \<and> start' \<le> u64_max) \<and>
     (\<forall>b \<in> set bs. v (kb_entry_count b) (kb_comp_size b) (kb_decomp_size b) = Inr ())"
proof (induction n arbitrary: cur coff start bs)
  case (Suc n)
  from Suc.prems(1) obtain row cur1 bs' where
    rd: "rd cur = Inr (row, cur1)" and
    v: "v (krf_entry_count row) (krf_comp_size row) (krf_decomp_size row) = Inr ()" and
    le: "start + krf_entry_count row \<le> u64_max" and
    rec: "keyword_rows rd v n cur1 (coff + krf_comp_size row) (start + krf_entry_count row) = Inr (bs', cur')" and
    bs: "bs = \<lparr>kb_entry_count = krf_entry_count row, kb_entry_start_index = start,
          kb_first_key = krf_first_key row, kb_last_key = krf_last_key row, kb_comp_offset = coff,
          kb_comp_size = krf_comp_size row, kb_decomp_size = krf_decomp_size row\<rparr> # bs'"
    by (auto split: prod.splits)
  show ?case using Suc.IH [OF rec le] v by (auto simp: bs)
qed simp

lemma last_entry_end_ok:
  "tiles kb_entry_start_index kb_entry_count 0 bs hi \<Longrightarrow> last_entry_end bs = Inr n \<Longrightarrow> n = hi"
proof (cases bs rule: rev_cases)
  case (snoc bs' b)
  assume "tiles kb_entry_start_index kb_entry_count 0 bs hi" and "last_entry_end bs = Inr n"
  then show ?thesis using snoc by (auto simp: last_entry_end_def tiles_append)
qed (simp add: last_entry_end_def)

lemma sum_comp_sizes_ok: "sum_comp_sizes acc bs = Inr n \<Longrightarrow> n = acc + sum_list (map kb_comp_size bs)"
proof (induction acc bs rule: sum_comp_sizes.induct)
  case (2 acc b bs)
  then have "n = acc + kb_comp_size b + sum_list (map kb_comp_size bs)" by auto
  then show ?case by simp
qed simp

lemma reconcile_ok:
  assumes "reconcile_keyword_blocks src n len bs = Inr u"
    and "tiles kb_comp_offset kb_comp_size off bs hi" and "tiles kb_entry_start_index kb_entry_count 0 bs hi'"
  shows "hi = off + len" and "hi' = n"
proof -
  from assms(1) have l: "last_entry_end bs = Inr n" and s: "sum_comp_sizes 0 bs = Inr len"
    by (auto simp: reconcile_keyword_blocks_def split: if_splits)
  show "hi' = n" using last_entry_end_ok [OF assms(3) l] by simp
  show "hi = off + len" using sum_comp_sizes_ok [OF s] tiles_total [OF assms(2)] by simp
qed

lemma parse_keyword_index_entries_ok:
  assumes p: "parse_keyword_index_entries rd (\<lambda>n c d. validate_key_block_sizes k n c d e lim) mr bytes n off = Inr bs"
    and r: "reconcile_keyword_blocks src total_entries len bs = Inr u"
  shows "length bs = n" "tiles kb_comp_offset kb_comp_size off bs (off + len)"
    "tiles kb_entry_start_index kb_entry_count 0 bs total_entries" "total_entries \<le> u64_max"
    "\<forall>b \<in> set bs. key_block_in_limits k e lim b"
proof -
  obtain cur where rows: "keyword_rows rd (\<lambda>n c d. validate_key_block_sizes k n c d e lim) n (cursor_new bytes) off 0 = Inr (bs, cur)"
    using p by (auto simp: parse_keyword_index_entries_def split: if_splits prod.splits)
  note t = keyword_rows_tile [OF rows]
  then obtain hi hi' where h: "tiles kb_comp_offset kb_comp_size off bs hi"
    "tiles kb_entry_start_index kb_entry_count 0 bs hi'" "hi' \<le> u64_max" by auto
  note eq = reconcile_ok [OF r h(1,2)]
  show "length bs = n" using t by simp
  show "tiles kb_comp_offset kb_comp_size off bs (off + len)" using h(1) by (simp add: eq)
  show "tiles kb_entry_start_index kb_entry_count 0 bs total_entries" "total_entries \<le> u64_max"
    using h(2,3) by (simp_all add: eq)
  show "\<forall>b \<in> set bs. key_block_in_limits k e lim b"
    using t validate_key_block_sizes_ok unfolding key_block_in_limits_def by (metis zero_le)
qed

lemma validate_counts_ok:
  "validate_keyword_header_counts mr n m len lim = Inr n' \<Longrightarrow> n' = n \<and> n \<le> m"
  by (auto simp: validate_keyword_header_counts_def split: if_splits)

lemma keyword_retained_ok:
  assumes "keyword_retained_bytes X e len n = Inr r"
  obtains m where "max_decoded_len X e len = Inr m" and "r = m + n * size_of_key_block_descriptor"
  using assms by (auto simp: keyword_retained_bytes_def)

section \<open>The contract of a row reader\<close>

locale key_row_grammar =
  fixes read_row :: "'x \<Rightarrow> row_reader" and enc :: "'x \<Rightarrow> externals \<times> text_encoding"
  assumes row: "read_row x cur = Inr (r, cur') \<Longrightarrow> cur_bytes cur' = cur_bytes cur \<and>
      cur_offset cur \<le> cur_offset cur' \<and> cur_offset cur' \<le> length (cur_bytes cur) \<and>
      (additive_decoder (fst (enc x)) (snd (enc x)) \<longrightarrow> str_len (krf_first_key r) + str_len (krf_last_key r) \<le>
         text_cost (fst (enc x)) (snd (enc x)) (cur_offset cur' - cur_offset cur))"
begin

lemma rows_cost:
  "keyword_rows (read_row x) v n cur coff start = Inr (bs, cur') \<Longrightarrow> additive_decoder (fst (enc x)) (snd (enc x)) \<Longrightarrow>
   cur_offset cur \<le> length (cur_bytes cur) \<Longrightarrow>
     cur_bytes cur' = cur_bytes cur \<and> cur_offset cur \<le> cur_offset cur' \<and>
     cur_offset cur' \<le> length (cur_bytes cur) \<and>
     sum_list (map summary_bytes bs) \<le> text_cost (fst (enc x)) (snd (enc x)) (cur_offset cur' - cur_offset cur)"
proof (induction n arbitrary: cur coff start bs)
  case (Suc n)
  from Suc.prems(1) obtain r cur1 bs' b where
    rr: "read_row x cur = Inr (r, cur1)" and
    rec: "keyword_rows (read_row x) v n cur1 (coff + krf_comp_size r) (start + krf_entry_count r) = Inr (bs', cur')" and
    bs: "bs = b # bs'" and b: "summary_bytes b = str_len (krf_first_key r) + str_len (krf_last_key r)"
    by (auto split: prod.splits simp: summary_bytes_def)
  note r1 = row [OF rr]
  have off1: "cur_offset cur1 \<le> length (cur_bytes cur1)" using r1 by simp
  note ih = Suc.IH [OF rec Suc.prems(2) off1]
  have "summary_bytes b + sum_list (map summary_bytes bs') \<le>
      text_cost (fst (enc x)) (snd (enc x)) (cur_offset cur1 - cur_offset cur) + text_cost (fst (enc x)) (snd (enc x)) (cur_offset cur' - cur_offset cur1)"
    using r1 ih Suc.prems(2) b by simp
  also have "\<dots> \<le> text_cost (fst (enc x)) (snd (enc x)) ((cur_offset cur1 - cur_offset cur) + (cur_offset cur' - cur_offset cur1))"
    by (rule text_cost_add [OF Suc.prems(2)])
  also have "(cur_offset cur1 - cur_offset cur) + (cur_offset cur' - cur_offset cur1) = cur_offset cur' - cur_offset cur"
    using r1 ih by simp
  finally show ?case using r1 ih bs by simp
qed simp

lemma entries_cost:
  assumes "parse_keyword_index_entries (read_row x) v mr bytes n off = Inr bs" and "additive_decoder (fst (enc x)) (snd (enc x))"
  shows "sum_list (map summary_bytes bs) \<le> text_cost (fst (enc x)) (snd (enc x)) (length bytes)"
proof -
  obtain cur where rows: "keyword_rows (read_row x) v n (cursor_new bytes) off 0 = Inr (bs, cur)"
    using assms(1) by (auto simp: parse_keyword_index_entries_def split: if_splits prod.splits)
  have c: "sum_list (map summary_bytes bs) \<le> text_cost (fst (enc x)) (snd (enc x)) (cur_offset cur)"
    and l: "cur_offset cur \<le> length bytes" using rows_cost [OF rows assms(2)] by simp_all
  show ?thesis using c text_cost_mono [OF l] by (rule le_trans)
qed

lemma covered:
  assumes "parse_keyword_index_entries (read_row x) v mr bytes n off = Inr bs" and "length bs = n"
    and "keyword_retained_bytes (fst (enc x)) (snd (enc x)) (length bytes) n = Inr k" and "additive_decoder (fst (enc x)) (snd (enc x))"
  shows "length bs * size_of_key_block_descriptor + sum_list (map summary_bytes bs) \<le> k"
proof -
  obtain m where m: "max_decoded_len (fst (enc x)) (snd (enc x)) (length bytes) = Inr m"
    and k: "k = m + n * size_of_key_block_descriptor" by (rule keyword_retained_ok [OF assms(3)])
  have "sum_list (map summary_bytes bs) \<le> m"
    using entries_cost [OF assms(1,4)] text_cost_max [OF assms(4) m] by (rule le_trans)
  then show ?thesis using k assms(2) by simp
qed

end

lemma bytes_advance:
  assumes "read_bytes c n ctx = Inr (bs, c')"
  shows "cur_bytes c' = cur_bytes c \<and> cur_offset c' = cur_offset c + n \<and> cur_offset c' \<le> length (cur_bytes c) \<and>
    length bs = n"
  using read_bytes_ok(1,2,3,4) [OF assms] by (simp add: cursor_ok_def)

lemma u32_advance: "read_u32_be_widened c ctx = Inr (v, c') \<Longrightarrow> cur_bytes c' = cur_bytes c \<and>
    cur_offset c' = cur_offset c + 4 \<and> cur_offset c' \<le> length (cur_bytes c)"
  by (drule u32_field.rd_ok) (auto simp: cursor_ok_def)

lemma u64_advance: "read_u64_be c ctx = Inr (v, c') \<Longrightarrow> cur_bytes c' = cur_bytes c \<and>
    cur_offset c' = cur_offset c + 8 \<and> cur_offset c' \<le> length (cur_bytes c)"
  by (drule u64_field.rd_ok) (auto simp: cursor_ok_def)

text \<open>What reading one summary does to the cursor, and what its text can cost.\<close>

definition summary_read :: "externals \<Rightarrow> text_encoding \<Rightarrow> cursor \<Rightarrow> rstring \<Rightarrow> cursor \<Rightarrow> bool" where
  "summary_read X e c s c' \<longleftrightarrow> cur_bytes c' = cur_bytes c \<and> cur_offset c \<le> cur_offset c' \<and>
     cur_offset c' \<le> length (cur_bytes c) \<and>
     (additive_decoder X e \<longrightarrow> str_len s \<le> text_cost X e (cur_offset c' - cur_offset c))"

lemma v1_read_summary_ok:
  assumes "v1_read_summary X c e ctx = Inr (s, c')" shows "summary_read X e c s c'"
proof -
  from assms obtain u c1 bs where u: "read_u8 c ctx = Inr (u, c1)"
    and b: "read_bytes c1 (u * unit_size e) ctx = Inr (bs, c')" and d: "decode X e bs ctx = Inr s"
    by (auto simp: v1_read_summary_def split: prod.splits)
  obtain hd_bs where h: "read_bytes c 1 ctx = Inr (hd_bs, c1)" using u by (auto simp: read_u8_Inr)
  note a1 = bytes_advance [OF h] and a2 = bytes_advance [OF b]
  have "text_cost X e (length bs) \<le> text_cost X e (cur_offset c' - cur_offset c)"
    using a1 a2 by (intro text_cost_mono) simp
  then show ?thesis using a1 a2 decode_cost [OF d] by (fastforce simp: summary_read_def)
qed

lemma v2_read_summary_ok:
  assumes "v2_read_summary X e layout nm bad c = Inr (s, c')" shows "summary_read X e c s c'"
proof -
  from assms obtain u c1 bs c2 ctx1 ctx2 ctx3 where u: "read_u16_be c ctx1 = Inr (u, c1)"
    and b: "read_bytes c1 (u * unit_size e) ctx2 = Inr (bs, c2)" and d: "decode X e bs ctx2 = Inr s"
    and k: "v2_skip_terminator e layout ctx3 bad c2 = Inr c'"
    unfolding v2_read_summary_def by (auto split: prod.splits)
  have t: "c' = c2 \<or> (\<exists>n ctx3 z. read_bytes c2 n ctx3 = Inr (z, c'))"
    using k by (auto simp: v2_skip_terminator_def split: prod.splits if_splits)
  obtain hd_bs where h: "read_bytes c 2 ctx1 = Inr (hd_bs, c1)" using u by (auto simp: read_u16_be_Inr)
  note a1 = bytes_advance [OF h] and a2 = bytes_advance [OF b]
  have a3: "cur_bytes c' = cur_bytes c2" "cur_offset c2 \<le> cur_offset c'" "cur_offset c' \<le> length (cur_bytes c2)"
    using t a2 bytes_advance by fastforce+
  have "text_cost X e (length bs) \<le> text_cost X e (cur_offset c' - cur_offset c)"
    using a1 a2 a3 by (intro text_cost_mono) simp
  then show ?thesis using a1 a2 a3 decode_cost [OF d] by (fastforce simp: summary_read_def)
qed

text \<open>A row is two summaries between fields of fixed width.\<close>

lemma row_from_summaries:
  assumes "summary_read X e c1 f c2" and "summary_read X e c2 l c3"
    and "cur_bytes c1 = cur_bytes c" "cur_offset c \<le> cur_offset c1"
    and "cur_bytes c4 = cur_bytes c3" "cur_offset c3 \<le> cur_offset c4" "cur_offset c4 \<le> length (cur_bytes c3)"
  shows "cur_bytes c4 = cur_bytes c \<and> cur_offset c \<le> cur_offset c4 \<and> cur_offset c4 \<le> length (cur_bytes c) \<and>
    (additive_decoder X e \<longrightarrow> str_len f + str_len l \<le> text_cost X e (cur_offset c4 - cur_offset c))"
proof -
  have "str_len f + str_len l \<le> text_cost X e (cur_offset c4 - cur_offset c)" if "additive_decoder X e"
  proof -
    have "str_len f + str_len l \<le> text_cost X e (cur_offset c2 - cur_offset c1) + text_cost X e (cur_offset c3 - cur_offset c2)"
      using assms(1,2) that by (simp add: summary_read_def add_mono)
    also have "\<dots> \<le> text_cost X e ((cur_offset c2 - cur_offset c1) + (cur_offset c3 - cur_offset c2))"
      by (rule text_cost_add [OF that])
    also have "\<dots> \<le> text_cost X e (cur_offset c4 - cur_offset c)"
      using assms by (intro text_cost_mono) (auto simp: summary_read_def)
    finally show ?thesis .
  qed
  then show ?thesis using assms by (auto simp: summary_read_def)
qed

interpretation v1_rows: key_row_grammar "\<lambda>(X, e). v1_read_row X e" "\<lambda>x. x"
proof
  fix x c r c' assume "(case x of (X, e) \<Rightarrow> v1_read_row X e) c = Inr (r, c')"
  then obtain X e n c1 c2 c3 c4 f l a b ctx1 ctx2 ctx3 ctx4 ctx5 where x: "x = (X, e)"
    and s: "read_u32_be_widened c ctx1 = Inr (n, c1)" "v1_read_summary X c1 e ctx2 = Inr (f, c2)"
      "v1_read_summary X c2 e ctx3 = Inr (l, c3)" "read_u32_be_widened c3 ctx4 = Inr (a, c4)"
      "read_u32_be_widened c4 ctx5 = Inr (b, c')"
    and r: "krf_first_key r = f" "krf_last_key r = l"
    by (cases x) (auto simp: v1_read_row_def split: prod.splits)
  show "cur_bytes c' = cur_bytes c \<and> cur_offset c \<le> cur_offset c' \<and> cur_offset c' \<le> length (cur_bytes c) \<and>
      (additive_decoder (fst x) (snd x) \<longrightarrow> str_len (krf_first_key r) + str_len (krf_last_key r) \<le>
         text_cost (fst x) (snd x) (cur_offset c' - cur_offset c))"
    unfolding r x fst_conv snd_conv
    by (rule row_from_summaries [OF v1_read_summary_ok [OF s(2)] v1_read_summary_ok [OF s(3)]])
       (use u32_advance [OF s(1)] u32_advance [OF s(4)] u32_advance [OF s(5)] in auto)
qed

interpretation v2_rows: key_row_grammar "\<lambda>(X, e, layout). v2_read_row X e layout" "\<lambda>(X, e, layout). (X, e)"
proof
  fix x c r c' assume "(case x of (X, e, layout) \<Rightarrow> v2_read_row X e layout) c = Inr (r, c')"
  then obtain X e y n c1 c2 c3 c4 f l a b ctx1 ctx4 ctx5 m1 z1 m2 z2 where x: "x = (X, e, y)"
    and s: "read_u64_be c ctx1 = Inr (n, c1)" "v2_read_summary X e y m1 z1 c1 = Inr (f, c2)"
      "v2_read_summary X e y m2 z2 c2 = Inr (l, c3)" "read_u64_be c3 ctx4 = Inr (a, c4)"
      "read_u64_be c4 ctx5 = Inr (b, c')"
    and r: "krf_first_key r = f" "krf_last_key r = l"
    by (cases x) (auto simp: v2_read_row_def split: prod.splits)
  show "cur_bytes c' = cur_bytes c \<and> cur_offset c \<le> cur_offset c' \<and> cur_offset c' \<le> length (cur_bytes c) \<and>
      (additive_decoder (fst (case x of (X, e, layout) \<Rightarrow> (X, e))) (snd (case x of (X, e, layout) \<Rightarrow> (X, e))) \<longrightarrow> str_len (krf_first_key r) + str_len (krf_last_key r) \<le>
         text_cost (fst (case x of (X, e, layout) \<Rightarrow> (X, e))) (snd (case x of (X, e, layout) \<Rightarrow> (X, e))) (cur_offset c' - cur_offset c))"
    unfolding r x prod.case fst_conv snd_conv
    by (rule row_from_summaries [OF v2_read_summary_ok [OF s(2)] v2_read_summary_ok [OF s(3)]])
       (use u64_advance [OF s(1)] u64_advance [OF s(4)] u64_advance [OF s(5)] in auto)
qed

section \<open>What a parsed keyword section is\<close>

lemma v1_parse_keyword_section_run:
  assumes "returns (v1_parse_keyword_section X src hdr e offset opts) r"
  obtains index_len blocks_len index_bytes where
    "read_exact_at src (offset + 16) index_len ''keyword index'' = Inr index_bytes"
    "keyword_retained_bytes X e index_len (length (ks_blocks r)) = Inr (ks_retained_bytes r)"
    "parse_keyword_index_entries (v1_read_row X e) (\<lambda>n c d. validate_key_block_sizes 4 n c d e (opt_limits opts))
       (Inr v1_min_key_info_row_len) index_bytes (length (ks_blocks r)) (offset + 16 + index_len) = Inr (ks_blocks r)"
    "reconcile_keyword_blocks src (ks_num_entries r) blocks_len (ks_blocks r) = Inr ()"
    "offset + 16 + index_len + blocks_len \<le> fs_len src" "offset + 16 + index_len + blocks_len \<le> u64_max"
    "ks_record_section_offset r = offset + 16 + index_len + blocks_len"
    "ks_header r = section_range_new offset 16" "ks_index r = section_range_new (offset + 16) index_len"
    "ks_block_range r = section_range_new (offset + 16 + index_len) blocks_len"
    "\<not> has_keyword_header hdr" "\<not> has_keyword_index hdr"
proof -
  have enc: "\<not> has_keyword_header hdr" "\<not> has_keyword_index hdr"
    using assms by (auto simp: v1_parse_keyword_section_def split: if_splits)
  from assms enc obtain n num_entries index_len blocks_len index_bytes k blocks where
    f: "read_exact_at src (offset + 16) index_len ''keyword index'' = Inr index_bytes"
    "keyword_retained_bytes X e index_len n = Inr k"
    "parse_keyword_index_entries (v1_read_row X e) (\<lambda>n c d. validate_key_block_sizes 4 n c d e (opt_limits opts))
       (Inr v1_min_key_info_row_len) index_bytes n (offset + 16 + index_len) = Inr blocks"
    "reconcile_keyword_blocks src num_entries blocks_len blocks = Inr ()"
    "offset + 16 + index_len + blocks_len \<le> fs_len src" "offset + 16 + index_len + blocks_len \<le> u64_max"
    and r: "r = \<lparr>ks_num_entries = num_entries, ks_blocks = blocks,
            ks_record_section_offset = offset + 16 + index_len + blocks_len, ks_retained_bytes = k,
            ks_header = section_range_new offset 16, ks_index = section_range_new (offset + 16) index_len,
            ks_block_range = section_range_new (offset + 16 + index_len) blocks_len\<rparr>"
    unfolding v1_parse_keyword_section_def
    by (auto split: prod.splits dest: validate_counts_ok)
  have "length blocks = n" using parse_keyword_index_entries_ok(1) [OF f(3,4)] .
  then show ?thesis using that [of index_len index_bytes blocks_len] f enc by (simp add: r)
qed

lemma v1_parse_keyword_section_ok:
  assumes "returns (v1_parse_keyword_section X src hdr e offset opts) r"
  shows "keyword_section_ok 4 16 e src (opt_limits opts) offset r"
    and "additive_decoder X e \<Longrightarrow> summaries_covered r"
proof -
  obtain index_len blocks_len index_bytes where ri: "read_exact_at src (offset + 16) index_len ''keyword index'' = Inr index_bytes"
    and k: "keyword_retained_bytes X e index_len (length (ks_blocks r)) = Inr (ks_retained_bytes r)"
    and p: "parse_keyword_index_entries (v1_read_row X e) (\<lambda>n c d. validate_key_block_sizes 4 n c d e (opt_limits opts))
       (Inr v1_min_key_info_row_len) index_bytes (length (ks_blocks r)) (offset + 16 + index_len) = Inr (ks_blocks r)"
    and rc: "reconcile_keyword_blocks src (ks_num_entries r) blocks_len (ks_blocks r) = Inr ()"
    and rng: "offset + 16 + index_len + blocks_len \<le> fs_len src" "offset + 16 + index_len + blocks_len \<le> u64_max"
    "ks_record_section_offset r = offset + 16 + index_len + blocks_len"
    "ks_header r = section_range_new offset 16" "ks_index r = section_range_new (offset + 16) index_len"
    "ks_block_range r = section_range_new (offset + 16 + index_len) blocks_len"
    by (rule v1_parse_keyword_section_run [OF assms])
  note ok = parse_keyword_index_entries_ok [OF p rc]
  show "keyword_section_ok 4 16 e src (opt_limits opts) offset r"
    unfolding keyword_section_ok_def using ok rng by (simp add: section_range_new_def section_bytes_end_def)
  assume sized: "additive_decoder X e"
  show "summaries_covered r"
    unfolding summaries_covered_def
    using v1_rows.covered [where x = "(X, e)"] p k read_exact_at_ok(1) [OF ri] sized by simp
qed

lemma v2_parse_keyword_section_run:
  assumes "returns (v2_parse_keyword_section X src hdr e offset opts) r"
  obtains comp_len blocks_len layout bs decomp_len decoded where
    "decode_block X ''keyword index block'' bs decomp_len (opt_limits opts) (opt_checksum_policy opts) = Inr decoded"
    "keyword_retained_bytes X e decomp_len (length (ks_blocks r)) = Inr (ks_retained_bytes r)"
    "parse_keyword_index_entries (v2_read_row X e layout) (\<lambda>n c d. validate_key_block_sizes 8 n c d e (opt_limits opts))
       (minimum_keyword_index_entry_bytes e layout) decoded (length (ks_blocks r)) (offset + 44 + comp_len) = Inr (ks_blocks r)"
    "reconcile_keyword_blocks src (ks_num_entries r) blocks_len (ks_blocks r) = Inr ()"
    "offset + 44 + comp_len + blocks_len \<le> fs_len src" "offset + 44 + comp_len + blocks_len \<le> u64_max"
    "ks_record_section_offset r = offset + 44 + comp_len + blocks_len"
    "ks_header r = section_range_new offset 44" "ks_index r = section_range_new (offset + 44) comp_len"
    "ks_block_range r = section_range_new (offset + 44 + comp_len) blocks_len"
proof -
  from assms obtain n num_entries comp_len blocks_len layout bs decomp_len decoded k blocks where
    f: "decode_block X ''keyword index block'' bs decomp_len (opt_limits opts) (opt_checksum_policy opts) = Inr decoded"
    "keyword_retained_bytes X e decomp_len n = Inr k"
    "parse_keyword_index_entries (v2_read_row X e layout) (\<lambda>n c d. validate_key_block_sizes 8 n c d e (opt_limits opts))
       (minimum_keyword_index_entry_bytes e layout) decoded n (offset + 44 + comp_len) = Inr blocks"
    "reconcile_keyword_blocks src num_entries blocks_len blocks = Inr ()"
    "offset + 44 + comp_len + blocks_len \<le> fs_len src" "offset + 44 + comp_len + blocks_len \<le> u64_max"
    and r: "r = \<lparr>ks_num_entries = num_entries, ks_blocks = blocks,
            ks_record_section_offset = offset + 44 + comp_len + blocks_len, ks_retained_bytes = k,
            ks_header = section_range_new offset 44, ks_index = section_range_new (offset + 44) comp_len,
            ks_block_range = section_range_new (offset + 44 + comp_len) blocks_len\<rparr>"
    unfolding v2_parse_keyword_section_def Let_def
    by (auto split: prod.splits if_splits)
  have "length blocks = n" using parse_keyword_index_entries_ok(1) [OF f(3,4)] .
  then show ?thesis using that [of bs decomp_len decoded layout comp_len blocks_len] f by (simp add: r)
qed

lemma v2_parse_keyword_section_ok:
  assumes "returns (v2_parse_keyword_section X src hdr e offset opts) r"
  shows "keyword_section_ok 8 44 e src (opt_limits opts) offset r"
    and "additive_decoder X e \<Longrightarrow> summaries_covered r"
proof -
  obtain comp_len blocks_len layout bs decomp_len decoded where d: "decode_block X ''keyword index block'' bs decomp_len (opt_limits opts) (opt_checksum_policy opts) = Inr decoded"
    and k: "keyword_retained_bytes X e decomp_len (length (ks_blocks r)) = Inr (ks_retained_bytes r)"
    and p: "parse_keyword_index_entries (v2_read_row X e layout) (\<lambda>n c d. validate_key_block_sizes 8 n c d e (opt_limits opts))
       (minimum_keyword_index_entry_bytes e layout) decoded (length (ks_blocks r)) (offset + 44 + comp_len) = Inr (ks_blocks r)"
    and rc: "reconcile_keyword_blocks src (ks_num_entries r) blocks_len (ks_blocks r) = Inr ()"
    and rng: "offset + 44 + comp_len + blocks_len \<le> fs_len src" "offset + 44 + comp_len + blocks_len \<le> u64_max"
    "ks_record_section_offset r = offset + 44 + comp_len + blocks_len"
    "ks_header r = section_range_new offset 44" "ks_index r = section_range_new (offset + 44) comp_len"
    "ks_block_range r = section_range_new (offset + 44 + comp_len) blocks_len"
    by (rule v2_parse_keyword_section_run [OF assms])
  note ok = parse_keyword_index_entries_ok [OF p rc]
  show "keyword_section_ok 8 44 e src (opt_limits opts) offset r"
    unfolding keyword_section_ok_def using ok rng by (simp add: section_range_new_def section_bytes_end_def)
  assume sized: "additive_decoder X e"
  show "summaries_covered r"
    unfolding summaries_covered_def
    using v2_rows.covered [where x = "(X, e, layout)"] p k decode_block_ok(1) [OF d] sized by simp
qed

section \<open>Memory\<close>

lemma accounts_v1_keyword_section [accounting]:
  "accounts (v1_parse_keyword_section X src hdr e offset opts) (\<lambda>_. 0)"
  unfolding v1_parse_keyword_section_def by (intro accounting)

lemma accounts_v2_keyword_section [accounting]:
  "accounts (v2_parse_keyword_section X src hdr e offset opts) (\<lambda>_. 0)"
  unfolding v2_parse_keyword_section_def Let_def by (intro accounting)

end
