(* ===== verification/Key_Rows.thy ===== *)
theory Key_Rows
  imports Descriptors Cursor
begin

text \<open>
  The lazy key-row grammars (\<open>decode_key_rows\<close> of \<^verbatim>\<open>src/src/format/v1/keyword.rs\<close> and
  \<^verbatim>\<open>src/src/format/v2/keyword.rs\<close>): a decompressed key block is a sequence of record offsets and
  terminated keys. The decoder is specified by its encoder, for all five text encodings: a block
  decodes to a list of rows exactly when it is the concatenation of their bytes, the declared number
  of rows is present and the offsets are ascending and bounded. In the encodings of the model the
  rows determine the bytes.
\<close>

text \<open>The loop runs at most once per entry still expected, which is the recursion argument.\<close>

fun key_rows ::
    "reader \<Rightarrow> externals \<Rightarrow> bytes \<Rightarrow> key_row_context \<Rightarrow> nat \<Rightarrow> nat option \<Rightarrow> cursor \<Rightarrow> decoded_key_row list result" where
  "key_rows rd X bs ctx 0 previous cur =
     (if cur_is_empty cur then Inr []
      else Inl (InvalidData (''key block contains data after its declared '' @
                  dec (krc_expected_entries ctx) @ '' entries'')))"
| "key_rows rd X bs ctx (Suc left) previous cur =
     (if cur_is_empty cur then Inr []
      else
      and_then (rd cur ''key block record offset'') (\<lambda>(record_start, cur).
      if krc_total_decoded_record_len ctx < record_start
      then Inl (InvalidData (''record start '' @ dec record_start @ '' exceeds total record bytes '' @
                  dec (krc_total_decoded_record_len ctx)))
      else if (case previous of None \<Rightarrow> False | Some p \<Rightarrow> record_start < p)
      then Inl (InvalidData (''record starts decrease inside key block from '' @
                  dec (the previous) @ '' to '' @ dec record_start))
      else
      let start = cur_offset cur in
      and_then (split_terminated (krc_encoding ctx) bs start ''key block entry key'')
        (\<lambda>(key_bytes, next_offset).
      and_then (decode X (krc_encoding ctx) key_bytes ''key block entry key'') (\<lambda>key.
      and_then (ok_or (checked_sub next_offset start) (InvalidFormat ''key block cursor underflow'')) (\<lambda>key_len.
      and_then (read_bytes cur key_len ''key block entry key bytes'') (\<lambda>(_, cur).
      and_then (key_rows rd X bs ctx left (Some record_start) cur) (\<lambda>entries.
      Inr (\<lparr>row_key = key, row_record_start = record_start\<rparr> # entries))))))))"

definition decode_key_rows_with :: "reader \<Rightarrow> decode_key_rows" where
  "decode_key_rows_with rd X bs ctx =
     and_then (checked_usize (krc_expected_entries ctx) ''decoded key entry count'') (\<lambda>expected_count.
     and_then (try_reserve_vec size_of_decoded_key_row 0 expected_count ''decoded key entries'') (\<lambda>_.
     and_then (key_rows rd X bs ctx expected_count None (cursor_new bs)) (\<lambda>entries.
     if length entries \<noteq> expected_count
     then Inl (InvalidData (''key block entry count mismatch: expected '' @ dec expected_count @
                 '', decoded '' @ dec (length entries)))
     else Inr entries)))"

definition v1_decode_key_rows :: decode_key_rows where
  "v1_decode_key_rows = decode_key_rows_with read_u32_be_widened"

definition v2_decode_key_rows :: decode_key_rows where
  "v2_decode_key_rows = decode_key_rows_with read_u64_be"

section \<open>Encoding of rows\<close>

definition encode_key_row :: "nat \<Rightarrow> text_encoding \<Rightarrow> decoded_key_row \<Rightarrow> bytes" where
  "encode_key_row w e r =
     nat_to_be w (row_record_start r) @ encode_text e (row_key r) @ replicate (unit_size e) 0"

definition encode_key_rows :: "nat \<Rightarrow> text_encoding \<Rightarrow> decoded_key_row list \<Rightarrow> bytes" where
  "encode_key_rows w e rows = concat (map (encode_key_row w e) rows)"

text \<open>
  The bytes of a row, in any encoding: the offset, big-endian in \<open>w\<close> bytes; bytes that decode to
  the key, can be decoded in memory and hold no zero unit; the terminator. The offset is within the
  record data.
\<close>

definition key_row_bytes :: "nat \<Rightarrow> externals \<Rightarrow> key_row_context \<Rightarrow> decoded_key_row \<Rightarrow> bytes \<Rightarrow> bool" where
  "key_row_bytes w X ctx r bs \<longleftrightarrow> (\<exists>key.
     bs = nat_to_be w (row_record_start r) @ key @ replicate (unit_size (krc_encoding ctx)) 0 \<and>
     text_bytes X (krc_encoding ctx) (row_key r) key \<and> no_zero_unit (krc_encoding ctx) key \<and>
     decode_room X (krc_encoding ctx) (length key) \<and>
     row_record_start r \<le> krc_total_decoded_record_len ctx \<and> row_record_start r < 256 ^ w)"

text \<open>For the encodings of the model: a scalar-value key without the terminator, an offset in range.\<close>

definition key_row_ok :: "nat \<Rightarrow> key_row_context \<Rightarrow> decoded_key_row \<Rightarrow> bool" where
  "key_row_ok w ctx r \<longleftrightarrow> well_formed (row_key r) \<and> 0 \<notin> set (row_key r) \<and>
     row_record_start r \<le> krc_total_decoded_record_len ctx \<and> row_record_start r < 256 ^ w"

definition ascending_from :: "nat option \<Rightarrow> nat list \<Rightarrow> bool" where
  "ascending_from p xs \<longleftrightarrow> sorted (case p of None \<Rightarrow> xs | Some x \<Rightarrow> x # xs)"

lemma ascending_simps [simp]:
  "ascending_from p []"
  "ascending_from p (x # xs) \<longleftrightarrow> (case p of None \<Rightarrow> True | Some y \<Rightarrow> y \<le> x) \<and> ascending_from (Some x) xs"
  by (auto simp: ascending_from_def split: option.splits)

lemma encode_key_rows_simps [simp]:
  "encode_key_rows w e [] = []"
  "encode_key_rows w e (r # rows) = encode_key_row w e r @ encode_key_rows w e rows"
  by (simp_all add: encode_key_rows_def)

lemma zero_in_utf8_char: "is_scalar c \<Longrightarrow> 0 \<in> set (utf8_char c) \<longleftrightarrow> c = 0"
proof -
  assume "is_scalar c"
  have z: "byte_of n = 0 \<longleftrightarrow> n = 0" if "n < 256" for n
    using that unat_byte_of [of n] by (metis unat_0 byte_of_unat)
  have "c div 64 mod 64 < 64" "c mod 64 < 64" "c div 4096 mod 64 < 64" by simp_all
  then show ?thesis using \<open>is_scalar c\<close> by (auto simp: utf8_char_def is_scalar_def z)
qed

lemma zero_in_utf8: "well_formed s \<Longrightarrow> 0 \<in> set (utf8 s) \<longleftrightarrow> 0 \<in> set s"
  by (induction s) (auto simp: zero_in_utf8_char)

lemma zero_in_utf16: "well_formed s \<Longrightarrow> 0 \<in> set (encode_utf16 s) \<longleftrightarrow> 0 \<in> set s"
  by (induction s) (auto simp: is_scalar_def)

lemma no_zero_unit_encode:
  "well_formed s \<Longrightarrow> no_zero_unit e (encode_text e s) \<longleftrightarrow> 0 \<notin> set s"
  by (auto simp: no_zero_unit_def encode_text_def zero_in_utf8 zero_in_utf16 units_le_to_le
      encode_utf16_bound)

text \<open>For the encodings of the model the rows determine the bytes.\<close>

lemma key_row_bytes_encode:
  assumes e: "sized_encoding (krc_encoding ctx)"
  shows "key_row_bytes w X ctx r bs \<longleftrightarrow> bs = encode_key_row w (krc_encoding ctx) r \<and> key_row_ok w ctx r \<and>
    decode_room X (krc_encoding ctx) (length (encode_text (krc_encoding ctx) (row_key r)))"
  using e no_zero_unit_encode by (auto simp: key_row_bytes_def encode_key_row_def key_row_ok_def text_bytes_def)

lemma short_key_room:
  "sized_encoding e \<Longrightarrow> 3 * n \<le> 2 * isize_max \<Longrightarrow> decode_room X e n"
  by (auto simp: sized_encoding_def decode_room_def isize_max_def)

lemma rows_bytes_encode:
  assumes e: "sized_encoding (krc_encoding ctx)"
  shows "3 * length bs \<le> 2 * isize_max \<Longrightarrow>
    (\<exists>bss. bs = concat bss \<and> list_all2 (key_row_bytes w X ctx) rows bss) \<longleftrightarrow>
    bs = encode_key_rows w (krc_encoding ctx) rows \<and> (\<forall>r \<in> set rows. key_row_ok w ctx r)"
proof (induction rows arbitrary: bs)
  case (Cons r rows)
  let ?k = "encode_key_row w (krc_encoding ctx) r"
  have room: "decode_room X (krc_encoding ctx) (length (encode_text (krc_encoding ctx) (row_key r)))"
    if "bs = ?k @ bs'" for bs'
    using that Cons.prems by (intro short_key_room [OF e]) (simp add: encode_key_row_def)
  have "(\<exists>bss. bs = concat bss \<and> list_all2 (key_row_bytes w X ctx) (r # rows) bss) \<longleftrightarrow>
      (\<exists>bs'. bs = ?k @ bs' \<and> key_row_bytes w X ctx r ?k \<and>
        (\<exists>bss. bs' = concat bss \<and> list_all2 (key_row_bytes w X ctx) rows bss))"
  proof
    assume "\<exists>bss. bs = concat bss \<and> list_all2 (key_row_bytes w X ctx) (r # rows) bss"
    then obtain x bss where x: "bs = x @ concat bss" "key_row_bytes w X ctx r x"
      "list_all2 (key_row_bytes w X ctx) rows bss" by (auto simp: list_all2_Cons1)
    have "x = ?k" using x(2) key_row_bytes_encode [OF e] by blast
    then show "\<exists>bs'. bs = ?k @ bs' \<and> key_row_bytes w X ctx r ?k \<and>
        (\<exists>bss. bs' = concat bss \<and> list_all2 (key_row_bytes w X ctx) rows bss)" using x by blast
  next
    assume "\<exists>bs'. bs = ?k @ bs' \<and> key_row_bytes w X ctx r ?k \<and>
        (\<exists>bss. bs' = concat bss \<and> list_all2 (key_row_bytes w X ctx) rows bss)"
    then obtain bss where "bs = ?k @ concat bss" "key_row_bytes w X ctx r ?k"
      "list_all2 (key_row_bytes w X ctx) rows bss" by blast
    then show "\<exists>bss. bs = concat bss \<and> list_all2 (key_row_bytes w X ctx) (r # rows) bss"
      by (intro exI [of _ "?k # bss"]) simp
  qed
  also have "\<dots> \<longleftrightarrow> (\<exists>bs'. bs = ?k @ bs' \<and> key_row_ok w ctx r \<and>
        (\<exists>bss. bs' = concat bss \<and> list_all2 (key_row_bytes w X ctx) rows bss))"
    using key_row_bytes_encode [OF e, of w X r ?k] room by blast
  also have "\<dots> \<longleftrightarrow> (\<exists>bs'. bs = ?k @ bs' \<and> key_row_ok w ctx r \<and>
        bs' = encode_key_rows w (krc_encoding ctx) rows \<and> (\<forall>r \<in> set rows. key_row_ok w ctx r))"
  proof (rule iff_exI)
    fix bs'
    have "3 * length bs' \<le> 2 * isize_max" if "bs = ?k @ bs'" using that Cons.prems by simp
    then show "(bs = ?k @ bs' \<and> key_row_ok w ctx r \<and>
          (\<exists>bss. bs' = concat bss \<and> list_all2 (key_row_bytes w X ctx) rows bss)) \<longleftrightarrow>
        (bs = ?k @ bs' \<and> key_row_ok w ctx r \<and>
          bs' = encode_key_rows w (krc_encoding ctx) rows \<and> (\<forall>r \<in> set rows. key_row_ok w ctx r))"
      using Cons.IH [of bs'] by blast
  qed
  finally show ?case unfolding encode_key_rows_simps list.set ball_simps by blast
qed simp

section \<open>Correctness\<close>

lemma drop_offset_rest: "cur_bytes c = bs \<Longrightarrow> drop (cur_offset c) bs = rest c"
  by (simp add: rest_def)

context field_reader
begin

text \<open>One turn of the loop.\<close>

lemma key_rows_step:
  assumes k: "key_rows rd X bs ctx (Suc n) prev cur = Inr rows" and ne: "\<not> cur_is_empty cur"
    and bs: "cur_bytes cur = bs" and len: "length bs \<le> isize_max"
  obtains r cur1 cur2 key_bytes rows' where "rd cur ''key block record offset'' = Inr (row_record_start r, cur1)"
    and "row_record_start r \<le> krc_total_decoded_record_len ctx"
    and "case prev of None \<Rightarrow> True | Some y \<Rightarrow> y \<le> row_record_start r"
    and "decode X (krc_encoding ctx) key_bytes ''key block entry key'' = Inr (row_key r)"
    and "no_zero_unit (krc_encoding ctx) key_bytes"
    and "rest cur1 = key_bytes @ replicate (unit_size (krc_encoding ctx)) 0 @ rest cur2"
    and "key_rows rd X bs ctx n (Some (row_record_start r)) cur2 = Inr rows'"
    and "rows = r # rows'" and "cur_bytes cur2 = bs" and "cursor_ok cur2"
    and "cur_offset cur2 = cur_offset cur + w + length key_bytes + unit_size (krc_encoding ctx)"
proof -
  let ?e = "krc_encoding ctx"
  from k ne obtain start cur1 key_bytes nxt key got cur2 rows' where
    r: "rd cur ''key block record offset'' = Inr (start, cur1)"
    and b: "start \<le> krc_total_decoded_record_len ctx" "case prev of None \<Rightarrow> True | Some y \<Rightarrow> y \<le> start"
    and s: "split_terminated ?e bs (cur_offset cur1) ''key block entry key'' = Inr (key_bytes, nxt)"
    and d: "decode X ?e key_bytes ''key block entry key'' = Inr key"
    and rb: "read_bytes cur1 (nxt - cur_offset cur1) ''key block entry key bytes'' = Inr (got, cur2)"
    and rec: "key_rows rd X bs ctx n (Some start) cur2 = Inr rows'"
    and rows: "rows = \<lparr>row_key = key, row_record_start = start\<rparr> # rows'"
    by (auto simp: Let_def split: prod.splits if_splits option.splits)
  note ok1 = rd_ok [OF r]
  have b1: "cur_bytes cur1 = bs" using ok1 bs by simp
  obtain ys where nz: "no_zero_unit ?e key_bytes" and n: "nxt = cur_offset cur1 + length key_bytes + unit_size ?e"
    and dr: "drop (cur_offset cur1) bs = key_bytes @ replicate (unit_size ?e) 0 @ ys"
    using s unfolding split_terminated_iff [OF len] by blast
  have rest1: "rest cur1 = key_bytes @ replicate (unit_size ?e) 0 @ ys"
    using dr drop_offset_rest [OF b1] by simp
  have "rest cur2 = drop (length key_bytes + unit_size ?e) (rest cur1)"
    using read_bytes_ok(6) [OF rb] n by simp
  also have "\<dots> = ys" unfolding rest1 by simp
  finally have rest2: "rest cur2 = ys" .
  show ?thesis
    by (rule that [of "\<lparr>row_key = key, row_record_start = start\<rparr>" cur1 key_bytes cur2 rows'])
      (use r b d nz rest1 rest2 rec rows read_bytes_ok(1,2,3) [OF rb] b1 n ok1 in
        \<open>auto split: option.splits\<close>)
qed

lemma key_rows_sound:
  assumes len: "length bs \<le> isize_max"
  shows "key_rows rd X bs ctx n prev cur = Inr rows \<Longrightarrow> cur_bytes cur = bs \<Longrightarrow>
    \<exists>bss. rest cur = concat bss \<and> list_all2 (key_row_bytes w X ctx) rows bss \<and> length rows \<le> n \<and>
      ascending_from prev (map row_record_start rows)"
proof (induction n arbitrary: prev cur rows)
  case 0
  then show ?case by (auto simp: cur_is_empty_rest split: if_splits intro: exI [of _ "[]"])
next
  case (Suc n)
  show ?case
  proof (cases "cur_is_empty cur")
    case True
    then show ?thesis using Suc.prems by (auto simp: cur_is_empty_rest intro: exI [of _ "[]"])
  next
    case False
    from Suc.prems(1) False Suc.prems(2) len show ?thesis
    proof (rule key_rows_step)
      fix r cur1 cur2 key_bytes rows'
      assume rd: "rd cur ''key block record offset'' = Inr (row_record_start r, cur1)"
        and b: "row_record_start r \<le> krc_total_decoded_record_len ctx"
          "case prev of None \<Rightarrow> True | Some y \<Rightarrow> y \<le> row_record_start r"
        and d: "decode X (krc_encoding ctx) key_bytes ''key block entry key'' = Inr (row_key r)"
        and nz: "no_zero_unit (krc_encoding ctx) key_bytes"
        and rest1: "rest cur1 = key_bytes @ replicate (unit_size (krc_encoding ctx)) 0 @ rest cur2"
        and rec: "key_rows rd X bs ctx n (Some (row_record_start r)) cur2 = Inr rows'"
        and rows: "rows = r # rows'" and b2: "cur_bytes cur2 = bs"
      note ok1 = rd_ok [OF rd]
      obtain bss where bss: "rest cur2 = concat bss" "list_all2 (key_row_bytes w X ctx) rows' bss"
        "length rows' \<le> n" "ascending_from (Some (row_record_start r)) (map row_record_start rows')"
        using Suc.IH [OF rec b2] by blast
      let ?row = "nat_to_be w (row_record_start r) @ key_bytes @ replicate (unit_size (krc_encoding ctx)) 0"
      have "key_row_bytes w X ctx r ?row"
        using d nz b(1) ok1 unfolding decode_iff by (auto simp: key_row_bytes_def)
      moreover have "rest cur = concat (?row # bss)" using ok1 rest1 bss(1) by simp
      ultimately show ?thesis using bss b(2) by (intro exI [of _ "?row # bss"]) (simp add: rows)
    qed
  qed
qed

lemma key_rows_complete:
  assumes len: "length bs \<le> isize_max" and w: "0 < w"
  shows "list_all2 (key_row_bytes w X ctx) rows bss \<Longrightarrow> rest cur = concat bss \<Longrightarrow> cur_bytes cur = bs \<Longrightarrow>
    cursor_ok cur \<Longrightarrow> ascending_from prev (map row_record_start rows) \<Longrightarrow>
    length rows \<le> n \<Longrightarrow> key_rows rd X bs ctx n prev cur = Inr rows"
proof (induction rows bss arbitrary: prev cur n rule: list_all2_induct)
  case Nil
  then show ?case by (cases n) (simp_all add: cur_is_empty_rest)
next
  case (Cons r rows row_bytes bss)
  let ?e = "krc_encoding ctx" and ?start = "row_record_start r"
  obtain m where n: "n = Suc m" using Cons.prems(5) by (cases n) auto
  obtain key where row: "row_bytes = nat_to_be w ?start @ key @ replicate (unit_size ?e) 0"
    and r: "text_bytes X ?e (row_key r) key" "no_zero_unit ?e key" "decode_room X ?e (length key)"
      "?start \<le> krc_total_decoded_record_len ctx" "?start < 256 ^ w"
    using Cons.hyps(1) by (auto simp: key_row_bytes_def)
  have max: "isize_max + 2 \<le> u64_max" by (simp add: isize_max_def u64_max_def)
  have lb: "length (cur_bytes cur) \<le> u64_max" using len max Cons.prems(2) by simp
  have rest0: "rest cur = nat_to_be w ?start @ key @ replicate (unit_size ?e) 0 @ concat bss"
    using Cons.prems(1) row by simp
  define c1 where "c1 = cur\<lparr>cur_offset := cur_offset cur + w\<rparr>"
  have rd1: "rd cur ctx' = Inr (?start, c1)" for ctx'
    unfolding c1_def by (rule rd_encoded [OF r(5) rest0 Cons.prems(3) lb])
  note rest1 = rd_rest [OF r(5) rest0 Cons.prems(3) lb, folded c1_def]
  have c1b: "cur_bytes c1 = bs" using Cons.prems(2) by (simp add: c1_def)
  define nxt where "nxt = cur_offset c1 + length key + unit_size ?e"
  have sp: "split_terminated ?e bs (cur_offset c1) ctx' = Inr (key, nxt)" for ctx'
    unfolding split_terminated_iff [OF len] nxt_def
    using rest1 c1b r(2) by (auto simp: drop_offset_rest cursor_ok_def)
  have d: "decode X ?e key ctx' = Inr (row_key r)" for ctx' unfolding decode_iff using r by simp
  define c2 where "c2 = c1\<lparr>cur_offset := nxt\<rparr>"
  have l: "length (key @ replicate (unit_size ?e) 0) = nxt - cur_offset c1" by (simp add: nxt_def)
  have rest1': "rest c1 = (key @ replicate (unit_size ?e) 0) @ concat bss" using rest1(1) by simp
  have lb1: "length (cur_bytes c1) \<le> u64_max" using len max c1b by simp
  note rb = read_bytes_append [OF rest1' rest1(2) lb1, unfolded l]
  have eq: "cur_offset c1 + (nxt - cur_offset c1) = nxt" by (simp add: nxt_def)
  have "key_rows rd X bs ctx m (Some ?start) c2 = Inr rows"
    by (rule Cons.IH) (use rb eq c1b Cons.prems n in \<open>auto simp: c2_def\<close>)
  moreover have "\<not> cur_is_empty cur" using rest0 w by (cases w) (auto simp: cur_is_empty_rest)
  moreover have "nxt - cur_offset c1 \<le> nxt" "cur_offset c1 \<le> nxt" by (simp_all add: nxt_def)
  ultimately show ?case
    using rd1 sp d rb(1) r Cons.prems(4)
    by (simp add: n Let_def eq c2_def checked_sub_def split: option.splits)
qed

theorem decode_key_rows_iff:
  assumes len: "length bs \<le> isize_max" and w: "0 < w"
  shows "decode_key_rows_with rd X bs ctx = Inr rows \<longleftrightarrow>
    (\<exists>bss. bs = concat bss \<and> list_all2 (key_row_bytes w X ctx) rows bss) \<and>
    length rows = krc_expected_entries ctx \<and> length rows * size_of_decoded_key_row \<le> isize_max \<and>
    sorted (map row_record_start rows)"
proof -
  have le: "n * size_of_decoded_key_row \<le> isize_max \<Longrightarrow> n \<le> usize_max" for n
    by (simp add: layout_sizes isize_max_def usize_max_def)
  have "decode_key_rows_with rd X bs ctx = Inr rows \<longleftrightarrow>
      key_rows rd X bs ctx (krc_expected_entries ctx) None (cursor_new bs) = Inr rows \<and>
      length rows = krc_expected_entries ctx \<and> length rows * size_of_decoded_key_row \<le> isize_max"
    using le by (auto simp: decode_key_rows_with_def and_then_Inr)
  also have "\<dots> \<longleftrightarrow> (\<exists>bss. bs = concat bss \<and> list_all2 (key_row_bytes w X ctx) rows bss) \<and>
      ascending_from None (map row_record_start rows) \<and>
      length rows = krc_expected_entries ctx \<and> length rows * size_of_decoded_key_row \<le> isize_max"
    using key_rows_sound [OF len, where prev = None and cur = "cursor_new bs" and rows = rows]
      key_rows_complete [OF len w, where prev = None and cur = "cursor_new bs" and rows = rows
          and n = "krc_expected_entries ctx"] by fastforce
  finally show ?thesis by (auto simp: ascending_from_def)
qed

end

section \<open>Every encoding\<close>

lemma key_rows_bounds:
  "key_rows rd X bs ctx n prev cur = Inr rows \<Longrightarrow> externals_ok X \<Longrightarrow>
    length rows \<le> n \<and> (\<forall>r \<in> set rows. well_formed (row_key r) \<and>
      row_record_start r \<le> krc_total_decoded_record_len ctx) \<and>
    ascending_from prev (map row_record_start rows)"
proof (induction n arbitrary: prev cur rows)
  case (Suc n)
  show ?case
  proof (cases "cur_is_empty cur")
    case False
    from Suc.prems(1) False obtain start kb ctx' key cur2 rows' where
      b: "start \<le> krc_total_decoded_record_len ctx" "case prev of None \<Rightarrow> True | Some y \<Rightarrow> y \<le> start"
      and d: "decode X (krc_encoding ctx) kb ctx' = Inr key"
      and rec: "key_rows rd X bs ctx n (Some start) cur2 = Inr rows'"
      and rows: "rows = \<lparr>row_key = key, row_record_start = start\<rparr> # rows'"
      by (auto simp: Let_def split: prod.splits if_splits option.splits)
    show ?thesis
      using Suc.IH [OF rec Suc.prems(2)] b decode_well_formed [OF Suc.prems(2) d] by (auto simp: rows)
  qed (use Suc.prems in auto)
qed (auto split: if_splits)

lemma decode_key_rows_bounds:
  assumes "decode_key_rows_with rd X bs ctx = Inr rows" and "externals_ok X"
  shows "length rows = krc_expected_entries ctx"
    and "\<forall>r \<in> set rows. well_formed (row_key r) \<and> row_record_start r \<le> krc_total_decoded_record_len ctx"
    and "sorted (map row_record_start rows)"
proof -
  have k: "key_rows rd X bs ctx (krc_expected_entries ctx) None (cursor_new bs) = Inr rows"
    and l: "length rows = krc_expected_entries ctx"
    using assms(1) by (auto simp: decode_key_rows_with_def split: if_splits)
  note b = key_rows_bounds [OF k assms(2)]
  show "length rows = krc_expected_entries ctx" by (rule l)
  show "\<forall>r \<in> set rows. well_formed (row_key r) \<and> row_record_start r \<le> krc_total_decoded_record_len ctx"
    using b by blast
  show "sorted (map row_record_start rows)" using b by (simp add: ascending_from_def)
qed

end
