(* ===== verification/Layout.thy ===== *)
theory Layout
  imports Header Record_Sections Keyword_Sections Key_Rows
begin

text \<open>
  Opening a file: grammar dispatch (\<^verbatim>\<open>src/src/format/mod.rs\<close>) and the two
  \<open>parse_layout\<close> functions (\<^verbatim>\<open>src/src/format/v1/mod.rs\<close>,
  \<^verbatim>\<open>src/src/format/v2/mod.rs\<close>), which compose the header, the keyword section and the record
  section into one validated layout.

  The results: the declared versions decide the grammar exactly as documented; a layout that either
  grammar produces already satisfies \<open>verify\<close>, so the backstop never rejects; sections and
  blocks lie in the file and within the limits; and an open leaves exactly the metadata reservations
  charged, whatever path it takes.
\<close>

section \<open>Versions\<close>

datatype wire_version = V1 | V2

fun split_on :: "nat \<Rightarrow> rstring \<Rightarrow> rstring list" where
  "split_on sep [] = [[]]"
| "split_on sep (c # s) =
     (if c = sep then [] # split_on sep s
      else (case split_on sep s of [] \<Rightarrow> [[c]] | w # ws \<Rightarrow> (c # w) # ws))"

definition is_ascii_digit :: "nat \<Rightarrow> bool" where
  "is_ascii_digit c \<longleftrightarrow> 48 \<le> c \<and> c \<le> 57"

definition numeric_component :: "rstring \<Rightarrow> bool" where
  "numeric_component w \<longleftrightarrow> w \<noteq> [] \<and> list_all is_ascii_digit w"

definition declared_major_version :: "rstring \<Rightarrow> string \<Rightarrow> nat result" where
  "declared_major_version version malformed =
     (case split_on 46 version of
        [] \<Rightarrow> Inl (InvalidFormat malformed)
      | first # components \<Rightarrow>
          and_then (ok_or (if numeric_component first then parse_unsigned 10 u32_max first else None)
                      (InvalidFormat malformed)) (\<lambda>major.
          if list_ex (\<lambda>w. \<not> numeric_component w) components then Inl (InvalidFormat malformed)
          else Inr major))"

definition validate_version_relationship :: "nat \<Rightarrow> nat \<Rightarrow> unit result" where
  "validate_version_relationship generated_major required_major =
     (if required_major = 0
      then Inl (InvalidFormat ''RequiredEngineVersion must have a non-zero major version'')
      else if 2 < required_major
      then Inl (Unsupported ''required MDict engine major version other than 1 or 2'')
      else if generated_major = 1 \<and> required_major \<noteq> 1
      then Inl (InvalidFormat ''GeneratedByEngineVersion 1 conflicts with RequiredEngineVersion'')
      else Inr ())"

definition resolve_wire_version :: "nat \<Rightarrow> wire_version result" where
  "resolve_wire_version declared_major =
     (if declared_major = 1 then Inr V1 else if declared_major = 2 then Inr V2
      else Inl (Unsupported ''MDict format major version other than 1 or 2''))"

section \<open>Layouts\<close>

type_synonym keyword_parser =
  "externals \<Rightarrow> file_source \<Rightarrow> header \<Rightarrow> text_encoding \<Rightarrow> nat \<Rightarrow> open_options \<Rightarrow> keyword_section mem"

type_synonym record_parser = "file_source \<Rightarrow> nat \<Rightarrow> limits \<Rightarrow> record_section mem"

text \<open>The body the two versions share; the reservations of the result are moved into it.\<close>

definition parse_layout_with ::
    "keyword_parser \<Rightarrow> record_parser \<Rightarrow> decode_key_rows \<Rightarrow>
     externals \<Rightarrow> file_source \<Rightarrow> header_section \<Rightarrow> container_kind \<Rightarrow> open_options \<Rightarrow> validated_layout mem" where
  "parse_layout_with parse_keywords parse_records wire X src hs kind opts =
     retained (hs_retained_bytes hs) (
     attempt (for_keys kind (hs_header hs)) (\<lambda>key_encoding.
     attempt (for_records kind (hs_header hs)) (\<lambda>record_encoding.
     mbind (parse_keywords X src (hs_header hs) key_encoding (hs_keyword_section_offset hs) opts) (\<lambda>keys.
     retained (ks_retained_bytes keys) (
     mbind (parse_records src (ks_record_section_offset keys) (opt_limits opts)) (\<lambda>records.
     retained (rs_retained_bytes records) (
     if ks_num_entries keys \<noteq> rs_num_entries records
     then lift (Inl (InvalidData (''entry count mismatch between key index ('' @ dec (ks_num_entries keys) @
                       '') and record index ('' @ dec (rs_num_entries records) @ '')'')))
     else
     mret \<lparr>vl_header = hs_header hs, vl_key_encoding = key_encoding, vl_record_encoding = record_encoding,
           vl_sections =
             \<lparr>sec_header = hs_section hs, sec_keyword_header = ks_header keys,
              sec_keyword_index = ks_index keys, sec_keyword_blocks = ks_block_range keys,
              sec_record_header = rs_header records, sec_record_index = rs_index records,
              sec_record_blocks = rs_block_range records\<rparr>,
           vl_total_entries = ks_num_entries keys,
           vl_total_decoded_record_len = rs_total_decompressed_len records,
           vl_key_blocks = ks_blocks keys, vl_record_blocks = rs_blocks records, vl_wire = wire,
           vl_retained = \<lparr>ret_header = hs_retained_bytes hs, ret_key_metadata = ks_retained_bytes keys,
                          ret_record_metadata = rs_retained_bytes records\<rparr>\<rparr>)))))))"

definition v1_parse_layout ::
    "externals \<Rightarrow> file_source \<Rightarrow> header_section \<Rightarrow> container_kind \<Rightarrow> open_options \<Rightarrow> validated_layout mem" where
  "v1_parse_layout = parse_layout_with v1_parse_keyword_section v1_parse_record_section v1_decode_key_rows"

definition v2_parse_layout ::
    "externals \<Rightarrow> file_source \<Rightarrow> header_section \<Rightarrow> container_kind \<Rightarrow> open_options \<Rightarrow> validated_layout mem" where
  "v2_parse_layout = parse_layout_with v2_parse_keyword_section v2_parse_record_section v2_decode_key_rows"

text \<open>A layout that fails the backstop is dropped, and its reservations with it.\<close>

definition layout_bytes :: "validated_layout \<Rightarrow> nat" where
  "layout_bytes l = ret_header (vl_retained l) + ret_key_metadata (vl_retained l) +
     ret_record_metadata (vl_retained l)"

definition verified :: "validated_layout \<Rightarrow> validated_layout mem" where
  "verified l b =
     (case verify l of Inl e \<Rightarrow> (Inl e, release (layout_bytes l) b) | Inr _ \<Rightarrow> (Inr l, b))"

definition open_layout ::
    "externals \<Rightarrow> file_source \<Rightarrow> container_kind \<Rightarrow> open_options \<Rightarrow> validated_layout mem" where
  "open_layout X src kind opts =
     mbind (parse_header X src kind (opt_limits opts) (opt_checksum_policy opts)) (\<lambda>hs.
     attempt (declared_major_version (generated_by_engine_version (hs_header hs))
                ''malformed GeneratedByEngineVersion'') (\<lambda>generated_major.
     attempt (resolve_wire_version generated_major) (\<lambda>version.
     attempt (declared_major_version (required_engine_version (hs_header hs))
                ''malformed RequiredEngineVersion'') (\<lambda>required_major.
     attempt (validate_version_relationship generated_major required_major) (\<lambda>_.
     mbind (case version of V1 \<Rightarrow> v1_parse_layout X src hs kind opts
                          | V2 \<Rightarrow> v2_parse_layout X src hs kind opts) verified)))))"

section \<open>Version dispatch\<close>

lemma version_relation_iff:
  "validate_version_relationship g r = Inr () \<longleftrightarrow> r \<in> {1, 2} \<and> (g = 1 \<longrightarrow> r = 1)"
  by (auto simp: validate_version_relationship_def)

lemma resolve_wire_version_iff:
  "resolve_wire_version g = Inr v \<longleftrightarrow> g = (case v of V1 \<Rightarrow> 1 | V2 \<Rightarrow> 2)"
  by (cases v) (auto simp: resolve_wire_version_def)

section \<open>What a parsed layout satisfies\<close>

definition layout_in_file :: "nat \<Rightarrow> file_source \<Rightarrow> limits \<Rightarrow> validated_layout \<Rightarrow> bool" where
  "layout_in_file offset_bytes src lim l \<longleftrightarrow>
     section_bytes_end (sec_record_blocks (vl_sections l)) \<le> fs_len src \<and>
     tiles kb_comp_offset kb_comp_size (sr_offset (sec_keyword_blocks (vl_sections l))) (vl_key_blocks l)
       (section_bytes_end (sec_keyword_blocks (vl_sections l))) \<and>
     tiles rb_comp_offset rb_comp_size (sr_offset (sec_record_blocks (vl_sections l))) (vl_record_blocks l)
       (section_bytes_end (sec_record_blocks (vl_sections l))) \<and>
     (\<forall>b \<in> set (vl_key_blocks l). key_block_in_limits offset_bytes (vl_key_encoding l) lim b) \<and>
     (\<forall>b \<in> set (vl_record_blocks l). record_block_in_limits lim b)"

lemma parse_layout_with_run:
  assumes "returns (parse_layout_with pk pr wire X src hs kind opts) l"
  obtains e re keys records where "for_keys kind (hs_header hs) = Inr e"
    and "returns (pk X src (hs_header hs) e (hs_keyword_section_offset hs) opts) keys"
    and "returns (pr src (ks_record_section_offset keys) (opt_limits opts)) records"
    and "ks_num_entries keys = rs_num_entries records"
    and "l = \<lparr>vl_header = hs_header hs, vl_key_encoding = e, vl_record_encoding = re,
           vl_sections =
             \<lparr>sec_header = hs_section hs, sec_keyword_header = ks_header keys,
              sec_keyword_index = ks_index keys, sec_keyword_blocks = ks_block_range keys,
              sec_record_header = rs_header records, sec_record_index = rs_index records,
              sec_record_blocks = rs_block_range records\<rparr>,
           vl_total_entries = ks_num_entries keys,
           vl_total_decoded_record_len = rs_total_decompressed_len records,
           vl_key_blocks = ks_blocks keys, vl_record_blocks = rs_blocks records, vl_wire = wire,
           vl_retained = \<lparr>ret_header = hs_retained_bytes hs, ret_key_metadata = ks_retained_bytes keys,
                          ret_record_metadata = rs_retained_bytes records\<rparr>\<rparr>"
  using assms unfolding parse_layout_with_def by (auto split: if_splits)

lemma parse_layout_with_ok:
  assumes run: "returns (parse_layout_with pk pr wire X src hs kind opts) l"
    and hs: "hs_section hs = section_range_new 0 (hs_keyword_section_offset hs)"
    and keys: "\<And>e keys. returns (pk X src (hs_header hs) e (hs_keyword_section_offset hs) opts) keys \<Longrightarrow>
        keyword_section_ok k klen e src (opt_limits opts) (hs_keyword_section_offset hs) keys"
    and recs: "\<And>off r. returns (pr src off (opt_limits opts)) r \<Longrightarrow>
        record_section_ok w rlen src (opt_limits opts) off r"
  shows "layout_ok l" and "layout_in_file k src (opt_limits opts) l" and "vl_wire l = wire"
proof -
  obtain e re ks rs where ks: "returns (pk X src (hs_header hs) e (hs_keyword_section_offset hs) opts) ks"
    and rs: "returns (pr src (ks_record_section_offset ks) (opt_limits opts)) rs" and
    l: "l = \<lparr>vl_header = hs_header hs, vl_key_encoding = e, vl_record_encoding = re,
           vl_sections =
             \<lparr>sec_header = hs_section hs, sec_keyword_header = ks_header ks,
              sec_keyword_index = ks_index ks, sec_keyword_blocks = ks_block_range ks,
              sec_record_header = rs_header rs, sec_record_index = rs_index rs,
              sec_record_blocks = rs_block_range rs\<rparr>,
           vl_total_entries = ks_num_entries ks,
           vl_total_decoded_record_len = rs_total_decompressed_len rs,
           vl_key_blocks = ks_blocks ks, vl_record_blocks = rs_blocks rs, vl_wire = wire,
           vl_retained = \<lparr>ret_header = hs_retained_bytes hs, ret_key_metadata = ks_retained_bytes ks,
                          ret_record_metadata = rs_retained_bytes rs\<rparr>\<rparr>"
    using run by (rule parse_layout_with_run)
  note k = keys [OF ks, unfolded keyword_section_ok_def] and r = recs [OF rs, unfolded record_section_ok_def]
  show "layout_ok l"
    unfolding layout_ok_def sections_adjoin_def l using k r hs by simp
  show "layout_in_file k src (opt_limits opts) l"
    unfolding layout_in_file_def l using k r by auto
  show "vl_wire l = wire" by (simp add: l)
qed

lemma v1_parse_layout_ok:
  assumes "returns (v1_parse_layout X src hs kind opts) l"
    and "hs_section hs = section_range_new 0 (hs_keyword_section_offset hs)"
  shows "layout_ok l" and "layout_in_file 4 src (opt_limits opts) l" and "vl_wire l = v1_decode_key_rows"
proof -
  note ok = parse_layout_with_ok [OF assms(1)[unfolded v1_parse_layout_def] assms(2)
      v1_parse_keyword_section_ok(1) v1_parse_record_section_ok]
  show "layout_ok l" and "layout_in_file 4 src (opt_limits opts) l" and "vl_wire l = v1_decode_key_rows"
    by (rule ok; assumption)+
qed

lemma v2_parse_layout_ok:
  assumes "returns (v2_parse_layout X src hs kind opts) l"
    and "hs_section hs = section_range_new 0 (hs_keyword_section_offset hs)"
  shows "layout_ok l" and "layout_in_file 8 src (opt_limits opts) l" and "vl_wire l = v2_decode_key_rows"
proof -
  note ok = parse_layout_with_ok [OF assms(1)[unfolded v2_parse_layout_def] assms(2)
      v2_parse_keyword_section_ok(1) v2_parse_record_section_ok]
  show "layout_ok l" and "layout_in_file 8 src (opt_limits opts) l" and "vl_wire l = v2_decode_key_rows"
    by (rule ok; assumption)+
qed

lemma returns_verified [simp]: "returns (verified l) l' \<longleftrightarrow> l' = l \<and> verify l = Inr ()"
  by (cases "verify l") (auto simp: returns_def verified_def)

lemma open_layout_run:
  assumes "returns (open_layout X src kind opts) l"
  obtains hs g r v where "returns (parse_header X src kind (opt_limits opts) (opt_checksum_policy opts)) hs"
    and "declared_major_version (generated_by_engine_version (hs_header hs)) ''malformed GeneratedByEngineVersion'' = Inr g"
    and "declared_major_version (required_engine_version (hs_header hs)) ''malformed RequiredEngineVersion'' = Inr r"
    and "resolve_wire_version g = Inr v" and "validate_version_relationship g r = Inr ()"
    and "returns (case v of V1 \<Rightarrow> v1_parse_layout X src hs kind opts | V2 \<Rightarrow> v2_parse_layout X src hs kind opts) l"
    and "verify l = Inr ()"
  using assms unfolding open_layout_def by auto

section \<open>Memory\<close>

lemma accounts_conv:
  assumes "accounts m k" and "\<And>x. returns m x \<Longrightarrow> k x = k' x"
  shows "accounts m k'"
proof (rule accountsI)
  fix b r b' assume "budget_ok b" and "m b = (r, b')"
  from accountsD [OF assms(1) this] show "budget_ok b' \<and> mb_max b' = mb_max b \<and> mb_peak b \<le> mb_peak b' \<and>
    mb_used b' = mb_used b + (case r of Inl _ \<Rightarrow> 0 | Inr x \<Rightarrow> k' x)"
    using \<open>m b = (r, b')\<close> assms(2) by (cases r) (auto intro: returnsI)
qed

lemma accounts_retained_conv:
  assumes "accounts body k" and "\<And>x. returns body x \<Longrightarrow> k x + n = k' x"
  shows "accounts (retained n body) k'"
  by (rule accounts_conv [OF accounts_retained [OF assms(1)]]) (use assms(2) in auto)

lemma accounts_parse_layout_with:
  assumes "\<And>e. accounts (pk X src (hs_header hs) e (hs_keyword_section_offset hs) opts) (\<lambda>_. 0)"
    and "\<And>off. accounts (pr src off (opt_limits opts)) (\<lambda>_. 0)"
  shows "accounts (parse_layout_with pk pr wire X src hs kind opts) layout_bytes"
  unfolding parse_layout_with_def
  apply (rule accounts_retained_conv [where k = "\<lambda>l. ret_key_metadata (vl_retained l) + ret_record_metadata (vl_retained l)"])
   apply (intro accounts_mbind accounts_lift assms)
   apply (rule accounts_retained_conv [where k = "\<lambda>l. ret_record_metadata (vl_retained l)"])
    apply (intro accounts_mbind assms)
    apply (rule accounts_retained_conv [where k = "\<lambda>_. 0"])
     apply (intro accounting)
    apply (auto simp: layout_bytes_def split: if_splits)
  done

lemma accounts_v1_parse_layout: "accounts (v1_parse_layout X src hs kind opts) layout_bytes"
  unfolding v1_parse_layout_def by (intro accounts_parse_layout_with accounting)

lemma accounts_v2_parse_layout: "accounts (v2_parse_layout X src hs kind opts) layout_bytes"
  unfolding v2_parse_layout_def by (intro accounts_parse_layout_with accounting)

text \<open>A computation that hands its reservations to a checked continuation.\<close>

lemma accounts_mbind_verified:
  assumes "accounts m layout_bytes"
  shows "accounts (mbind m verified) layout_bytes"
proof (rule accountsI)
  fix b r b' assume ok: "budget_ok b" and run: "mbind m verified b = (r, b')"
  obtain r1 b1 where mb: "m b = (r1, b1)" by (cases "m b")
  note a1 = accountsD [OF assms ok mb]
  show "budget_ok b' \<and> mb_max b' = mb_max b \<and> mb_peak b \<le> mb_peak b' \<and>
    mb_used b' = mb_used b + (case r of Inl _ \<Rightarrow> 0 | Inr x \<Rightarrow> layout_bytes x)"
  proof (cases r1)
    case (Inl e)
    then show ?thesis using run mb a1 by (auto simp: mbind_def)
  next
    case (Inr l)
    then have used: "mb_used b1 = mb_used b + layout_bytes l" using a1(4) by simp
    note rel = release_ok [OF a1(1), of "layout_bytes l"]
    show ?thesis using run mb Inr a1 used rel by (cases "verify l") (auto simp: mbind_def verified_def)
  qed
qed

lemma accounts_open_layout: "accounts (open_layout X src kind opts) layout_bytes"
  unfolding open_layout_def
proof (rule accounts_mbind [OF accounts_parse_header])
  fix hs
  have "accounts (case v of V1 \<Rightarrow> v1_parse_layout X src hs kind opts | V2 \<Rightarrow> v2_parse_layout X src hs kind opts)
      layout_bytes" for v
    by (cases v) (simp_all add: accounts_v1_parse_layout accounts_v2_parse_layout)
  then show "accounts (attempt (declared_major_version (generated_by_engine_version (hs_header hs))
       ''malformed GeneratedByEngineVersion'') (\<lambda>generated_major.
     attempt (resolve_wire_version generated_major) (\<lambda>version.
     attempt (declared_major_version (required_engine_version (hs_header hs))
       ''malformed RequiredEngineVersion'') (\<lambda>required_major.
     attempt (validate_version_relationship generated_major required_major) (\<lambda>_.
     mbind (case version of V1 \<Rightarrow> v1_parse_layout X src hs kind opts
                          | V2 \<Rightarrow> v2_parse_layout X src hs kind opts) verified)))))  layout_bytes"
    by (intro accounts_mbind_verified accounts_mbind accounts_lift)
qed

end
