(* ===== verification/Normalize.thy ===== *)
theory Normalize
  imports Utf8 Encoding Limits
begin

text \<open>
  Key normalization (\<^verbatim>\<open>src/src/core/normalize.rs\<close>): ASCII stripping, resource-path
  separators and case folding. The Unicode lowercase table is \<open>ext_to_lowercase\<close>. The source
  has three copies of the loop (into a string, into bytes, length only); the lemmas show that they
  agree, and that equal raw keys, separator styles and leading separators normalize alike.
\<close>

datatype strip_key_profile = AsciiAlphanumeric

record key_normalizer =
  kn_case_sensitive :: bool
  kn_strip_profile :: "strip_key_profile option"
  kn_resource_path :: bool

definition from_header :: "header \<Rightarrow> container_kind \<Rightarrow> key_normalizer" where
  "from_header h kind =
     \<lparr>kn_case_sensitive = key_case_sensitive h,
      kn_strip_profile = (if strip_key h then Some AsciiAlphanumeric else None),
      kn_resource_path = (kind = Mdd)\<rparr>"

definition retains :: "key_normalizer \<Rightarrow> nat \<Rightarrow> bool" where
  "retains n c \<longleftrightarrow> kn_strip_profile n \<noteq> Some AsciiAlphanumeric \<or> \<not> is_ascii c \<or> is_ascii_alphanumeric c"

text \<open>\<open>normalize_into\<close>: what the loop appends to \<open>out\<close>. \<open>at_start\<close> is the flag
  \<open>at_path_start\<close>; 47 is the slash, 92 the backslash.\<close>

fun normalize_chars :: "externals \<Rightarrow> key_normalizer \<Rightarrow> bool \<Rightarrow> rstring \<Rightarrow> rstring" where
  "normalize_chars X n at_start [] = []"
| "normalize_chars X n at_start (c # raw) =
     (if kn_resource_path n \<and> at_start \<and> (c = 47 \<or> c = 92) then normalize_chars X n at_start raw
      else if \<not> retains n c then normalize_chars X n False raw
      else
      let c' = (if kn_resource_path n \<and> c = 47 then 92 else c) in
      (if kn_case_sensitive n \<or> is_ascii c'
       then [if kn_case_sensitive n then c' else to_ascii_lowercase c']
       else ext_to_lowercase X c') @ normalize_chars X n False raw)"

definition normalize_into :: "externals \<Rightarrow> key_normalizer \<Rightarrow> rstring \<Rightarrow> rstring \<Rightarrow> rstring" where
  "normalize_into X n raw out = out @ normalize_chars X n True raw"

text \<open>\<open>normalize_bytes_into\<close>, which encodes every character as it goes.\<close>

fun normalize_bytes :: "externals \<Rightarrow> key_normalizer \<Rightarrow> bool \<Rightarrow> rstring \<Rightarrow> bytes" where
  "normalize_bytes X n at_start [] = []"
| "normalize_bytes X n at_start (c # raw) =
     (if kn_resource_path n \<and> at_start \<and> (c = 47 \<or> c = 92) then normalize_bytes X n at_start raw
      else if \<not> retains n c then normalize_bytes X n False raw
      else
      let c' = (if kn_resource_path n \<and> c = 47 then 92 else c) in
      (if kn_case_sensitive n \<or> is_ascii c'
       then utf8_char (if kn_case_sensitive n then c' else to_ascii_lowercase c')
       else concat (map utf8_char (ext_to_lowercase X c'))) @ normalize_bytes X n False raw)"

definition normalize_bytes_into :: "externals \<Rightarrow> key_normalizer \<Rightarrow> rstring \<Rightarrow> bytes \<Rightarrow> bytes" where
  "normalize_bytes_into X n raw out = out @ normalize_bytes X n True raw"

text \<open>The length-only loop, every addition checked.\<close>

fun add_lengths :: "nat \<Rightarrow> rstring \<Rightarrow> nat result" where
  "add_lengths acc [] = Inr acc"
| "add_lengths acc (c # cs) =
     and_then (ok_or (checked_add acc (len_utf8 c)) (InvalidFormat ''normalized key length overflow''))
       (\<lambda>acc. add_lengths acc cs)"

fun normalized_len_from :: "externals \<Rightarrow> key_normalizer \<Rightarrow> bool \<Rightarrow> nat \<Rightarrow> rstring \<Rightarrow> nat result" where
  "normalized_len_from X n at_start acc [] = Inr acc"
| "normalized_len_from X n at_start acc (c # raw) =
     (if kn_resource_path n \<and> at_start \<and> (c = 47 \<or> c = 92) then normalized_len_from X n at_start acc raw
      else if \<not> retains n c then normalized_len_from X n False acc raw
      else
      let c' = (if kn_resource_path n \<and> c = 47 then 92 else c) in
      and_then
        (if kn_case_sensitive n \<or> is_ascii c' then add_lengths acc [c']
         else add_lengths acc (ext_to_lowercase X c')) (\<lambda>acc.
      normalized_len_from X n False acc raw))"

definition normalized_len :: "externals \<Rightarrow> key_normalizer \<Rightarrow> rstring \<Rightarrow> nat result" where
  "normalized_len X n raw = normalized_len_from X n True 0 raw"

definition normalize :: "externals \<Rightarrow> key_normalizer \<Rightarrow> rstring \<Rightarrow> rstring result" where
  "normalize X n raw =
     and_then (normalized_len X n raw) (\<lambda>capacity.
     and_then (try_reserve_vec 1 0 capacity ''normalized key'') (\<lambda>_.
     Inr (normalize_into X n raw [])))"

section \<open>The three loops agree\<close>

definition normal_form :: "externals \<Rightarrow> key_normalizer \<Rightarrow> rstring \<Rightarrow> rstring" where
  "normal_form X n raw = normalize_chars X n True raw"

lemma normalize_bytes_chars: "normalize_bytes X n at_start raw = utf8 (normalize_chars X n at_start raw)"
  by (induction X n at_start raw rule: normalize_chars.induct) (auto simp: Let_def utf8_def)

lemma add_lengths_eq:
  "add_lengths acc cs =
     (if acc + str_len cs \<le> u64_max \<or> cs = [] then Inr (acc + str_len cs)
      else Inl (InvalidFormat ''normalized key length overflow''))"
proof (induction acc cs rule: add_lengths.induct)
  case (2 acc c cs)
  show ?case
  proof (cases "acc + len_utf8 c \<le> u64_max")
    case True
    then have "checked_add acc (len_utf8 c) = Some (acc + len_utf8 c)" by simp
    then show ?thesis using 2 [of "acc + len_utf8 c"] True
      by (cases cs) (simp_all add: add.assoc del: checked_add_Some)
  next
    case False
    then have "checked_add acc (len_utf8 c) = None" by simp
    then show ?thesis using False by (simp del: checked_add_None)
  qed
qed simp

lemma normalized_len_from_eq:
  assumes "acc \<le> u64_max"
  shows "normalized_len_from X n at_start acc raw =
     (if acc + str_len (normalize_chars X n at_start raw) \<le> u64_max
      then Inr (acc + str_len (normalize_chars X n at_start raw))
      else Inl (InvalidFormat ''normalized key length overflow''))"
  using assms
proof (induction X n at_start acc raw rule: normalized_len_from.induct)
  case (2 X n at_start acc c raw)
  show ?case
  proof (cases "kn_resource_path n \<and> at_start \<and> (c = 47 \<or> c = 92)")
    case True
    then show ?thesis using "2.IH"(1) "2.prems" by simp
  next
    case nsep: False
    show ?thesis
    proof (cases "retains n c")
      case False
      have "normalized_len_from X n at_start acc (c # raw) = normalized_len_from X n False acc raw"
        "normalize_chars X n at_start (c # raw) = normalize_chars X n False raw"
        using False by (simp_all only: normalized_len_from.simps normalize_chars.simps nsep if_False if_True not_False_eq_True)
      then show ?thesis using "2.IH"(2) [OF nsep False "2.prems"] by simp
    next
      case True
      define c' where "c' = (if kn_resource_path n \<and> c = 47 then 92 else c)"
      define out where "out = (if kn_case_sensitive n \<or> is_ascii c'
        then [if kn_case_sensitive n then c' else to_ascii_lowercase c'] else ext_to_lowercase X c')"
      have len: "(if kn_case_sensitive n \<or> is_ascii c' then add_lengths acc [c']
          else add_lengths acc (ext_to_lowercase X c')) = add_lengths acc out"
        by (auto simp: out_def add_lengths_eq is_ascii_def to_ascii_lowercase_def len_utf8_def)
      have chars: "normalize_chars X n at_start (c # raw) = out @ normalize_chars X n False raw"
        using True by (simp only: normalize_chars.simps nsep if_False not_True_eq_False Let_def
            c'_def [symmetric] out_def [symmetric])
      have step: "normalized_len_from X n at_start acc (c # raw) =
          and_then (add_lengths acc out) (\<lambda>acc. normalized_len_from X n False acc raw)"
        using True by (simp only: normalized_len_from.simps nsep if_False not_True_eq_False Let_def
            c'_def [symmetric] len)
      show ?thesis
      proof (cases "acc + str_len out \<le> u64_max")
        case le: True
        then have "add_lengths acc out = Inr (acc + str_len out)" by (simp add: add_lengths_eq)
        moreover have "normalized_len_from X n False (acc + str_len out) raw =
            (if acc + str_len out + str_len (normalize_chars X n False raw) \<le> u64_max
             then Inr (acc + str_len out + str_len (normalize_chars X n False raw))
             else Inl (InvalidFormat ''normalized key length overflow''))"
          by (rule "2.IH"(3) [OF nsep _ c'_def le]) (use True in auto)
        ultimately show ?thesis unfolding chars step by (simp add: add.assoc)
      next
        case False
        then have "out \<noteq> []" using "2.prems" by auto
        then have "add_lengths acc out = Inl (InvalidFormat ''normalized key length overflow'')"
          using False by (simp add: add_lengths_eq)
        then show ?thesis using False unfolding chars step by simp
      qed
    qed
  qed
qed simp

lemma normalized_len_eq:
  "normalized_len X n raw =
     (if str_len (normal_form X n raw) \<le> u64_max then Inr (str_len (normal_form X n raw))
      else Inl (InvalidFormat ''normalized key length overflow''))"
  unfolding normalized_len_def normal_form_def by (subst normalized_len_from_eq) simp_all

lemma normalize_Inr:
  "normalize X n raw = Inr s \<longleftrightarrow> s = normal_form X n raw \<and> str_len s \<le> isize_max"
  by (auto simp: normalize_def normalized_len_eq normalize_into_def normal_form_def isize_max_def u64_max_def)

lemma normalized_len_Inr: "normalized_len X n raw = Inr k \<longleftrightarrow> k = str_len (normal_form X n raw) \<and> k \<le> u64_max"
  by (auto simp: normalized_len_eq)

lemma normal_form_well_formed:
  assumes "externals_ok X" and "well_formed raw"
  shows "well_formed (normal_form X n raw)"
proof -
  have low: "is_scalar c \<Longrightarrow> well_formed (ext_to_lowercase X c)" for c
    using assms(1) by (simp add: externals_ok_def)
  have ascii: "is_scalar 92" "is_scalar c \<Longrightarrow> is_scalar (to_ascii_lowercase c)" for c
    by (auto simp: is_scalar_def to_ascii_lowercase_def)
  have "well_formed (normalize_chars X n b raw)" for b
    using assms(2)
    by (induction raw arbitrary: b) (auto simp: Let_def low ascii)
  then show ?thesis by (simp add: normal_form_def)
qed

section \<open>What normalization ignores\<close>

text \<open>Leading separators, and the style of the others, in a resource path.\<close>

definition is_separator :: "nat \<Rightarrow> bool" where
  "is_separator c \<longleftrightarrow> c = 47 \<or> c = 92"

lemma normalize_leading:
  "kn_resource_path n \<Longrightarrow> list_all is_separator seps \<Longrightarrow> normal_form X n (seps @ raw) = normal_form X n raw"
  by (induction seps) (auto simp: normal_form_def is_separator_def)

lemma normalize_separator_style:
  assumes "kn_resource_path n"
  shows "normalize_chars X n b (map (\<lambda>c. if c = 47 then 92 else c) raw) = normalize_chars X n b raw"
  using assms
  by (induction X n b raw rule: normalize_chars.induct)
    (auto simp: Let_def retains_def is_ascii_def is_ascii_alphanumeric_def)

text \<open>ASCII case, when the header does not ask for case-sensitive keys.\<close>

lemma normalize_ascii_case:
  assumes "\<not> kn_case_sensitive n"
  shows "normalize_chars X n b (map to_ascii_lowercase raw) = normalize_chars X n b raw"
  using assms
proof (induction raw arbitrary: b)
  case (Cons c raw)
  have sep: "to_ascii_lowercase c = 47 \<longleftrightarrow> c = 47" "to_ascii_lowercase c = 92 \<longleftrightarrow> c = 92"
    by (auto simp: to_ascii_lowercase_def)
  have r: "retains n (to_ascii_lowercase c) = retains n c" "is_ascii (to_ascii_lowercase c) = is_ascii c"
    by (auto simp: retains_def is_ascii_def to_ascii_lowercase_def is_ascii_alphanumeric_def)
  have i: "to_ascii_lowercase (to_ascii_lowercase c) = to_ascii_lowercase c" by (auto simp: to_ascii_lowercase_def)
  have n: "\<not> is_ascii c \<Longrightarrow> to_ascii_lowercase c = c" by (auto simp: to_ascii_lowercase_def is_ascii_def)
  show ?case
  proof (cases "is_ascii c")
    case True
    then show ?thesis using Cons by (auto simp: Let_def sep r i)
  next
    case False
    then show ?thesis using Cons n by (auto simp: Let_def)
  qed
qed simp

end
