(* ===== verification/File_State.thy ===== *)
theory File_State
  imports Layout Normalize
begin

text \<open>
  One open dictionary (\<^verbatim>\<open>src/src/core/mod.rs\<close>): the immutable file and the state its
  methods change, namely the memory budget and three caches. A method is a computation on that
  state. Calls are sequential and every clone of a cached \<open>Arc\<close> is dropped before its cache slot is
  evicted, as the methods of the library do, so evicting a slot returns its bytes. (An iterator keeps
  a clone between calls: \<open>Session\<close> accounts for it.)

  \<open>file_inv\<close> is the invariant every method keeps: the budget is charged exactly for what the
  caches hold and what is reserved around the call, and each cache satisfies a predicate its own
  theory supplies. \<open>runs\<close> is the Hoare triple over it, with one rule per combinator.
\<close>

section \<open>Cached failures\<close>

datatype cached_failure_kind =
    FInvalidFormat string
  | FInvalidData string
  | FTruncated string nat nat
  | FLimitExceeded string nat nat
  | FChecksumMismatch string u32 u32
  | FDecode string string
  | FMissingPasscode
  | FInvalidPasscode string
  | FUnsupported string

record cached_failure =
  cf_kind :: cached_failure_kind
  cf_memory :: nat

definition capture :: "error \<Rightarrow> budget \<Rightarrow> cached_failure option \<times> budget" where
  "capture e b =
     (let plain = (\<lambda>k. (Some \<lparr>cf_kind = k, cf_memory = 0\<rparr>, b)) in
      case e of
        Io _ \<Rightarrow> (None, b)
      | AllocationFailed _ _ \<Rightarrow> (None, b)
      | KeyIndexRejected _ \<Rightarrow> (None, b)
      | Cancelled _ \<Rightarrow> (None, b)
      | SourceChanged _ \<Rightarrow> (None, b)
      | LimitExceeded limit v maximum \<Rightarrow>
          if limit = ''working_memory_bytes'' then (None, b) else plain (FLimitExceeded limit v maximum)
      | InvalidFormat context \<Rightarrow> plain (FInvalidFormat context)
      | InvalidData context \<Rightarrow>
          (case claim (length context) b of
             (Inl _, b') \<Rightarrow> (None, b')
           | (Inr _, b') \<Rightarrow> (Some \<lparr>cf_kind = FInvalidData context, cf_memory = length context\<rparr>, b'))
      | Truncated context needed left \<Rightarrow> plain (FTruncated context needed left)
      | ChecksumMismatch context expected actual \<Rightarrow> plain (FChecksumMismatch context expected actual)
      | Decode context enc \<Rightarrow> plain (FDecode context enc)
      | MissingPasscode \<Rightarrow> plain FMissingPasscode
      | InvalidPasscode context \<Rightarrow> plain (FInvalidPasscode context)
      | Unsupported feature \<Rightarrow> plain (FUnsupported feature))"

definition replay :: "cached_failure \<Rightarrow> error" where
  "replay cf =
     (case cf_kind cf of
        FInvalidFormat context \<Rightarrow> InvalidFormat context
      | FInvalidData context \<Rightarrow> InvalidData context
      | FTruncated context needed left \<Rightarrow> Truncated context needed left
      | FLimitExceeded limit v maximum \<Rightarrow> LimitExceeded limit v maximum
      | FChecksumMismatch context expected actual \<Rightarrow> ChecksumMismatch context expected actual
      | FDecode context enc \<Rightarrow> Decode context enc
      | FMissingPasscode \<Rightarrow> MissingPasscode
      | FInvalidPasscode context \<Rightarrow> InvalidPasscode context
      | FUnsupported feature \<Rightarrow> Unsupported feature)"

text \<open>Failures that may pass: those of the environment and of a full memory budget.\<close>

definition transient :: "error \<Rightarrow> bool" where
  "transient e \<longleftrightarrow>
     (case e of
        Io _ \<Rightarrow> True | AllocationFailed _ _ \<Rightarrow> True | KeyIndexRejected _ \<Rightarrow> True | Cancelled _ \<Rightarrow> True
      | SourceChanged _ \<Rightarrow> True | LimitExceeded limit _ _ \<Rightarrow> limit = ''working_memory_bytes'' | _ \<Rightarrow> False)"

lemma replay_captured: "capture e b = (Some cf, b') \<Longrightarrow> replay cf = e \<and> \<not> transient e"
  by (auto simp: capture_def replay_def transient_def Let_def split: error.splits if_splits prod.splits sum.splits)

lemma transient_not_captured: "transient e \<Longrightarrow> capture e b = (None, b)"
  by (auto simp: capture_def transient_def split: error.splits if_splits)

section \<open>The file and its state\<close>

record decoded_key_block =
  dkb_entries :: "decoded_key_row list"
  dkb_memory :: nat

record decoded_record_block =
  drb_bytes :: bytes
  drb_memory :: nat

record key_locator =
  kl_text :: bytes
  kl_bounds :: "nat list"
  kl_order :: "nat list"
  kl_raw_digest :: "u32 list"
  kl_memory :: nat

datatype 'a cached = Ready 'a | Failed cached_failure

record mdict_file =
  mf_kind :: container_kind
  mf_source :: file_source
  mf_layout :: validated_layout
  mf_normalizer :: key_normalizer
  mf_limits :: limits
  mf_checksum_policy :: checksum_policy

record file_state =
  st_memory :: budget
  st_key_cache :: "(nat \<times> decoded_key_block cached) option"
  st_record_cache :: "(nat \<times> decoded_record_block cached) option"
  st_locator :: "key_locator cached option"

text \<open>\<open>MdictFile::open\<close>, given what the opened file holds.\<close>

definition mdict_open ::
    "externals \<Rightarrow> bytes \<Rightarrow> container_kind \<Rightarrow> open_options \<Rightarrow> (mdict_file \<times> file_state) result" where
  "mdict_open X content kind opts =
     and_then (source_of_file content) (\<lambda>source.
     case open_layout X source kind opts (budget_new (working_memory_bytes (opt_limits opts))) of
       (Inl e, _) \<Rightarrow> Inl e
     | (Inr layout, memory) \<Rightarrow>
         Inr (\<lparr>mf_kind = kind, mf_source = source, mf_layout = layout,
               mf_normalizer = from_header (vl_header layout) kind, mf_limits = opt_limits opts,
               mf_checksum_policy = opt_checksum_policy opts\<rparr>,
              \<lparr>st_memory = memory, st_key_cache = None, st_record_cache = None, st_locator = None\<rparr>))"

definition mf_len :: "mdict_file \<Rightarrow> nat" where
  "mf_len f = vl_total_entries (mf_layout f)"

definition mf_is_empty :: "mdict_file \<Rightarrow> bool" where
  "mf_is_empty f \<longleftrightarrow> mf_len f = 0"

definition key_block_count :: "mdict_file \<Rightarrow> nat" where
  "key_block_count f = length (vl_key_blocks (mf_layout f))"

definition record_text_encoding :: "mdict_file \<Rightarrow> text_encoding result" where
  "record_text_encoding f =
     ok_or (vl_record_encoding (mf_layout f)) (InvalidFormat ''container records are not text'')"

record memory_usage_row =
  mu_current_bytes :: nat
  mu_peak_bytes :: nat
  mu_metadata_bytes :: nat
  mu_locator_bytes :: nat
  mu_key_cache_bytes :: nat
  mu_record_cache_bytes :: nat

definition memory_usage :: "mdict_file \<Rightarrow> file_state \<Rightarrow> memory_usage_row result" where
  "memory_usage f st =
     and_then (metadata_bytes (vl_retained (mf_layout f))) (\<lambda>metadata.
     Inr \<lparr>mu_current_bytes = mb_used (st_memory st),
          mu_peak_bytes = max (mb_peak (st_memory st)) (mb_used (st_memory st)),
          mu_metadata_bytes = metadata,
          mu_locator_bytes = (case st_locator st of Some (Ready l) \<Rightarrow> kl_memory l | _ \<Rightarrow> 0),
          mu_key_cache_bytes = (case st_key_cache st of Some (_, Ready b) \<Rightarrow> dkb_memory b | _ \<Rightarrow> 0),
          mu_record_cache_bytes =
            (case st_record_cache st of Some (_, Ready b) \<Rightarrow> drb_memory b | _ \<Rightarrow> 0)\<rparr>)"

text \<open>\<open>reserve_decoded_record_text\<close>: the bytes reserved around one decoded record.\<close>

definition decoded_record_text_bytes :: "externals \<Rightarrow> mdict_file \<Rightarrow> nat \<Rightarrow> nat result" where
  "decoded_record_text_bytes X f encoded_len =
     and_then (record_text_encoding f) (\<lambda>e.
     and_then (checked_usize encoded_len ''encoded MDX record length'') (\<lambda>encoded_len.
     and_then (ensure_usize_limit ''materialized_record_bytes'' encoded_len
                 (materialized_record_bytes (mf_limits f))) (\<lambda>_.
     and_then (max_decoded_len X e encoded_len) (\<lambda>decoded_len.
     and_then (ensure_usize_limit ''materialized_record_bytes'' decoded_len
                 (materialized_record_bytes (mf_limits f))) (\<lambda>_.
     ok_or (checked_add encoded_len decoded_len)
       (InvalidFormat ''decoded record working size overflow''))))))"

section \<open>Computations on the state\<close>

text \<open>A computation on a state \<open>'s\<close>. The methods of a file have \<open>file_state\<close> for it; the combinators
  work on every extension of that record, such as the state of an open index.\<close>

type_synonym ('s, 'a) comp = "'s \<Rightarrow> 'a result \<times> 's"
type_synonym 'a op = "(file_state, 'a) comp"

definition olift :: "'a result \<Rightarrow> ('s, 'a) comp" where
  "olift r st = (r, st)"

definition obind :: "('s, 'a) comp \<Rightarrow> ('a \<Rightarrow> ('s, 'b) comp) \<Rightarrow> ('s, 'b) comp" where
  "obind m f st = (case m st of (Inl e, st') \<Rightarrow> (Inl e, st') | (Inr x, st') \<Rightarrow> f x st')"

definition omem :: "'a mem \<Rightarrow> ('z file_state_scheme, 'a) comp" where
  "omem m st = (case m (st_memory st) of (r, b) \<Rightarrow> (r, st\<lparr>st_memory := b\<rparr>))"

definition drop_bytes :: "nat \<Rightarrow> 'z file_state_scheme \<Rightarrow> 'z file_state_scheme" where
  "drop_bytes n st = st\<lparr>st_memory := release n (st_memory st)\<rparr>"

definition oscoped :: "nat \<Rightarrow> ('z file_state_scheme, 'a) comp \<Rightarrow> ('z file_state_scheme, 'a) comp" where
  "oscoped n body =
     obind (omem (claim n)) (\<lambda>_ st. case body st of (r, st') \<Rightarrow> (r, drop_bytes n st'))"

definition oretained :: "nat \<Rightarrow> ('z file_state_scheme, 'a) comp \<Rightarrow> ('z file_state_scheme, 'a) comp" where
  "oretained n body =
     obind (omem (claim n)) (\<lambda>_ st.
       case body st of (Inl e, st') \<Rightarrow> (Inl e, drop_bytes n st') | (Inr x, st') \<Rightarrow> (Inr x, st'))"

text \<open>A value that owns \<open>bytes x\<close> and is inspected, then dropped; or checked, and dropped only
  when the check fails.\<close>

definition oinspect ::
    "('a \<Rightarrow> nat) \<Rightarrow> ('z file_state_scheme, 'a) comp \<Rightarrow> ('a \<Rightarrow> 'b result) \<Rightarrow> ('z file_state_scheme, 'b) comp" where
  "oinspect size_of m g st =
     (case m st of (Inl e, st') \<Rightarrow> (Inl e, st') | (Inr x, st') \<Rightarrow> (g x, drop_bytes (size_of x) st'))"

definition ochecked ::
    "('a \<Rightarrow> nat) \<Rightarrow> ('z file_state_scheme, 'a) comp \<Rightarrow> ('a \<Rightarrow> unit result) \<Rightarrow> ('z file_state_scheme, 'a) comp" where
  "ochecked size_of m g st =
     (case m st of
        (Inl e, st') \<Rightarrow> (Inl e, st')
      | (Inr x, st') \<Rightarrow> (case g x of Inl e \<Rightarrow> (Inl e, drop_bytes (size_of x) st') | Inr _ \<Rightarrow> (Inr x, st')))"

abbreviation otry :: "'a result \<Rightarrow> ('a \<Rightarrow> ('s, 'b) comp) \<Rightarrow> ('s, 'b) comp" where
  "otry r f \<equiv> obind (olift r) f"

abbreviation oret :: "'a \<Rightarrow> ('s, 'a) comp" where
  "oret x \<equiv> olift (Inr x)"

lemma op_simps [simp]:
  "otry (Inl e) f = olift (Inl e)"
  "otry (Inr x) f = f x"
  by (auto simp: olift_def obind_def fun_eq_iff)

section \<open>The invariant\<close>

definition slot_bytes :: "('a \<Rightarrow> nat) \<Rightarrow> (nat \<times> 'a cached) option \<Rightarrow> nat" where
  "slot_bytes size_of slot =
     (case slot of None \<Rightarrow> 0 | Some (_, Ready b) \<Rightarrow> size_of b | Some (_, Failed cf) \<Rightarrow> cf_memory cf)"

definition locator_slot_bytes :: "key_locator cached option \<Rightarrow> nat" where
  "locator_slot_bytes slot =
     (case slot of None \<Rightarrow> 0 | Some (Ready l) \<Rightarrow> kl_memory l | Some (Failed cf) \<Rightarrow> cf_memory cf)"

definition state_bytes :: "'z file_state_scheme \<Rightarrow> nat" where
  "state_bytes st = slot_bytes dkb_memory (st_key_cache st) + slot_bytes drb_memory (st_record_cache st) +
     locator_slot_bytes (st_locator st)"

definition file_inv ::
    "('z \<Rightarrow> bool) \<Rightarrow> nat \<Rightarrow> ((nat \<times> decoded_key_block cached) option \<Rightarrow> bool) \<Rightarrow>
     ((nat \<times> decoded_record_block cached) option \<Rightarrow> bool) \<Rightarrow> (key_locator cached option \<Rightarrow> bool) \<Rightarrow> nat \<Rightarrow>
     'z file_state_scheme \<Rightarrow> bool" where
  "file_inv E M KP RP LP base st \<longleftrightarrow>
     budget_ok (st_memory st) \<and> mb_max (st_memory st) = M \<and> mb_used (st_memory st) = base + state_bytes st \<and>
     KP (st_key_cache st) \<and> RP (st_record_cache st) \<and> LP (st_locator st) \<and> E (file_state.more st)"

definition runs ::
    "(nat \<Rightarrow> 's \<Rightarrow> bool) \<Rightarrow> ('a \<Rightarrow> nat) \<Rightarrow> ('s, 'a) comp \<Rightarrow> ('a \<Rightarrow> bool) \<Rightarrow> bool" where
  "runs I k m Q \<longleftrightarrow> (\<forall>base st. I base st \<longrightarrow>
     (case m st of (Inl e, st') \<Rightarrow> I base st' | (Inr x, st') \<Rightarrow> I (base + k x) st' \<and> Q x))"

abbreviation keeps :: "(nat \<Rightarrow> 's \<Rightarrow> bool) \<Rightarrow> ('s, 'a) comp \<Rightarrow> ('a \<Rightarrow> bool) \<Rightarrow> bool" where
  "keeps I m Q \<equiv> runs I (\<lambda>_. 0) m Q"

lemma runsI:
  assumes "\<And>base st r st'. I base st \<Longrightarrow> m st = (r, st') \<Longrightarrow>
    (case r of Inl e \<Rightarrow> I base st' | Inr x \<Rightarrow> I (base + k x) st' \<and> Q x)"
  shows "runs I k m Q"
  unfolding runs_def
proof (intro allI impI)
  fix base st assume "I base st"
  then show "case m st of (Inl e, st') \<Rightarrow> I base st' | (Inr x, st') \<Rightarrow> I (base + k x) st' \<and> Q x"
    using assms by (cases "m st"; cases "fst (m st)") fastforce+
qed

lemma runsD:
  assumes "runs I k m Q" and "I base st" and "m st = (r, st')"
  shows "case r of Inl e \<Rightarrow> I base st' | Inr x \<Rightarrow> I (base + k x) st' \<and> Q x"
  using assms by (cases r) (auto simp: runs_def dest!: spec [of _ base] spec [of _ st])

lemma runs_result: "runs I k m Q \<Longrightarrow> I base st \<Longrightarrow> m st = (Inr x, st') \<Longrightarrow> I (base + k x) st' \<and> Q x"
  using runsD [of I k m Q base st "Inr x" st'] by simp

lemma runs_error: "runs I k m Q \<Longrightarrow> I base st \<Longrightarrow> m st = (Inl e, st') \<Longrightarrow> I base st'"
  using runsD [of I k m Q base st "Inl e" st'] by simp

lemma runs_conseq: "runs I k m Q \<Longrightarrow> (\<And>x. Q x \<Longrightarrow> Q' x \<and> k' x = k x) \<Longrightarrow> runs I k' m Q'"
  by (rule runsI) (drule (2) runsD, auto split: sum.splits)

lemma runs_bind:
  assumes m: "keeps I m Q" and f: "\<And>x. Q x \<Longrightarrow> runs I k (f x) R"
  shows "runs I k (obind m f) R"
proof (rule runsI)
  fix base st r st' assume i: "I base st" and run: "obind m f st = (r, st')"
  obtain r1 st1 where m1: "m st = (r1, st1)" by (cases "m st")
  show "case r of Inl e \<Rightarrow> I base st' | Inr x \<Rightarrow> I (base + k x) st' \<and> R x"
  proof (cases r1)
    case (Inl e)
    then show ?thesis using run m1 runs_error [OF m i] by (auto simp: obind_def)
  next
    case (Inr x)
    then have "f x st1 = (r, st')" and "I base st1" and "Q x"
      using run m1 runs_result [OF m i] by (auto simp: obind_def)
    then show ?thesis using runsD [OF f] by blast
  qed
qed

lemma runs_lift: "(\<And>x. r = Inr x \<Longrightarrow> Q x) \<Longrightarrow> keeps I (olift r) Q"
  by (rule runsI) (auto simp: olift_def split: sum.splits)

lemma runs_try: "(\<And>x. r = Inr x \<Longrightarrow> runs I k (f x) R) \<Longrightarrow> runs I k (otry r f) R"
  by (rule runs_bind [OF runs_lift])

lemma runs_fail: "runs I k (olift (Inl e)) Q"
  by (rule runsI) (auto simp: olift_def)

lemma runs_if: "(c \<Longrightarrow> runs I k m Q) \<Longrightarrow> (\<not> c \<Longrightarrow> runs I k n Q) \<Longrightarrow> runs I k (if c then m else n) Q"
  by simp

lemma file_inv_memory:
  "file_inv E M KP RP LP base st \<Longrightarrow> budget_ok b \<Longrightarrow> mb_max b = M \<Longrightarrow> mb_used b = base' + state_bytes st \<Longrightarrow>
     file_inv E M KP RP LP base' (st\<lparr>st_memory := b\<rparr>)"
  by (simp add: file_inv_def state_bytes_def)

lemma runs_mem:
  assumes "accounts m k" and "\<And>x. returns m x \<Longrightarrow> Q x"
  shows "runs (file_inv E M KP RP LP) k (omem m) Q"
proof (rule runsI)
  fix base st r st' assume i: "file_inv E M KP RP LP base st" and run: "omem m st = (r, st')"
  obtain b where mb: "m (st_memory st) = (r, b)" and st': "st' = st\<lparr>st_memory := b\<rparr>"
    using run by (auto simp: omem_def split: prod.splits)
  have ok: "budget_ok (st_memory st)" using i by (simp add: file_inv_def)
  note a = accountsD [OF assms(1) ok mb]
  show "case r of Inl e \<Rightarrow> file_inv E M KP RP LP base st' | Inr x \<Rightarrow> file_inv E M KP RP LP (base + k x) st' \<and> Q x"
  proof (cases r)
    case (Inl e)
    then show ?thesis using i a by (simp add: st' file_inv_def state_bytes_def)
  next
    case (Inr x)
    then have "Q x" using assms(2) mb by (blast intro: returnsI)
    then show ?thesis using i a Inr by (simp add: st' file_inv_def state_bytes_def)
  qed
qed

lemma accounts_claim: "accounts (claim n) (\<lambda>_. n)"
proof (rule accountsI)
  fix b r b' assume "budget_ok b" and "claim n b = (r, b')"
  then show "budget_ok b' \<and> mb_max b' = mb_max b \<and> mb_peak b \<le> mb_peak b' \<and>
      mb_used b' = mb_used b + (case r of Inl _ \<Rightarrow> 0 | Inr x \<Rightarrow> n)"
    using claim_ok [of b n _ b'] claim_err [of n b _ b'] by (cases r) auto
qed

lemma drop_bytes_inv:
  assumes "file_inv E M KP RP LP (base + n) st" shows "file_inv E M KP RP LP base (drop_bytes n st)"
proof -
  have b: "budget_ok (st_memory st)" "n \<le> mb_used (st_memory st)" using assms by (auto simp: file_inv_def)
  note rel = release_ok [OF b]
  show ?thesis unfolding drop_bytes_def
    by (rule file_inv_memory [OF assms]) (use rel assms in \<open>auto simp: file_inv_def\<close>)
qed

lemma runs_scoped:
  assumes body: "runs (file_inv E M KP RP LP) k body Q"
  shows "runs (file_inv E M KP RP LP) k (oscoped n body) Q"
proof (rule runsI)
  fix base st r st' assume i: "file_inv E M KP RP LP base st" and run: "oscoped n body st = (r, st')"
  obtain r1 st1 where c: "omem (claim n) st = (r1, st1)" by (cases "omem (claim n) st")
  have cl: "runs (file_inv E M KP RP LP) (\<lambda>_. n) (omem (claim n)) (\<lambda>_. True)"
    by (rule runs_mem [OF accounts_claim]) simp
  show "case r of Inl e \<Rightarrow> file_inv E M KP RP LP base st' | Inr x \<Rightarrow> file_inv E M KP RP LP (base + k x) st' \<and> Q x"
  proof (cases r1)
    case (Inl e)
    then show ?thesis using run c runs_error [OF cl i] by (auto simp: oscoped_def obind_def)
  next
    case (Inr u)
    then have i1: "file_inv E M KP RP LP (base + n) st1" using runs_result [OF cl i] c by simp
    obtain st2 where b: "body st1 = (r, st2)" and st': "st' = drop_bytes n st2"
      using run c Inr by (auto simp: oscoped_def obind_def split: prod.splits)
    show ?thesis
      using runsD [OF body i1 b] by (cases r) (auto simp: st' ac_simps intro!: drop_bytes_inv)
  qed
qed

lemma runs_retained:
  assumes body: "runs (file_inv E M KP RP LP) k body Q"
  shows "runs (file_inv E M KP RP LP) (\<lambda>x. k x + n) (oretained n body) Q"
proof (rule runsI)
  fix base st r st' assume i: "file_inv E M KP RP LP base st" and run: "oretained n body st = (r, st')"
  obtain r1 st1 where c: "omem (claim n) st = (r1, st1)" by (cases "omem (claim n) st")
  have cl: "runs (file_inv E M KP RP LP) (\<lambda>_. n) (omem (claim n)) (\<lambda>_. True)"
    by (rule runs_mem [OF accounts_claim]) simp
  show "case r of Inl e \<Rightarrow> file_inv E M KP RP LP base st' | Inr x \<Rightarrow> file_inv E M KP RP LP (base + (k x + n)) st' \<and> Q x"
  proof (cases r1)
    case (Inl e)
    then show ?thesis using run c runs_error [OF cl i] by (auto simp: oretained_def obind_def)
  next
    case (Inr u)
    then have i1: "file_inv E M KP RP LP (base + n) st1" using runs_result [OF cl i] c by simp
    obtain r2 st2 where b: "body st1 = (r2, st2)" by (cases "body st1")
    have "(r, st') = (case r2 of Inl e \<Rightarrow> (Inl e, drop_bytes n st2) | Inr x \<Rightarrow> (Inr x, st2))"
      using run c Inr b by (cases r2) (auto simp: oretained_def obind_def)
    then show ?thesis
      using runsD [OF body i1 b] by (cases r2) (auto simp: ac_simps intro!: drop_bytes_inv)
  qed
qed

lemma runs_inspect:
  assumes m: "runs (file_inv E M KP RP LP) size_of m Q" and g: "\<And>x y. Q x \<Longrightarrow> g x = Inr y \<Longrightarrow> R y"
  shows "keeps (file_inv E M KP RP LP) (oinspect size_of m g) R"
proof (rule runsI)
  fix base st r st' assume i: "file_inv E M KP RP LP base st" and run: "oinspect size_of m g st = (r, st')"
  obtain r1 st1 where m1: "m st = (r1, st1)" by (cases "m st")
  show "case r of Inl e \<Rightarrow> file_inv E M KP RP LP base st' | Inr x \<Rightarrow> file_inv E M KP RP LP (base + 0) st' \<and> R x"
    using runsD [OF m i m1] run m1 g
    by (cases r1; cases r) (auto simp: oinspect_def intro!: drop_bytes_inv)
qed

lemma runs_checked:
  assumes m: "runs (file_inv E M KP RP LP) size_of m Q" and g: "\<And>x. Q x \<Longrightarrow> g x = Inr () \<Longrightarrow> R x"
  shows "runs (file_inv E M KP RP LP) size_of (ochecked size_of m g) R"
proof (rule runsI)
  fix base st r st' assume i: "file_inv E M KP RP LP base st" and run: "ochecked size_of m g st = (r, st')"
  obtain r1 st1 where m1: "m st = (r1, st1)" by (cases "m st")
  show "case r of Inl e \<Rightarrow> file_inv E M KP RP LP base st' | Inr x \<Rightarrow> file_inv E M KP RP LP (base + size_of x) st' \<and> R x"
  proof (cases r1)
    case (Inl e)
    then show ?thesis using run m1 runs_error [OF m i] by (auto simp: ochecked_def)
  next
    case (Inr x)
    then show ?thesis using run m1 runs_result [OF m i] g [of x]
      by (cases "g x") (auto simp: ochecked_def intro!: drop_bytes_inv)
  qed
qed

section \<open>Determinism\<close>

text \<open>A computation whose result does not depend on how much memory is free.\<close>

named_theorems determinism

definition deterministic :: "'a mem \<Rightarrow> bool" where
  "deterministic m \<longleftrightarrow> (\<forall>x y. returns m x \<longrightarrow> returns m y \<longrightarrow> x = y)"

lemma deterministic_mret [determinism]: "deterministic (mret x)"
  by (simp add: deterministic_def)

lemma deterministic_lift [determinism]: "deterministic (lift r)"
  by (auto simp: deterministic_def)

lemma deterministic_bind [determinism]:
  "deterministic m \<Longrightarrow> (\<And>x. deterministic (f x)) \<Longrightarrow> deterministic (mbind m f)"
  unfolding deterministic_def by (metis returns_mbindE)

lemma deterministic_scoped [determinism]: "deterministic m \<Longrightarrow> deterministic (scoped n m)"
  unfolding deterministic_def by (metis returns_scopedD)

lemma deterministic_retained [determinism]: "deterministic m \<Longrightarrow> deterministic (retained n m)"
  unfolding deterministic_def by (metis returns_retainedD)

lemma deterministic_if [determinism]: "deterministic m \<Longrightarrow> deterministic n \<Longrightarrow> deterministic (if c then m else n)"
  by simp

lemma deterministic_option [determinism]:
  "deterministic m \<Longrightarrow> (\<And>x. deterministic (f x)) \<Longrightarrow> deterministic (case v of None \<Rightarrow> m | Some x \<Rightarrow> f x)"
  by (cases v) simp_all

end
