(* ===== verification/Keys.thy ===== *)
theory Keys
  imports File_State
begin

text \<open>
  Key blocks of an open file (\<^verbatim>\<open>src/src/core/keys.rs\<close>): finding the block of an ordinal,
  decoding and caching a block with the check against its predecessor, and the key queries built on
  it. A decoded block is specified by \<open>key_block_decodes\<close>, which mentions neither the cache nor
  the budget; the cache invariant says that a cached block is a decoded one, and the lemmas show
  that queries return the keys of the decoded blocks whatever the cache holds.
\<close>

section \<open>Ordinals\<close>

definition find_key_block_by_ordinal :: "mdict_file \<Rightarrow> nat \<Rightarrow> nat option result" where
  "find_key_block_by_ordinal f ordinal =
     (let blocks = vl_key_blocks (mf_layout f) in
      case bisect kb_entry_start_index kb_entry_count blocks ordinal 0 (length blocks) of
        None \<Rightarrow> Inl (InvalidFormat ''keyword entry count overflow'')
      | Some r \<Rightarrow> Inr r)"

text \<open>The block and the local index of an ordinal below \<open>len\<close>.\<close>

definition key_position :: "mdict_file \<Rightarrow> nat \<Rightarrow> (nat \<times> nat) result" where
  "key_position f ordinal =
     and_then (find_key_block_by_ordinal f ordinal) (\<lambda>found.
     and_then (ok_or found (InvalidFormat ''key ordinal not covered by key blocks'')) (\<lambda>block_index.
     and_then (ok_or (get (vl_key_blocks (mf_layout f)) block_index)
                 (InvalidFormat ''key block index out of range'')) (\<lambda>block.
     and_then (ok_or (checked_sub ordinal (kb_entry_start_index block))
                 (InvalidFormat ''key ordinal underflow'')) (\<lambda>entry_offset.
     if usize_max < entry_offset then Inl (InvalidFormat ''key ordinal exceeds usize'')
     else Inr (block_index, entry_offset)))))"

section \<open>Decoding a block\<close>

definition key_summary_matches :: "externals \<Rightarrow> mdict_file \<Rightarrow> rstring \<Rightarrow> rstring \<Rightarrow> bool mem" where
  "key_summary_matches X f decoded_key index_summary =
     attempt (normalized_len X (mf_normalizer f) decoded_key) (\<lambda>decoded_len.
     attempt (normalized_len X (mf_normalizer f) index_summary) (\<lambda>summary_len.
     attempt (ok_or (checked_add decoded_len summary_len)
                (InvalidFormat ''normalized key summary size overflow'')) (\<lambda>memory_len.
     scoped memory_len (
     attempt (normalize X (mf_normalizer f) decoded_key) (\<lambda>d.
     attempt (normalize X (mf_normalizer f) index_summary) (\<lambda>s. mret (d = s)))))))"

definition first_row :: "decoded_key_row list \<Rightarrow> decoded_key_row result" where
  "first_row rows = ok_or (get rows 0) (InvalidFormat ''empty decoded key block'')"

definition last_row :: "decoded_key_row list \<Rightarrow> decoded_key_row result" where
  "last_row rows =
     (if rows = [] then Inl (InvalidFormat ''empty decoded key block'') else Inr (last rows))"

definition decode_key_block_uncached :: "externals \<Rightarrow> mdict_file \<Rightarrow> nat \<Rightarrow> decoded_key_block mem" where
  "decode_key_block_uncached X f index =
     attempt (ok_or (get (vl_key_blocks (mf_layout f)) index)
                (InvalidFormat ''key block index out of range'')) (\<lambda>block.
     attempt (checked_usize (kb_comp_size block) ''key block compressed length'') (\<lambda>comp_size.
     attempt (checked_usize (kb_decomp_size block) ''key block decompressed length'') (\<lambda>decomp_size.
     attempt (checked_usize (kb_entry_count block) ''key block entry count'') (\<lambda>entry_count.
     attempt (max_decoded_len X (vl_key_encoding (mf_layout f)) decomp_size) (\<lambda>decoded_text_bytes.
     attempt (ok_or (checked_mul entry_count size_of_decoded_key_row)
                (InvalidFormat ''decoded key metadata size overflow'')) (\<lambda>row_bytes.
     attempt (ok_or (checked_add decoded_text_bytes row_bytes)
                (InvalidFormat ''decoded key block size overflow'')) (\<lambda>retained_bytes.
     retained retained_bytes (scoped comp_size (scoped decomp_size (
     attempt (read_exact_at (mf_source f) (kb_comp_offset block) comp_size ''key block'') (\<lambda>block_bytes.
     attempt (decode_block X ''key block'' block_bytes decomp_size (mf_limits f) (mf_checksum_policy f))
       (\<lambda>decoded.
     attempt (vl_wire (mf_layout f) X decoded
                \<lparr>krc_encoding = vl_key_encoding (mf_layout f),
                 krc_expected_entries = kb_entry_count block,
                 krc_total_decoded_record_len = vl_total_decoded_record_len (mf_layout f)\<rparr>) (\<lambda>parsed.
     attempt (first_row parsed) (\<lambda>first.
     attempt (last_row parsed) (\<lambda>last.
     mbind (key_summary_matches X f (row_key first) (kb_first_key block)) (\<lambda>first_matches.
     mbind (if first_matches then key_summary_matches X f (row_key last) (kb_last_key block)
            else mret False) (\<lambda>matches.
     if \<not> matches
     then lift (Inl (InvalidFormat ''keyword block summaries do not match decoded boundary keys''))
     else mret \<lparr>dkb_entries = parsed, dkb_memory = retained_bytes\<rparr>)))))))))))))))))"

text \<open>\<open>*cache = None\<close> and \<open>*cache = Some(...)\<close>: the old value is dropped after the new one
  exists.\<close>

definition set_key_cache :: "(nat \<times> decoded_key_block cached) option \<Rightarrow> file_state \<Rightarrow> file_state" where
  "set_key_cache slot st =
     drop_bytes (slot_bytes dkb_memory (st_key_cache st)) (st\<lparr>st_key_cache := slot\<rparr>)"

definition evict_key_cache :: "unit op" where
  "evict_key_cache st = (Inr (), set_key_cache None st)"

text \<open>The last record start of the block before \<open>index\<close>: from the cache when it is there,
  decoded for this check and dropped otherwise.\<close>

definition previous_last :: "externals \<Rightarrow> mdict_file \<Rightarrow> nat \<Rightarrow> nat option op" where
  "previous_last X f index st =
     (if index = 0 then (Inr None, st)
      else
      (let uncached = oinspect dkb_memory (omem (decode_key_block_uncached X f (index - 1)))
             (\<lambda>b. and_then (last_row (dkb_entries b)) (\<lambda>r. Inr (Some (row_record_start r))))
       in
       case st_key_cache st of
         Some (cached_index, v) \<Rightarrow>
           if checked_add cached_index 1 = Some index then
             (case v of
                Ready previous \<Rightarrow>
                  (and_then (last_row (dkb_entries previous)) (\<lambda>r. Inr (Some (row_record_start r))), st)
              | Failed cf \<Rightarrow> (Inl (replay cf), st))
           else uncached st
       | None \<Rightarrow> uncached st))"

definition boundary_check :: "nat option \<Rightarrow> decoded_key_block \<Rightarrow> unit result" where
  "boundary_check previous b =
     (case previous of
        None \<Rightarrow> Inr ()
      | Some previous_start \<Rightarrow>
          and_then (first_row (dkb_entries b)) (\<lambda>first.
          if row_record_start first < previous_start
          then Inl (InvalidData (''record starts decrease across key blocks from '' @ dec previous_start @
                      '' to '' @ dec (row_record_start first)))
          else Inr ()))"

definition load_key_block :: "externals \<Rightarrow> mdict_file \<Rightarrow> nat \<Rightarrow> decoded_key_block op" where
  "load_key_block X f index =
     (if key_block_count f \<le> index then olift (Inl (InvalidFormat ''key block index out of range''))
      else
      obind (previous_last X f index) (\<lambda>previous.
      obind evict_key_cache (\<lambda>_.
      ochecked dkb_memory (omem (decode_key_block_uncached X f index)) (boundary_check previous))))"

definition capture_key_failure :: "nat \<Rightarrow> error \<Rightarrow> file_state \<Rightarrow> file_state" where
  "capture_key_failure index e st =
     (case capture e (st_memory st) of
        (None, b) \<Rightarrow> st\<lparr>st_memory := b\<rparr>
      | (Some cf, b) \<Rightarrow> set_key_cache (Some (index, Failed cf)) (st\<lparr>st_memory := b\<rparr>))"

definition decode_key_block :: "externals \<Rightarrow> mdict_file \<Rightarrow> nat \<Rightarrow> decoded_key_block op" where
  "decode_key_block X f index st =
     (let fresh = (case load_key_block X f index st of
                     (Inr entries, st') \<Rightarrow> (Inr entries, set_key_cache (Some (index, Ready entries)) st')
                   | (Inl e, st') \<Rightarrow> (Inl e, capture_key_failure index e st'))
      in
      case st_key_cache st of
        Some (cached_index, v) \<Rightarrow>
          if cached_index = index then
            (case v of Ready entries \<Rightarrow> (Inr entries, st) | Failed cf \<Rightarrow> (Inl (replay cf), st))
          else fresh
      | None \<Rightarrow> fresh)"

section \<open>Key queries\<close>

record key_block_hit =
  kbh_block_index :: nat
  kbh_entry_index :: nat
  kbh_entries :: "decoded_key_row list"

definition key_entry_at_ordinal :: "externals \<Rightarrow> mdict_file \<Rightarrow> nat \<Rightarrow> key_block_hit option op" where
  "key_entry_at_ordinal X f ordinal =
     (if mf_len f \<le> ordinal then oret None
      else
      otry (key_position f ordinal) (\<lambda>(block_index, entry_index).
      obind (decode_key_block X f block_index) (\<lambda>b.
      if length (dkb_entries b) \<le> entry_index
      then olift (Inl (InvalidData (''key ordinal '' @ dec ordinal @
                    '' resolved past decoded block length '' @ dec (length (dkb_entries b)))))
      else oret (Some \<lparr>kbh_block_index = block_index, kbh_entry_index = entry_index,
                       kbh_entries = dkb_entries b\<rparr>))))"

definition key_at_ordinal :: "externals \<Rightarrow> mdict_file \<Rightarrow> nat \<Rightarrow> key_entry option op" where
  "key_at_ordinal X f ordinal =
     obind (key_entry_at_ordinal X f ordinal) (\<lambda>hit.
     case hit of
       None \<Rightarrow> oret None
     | Some h \<Rightarrow>
         oret (Some \<lparr>ke_ordinal = ordinal, ke_key = row_key (kbh_entries h ! kbh_entry_index h)\<rparr>))"

text \<open>The batched query: requests are grouped by block, each block is decoded once, and every
  result is stored at its input position.\<close>

type_synonym key_request = "nat \<times> nat \<times> nat \<times> nat"

fun key_requests :: "mdict_file \<Rightarrow> nat \<Rightarrow> nat list \<Rightarrow> key_request list result" where
  "key_requests f input_index [] = Inr []"
| "key_requests f input_index (ordinal # ordinals) =
     (if mf_len f \<le> ordinal then key_requests f (Suc input_index) ordinals
      else
      and_then (key_position f ordinal) (\<lambda>(block_index, entry_index).
      and_then (key_requests f (Suc input_index) ordinals) (\<lambda>requests.
      Inr ((block_index, entry_index, input_index, ordinal) # requests))))"

fun fill_requests ::
    "decoded_key_row list \<Rightarrow> key_request list \<Rightarrow> key_entry option list \<Rightarrow> key_entry option list result" where
  "fill_requests entries [] results = Inr results"
| "fill_requests entries ((_, entry_index, input_index, ordinal) # requests) results =
     and_then (ok_or (get entries entry_index)
                 (InvalidData (''key ordinal '' @ dec ordinal @ '' resolved past decoded block length '' @
                    dec (length entries)))) (\<lambda>entry.
     fill_requests entries requests
       (results[input_index := Some \<lparr>ke_ordinal = ordinal, ke_key = row_key entry\<rparr>]))"

function process_requests ::
    "externals \<Rightarrow> mdict_file \<Rightarrow> key_request list \<Rightarrow> key_entry option list \<Rightarrow> key_entry option list op" where
  "process_requests X f [] results = oret results"
| "process_requests X f (r # requests) results =
     obind (decode_key_block X f (fst r)) (\<lambda>b.
     otry (fill_requests (dkb_entries b) (r # takeWhile (\<lambda>q. fst q = fst r) requests) results) (\<lambda>results.
     process_requests X f (dropWhile (\<lambda>q. fst q = fst r) requests) results))"
  by pat_completeness auto
termination
  by (relation "measure (\<lambda>(_, _, rs, _). length rs)") (auto simp: le_imp_less_Suc length_dropWhile_le)

definition keys_at_ordinals :: "externals \<Rightarrow> mdict_file \<Rightarrow> nat list \<Rightarrow> key_entry option list op" where
  "keys_at_ordinals X f ordinals =
     otry (try_reserve_vec 32 0 (length ordinals) ''batched key results'') (\<lambda>_.
     otry (try_reserve_vec 32 0 (length ordinals) ''batched key requests'') (\<lambda>_.
     otry (key_requests f 0 ordinals) (\<lambda>requests.
     process_requests X f (sort_key fst requests) (replicate (length ordinals) None))))"

section \<open>The search for an ordinal\<close>

definition key_search :: "key_block_descriptor list \<Rightarrow> nat \<Rightarrow> nat option" where
  "key_search blocks x =
     (case bisect kb_entry_start_index kb_entry_count blocks x 0 (length blocks) of
        Some r \<Rightarrow> r | None \<Rightarrow> None)"

interpretation key_table: interval_search kb_entry_start_index kb_entry_count key_search
proof
  fix bs x i
  assume "key_search bs x = Some i"
  then have "bisect kb_entry_start_index kb_entry_count bs x 0 (length bs) = Some (Some i)"
    by (auto simp: key_search_def split: option.splits)
  then show "i < length bs \<and> kb_entry_start_index (bs ! i) \<le> x \<and>
      x < kb_entry_start_index (bs ! i) + kb_entry_count (bs ! i)"
    by (rule bisect_hit) simp
next
  fix lo bs hi x i
  assume t: "tiles kb_entry_start_index kb_entry_count lo bs hi" and h: "hi \<le> u64_max"
    and "key_search bs x = None" and i: "i < length bs"
  then have "bisect kb_entry_start_index kb_entry_count bs x 0 (length bs) = Some None"
    using bisect_total [OF t h, of "length bs" x 0]
    by (auto simp: key_search_def split: option.splits)
  from bisect_miss [OF t h _ this _ i]
  show "\<not> (kb_entry_start_index (bs ! i) \<le> x \<and> x < kb_entry_start_index (bs ! i) + kb_entry_count (bs ! i))"
    by simp
qed

text \<open>What opening a file establishes and every method relies on.\<close>

definition file_ok :: "externals \<Rightarrow> mdict_file \<Rightarrow> bool" where
  "file_ok X f \<longleftrightarrow> externals_ok X \<and> layout_ok (mf_layout f) \<and>
     vl_wire (mf_layout f) \<in> {v1_decode_key_rows, v2_decode_key_rows} \<and>
     (\<forall>b \<in> set (vl_key_blocks (mf_layout f)). 0 < kb_entry_count b)"

lemma find_key_block_eq:
  assumes "layout_ok (mf_layout f)"
  shows "find_key_block_by_ordinal f x = Inr (key_search (vl_key_blocks (mf_layout f)) x)"
proof -
  have t: "tiles kb_entry_start_index kb_entry_count 0 (vl_key_blocks (mf_layout f)) (mf_len f)" "mf_len f \<le> u64_max"
    using assms by (simp_all add: layout_ok_def mf_len_def)
  show ?thesis
    using bisect_total [OF t, of "length (vl_key_blocks (mf_layout f))" x 0]
    by (auto simp: find_key_block_by_ordinal_def key_search_def Let_def split: option.splits)
qed

lemma key_position_ok:
  assumes ok: "layout_ok (mf_layout f)" and n: "n < mf_len f"
  obtains i j where "key_position f n = Inr (i, j)" and "i < key_block_count f"
    and "n = kb_entry_start_index (vl_key_blocks (mf_layout f) ! i) + j"
    and "j < kb_entry_count (vl_key_blocks (mf_layout f) ! i)"
proof -
  let ?bs = "vl_key_blocks (mf_layout f)"
  have t: "tiles kb_entry_start_index kb_entry_count 0 ?bs (mf_len f)" and h: "mf_len f \<le> u64_max"
    using ok by (simp_all add: layout_ok_def mf_len_def)
  obtain i where i: "key_search ?bs n = Some i" "i < length ?bs" "kb_entry_start_index (?bs ! i) \<le> n"
    "n < kb_entry_start_index (?bs ! i) + kb_entry_count (?bs ! i)"
    by (rule key_table.found [OF t h _ n]) simp_all
  have "n - kb_entry_start_index (?bs ! i) \<le> usize_max"
    using n h by (simp add: usize_max_def u64_max_def)
  then have "key_position f n = Inr (i, n - kb_entry_start_index (?bs ! i))"
    using i by (simp add: key_position_def find_key_block_eq [OF ok] get_def checked_sub_def)
  then show ?thesis by (rule that) (use i in \<open>auto simp: key_block_count_def\<close>)
qed

section \<open>Decoded blocks\<close>

definition key_block_decodes :: "externals \<Rightarrow> mdict_file \<Rightarrow> nat \<Rightarrow> decoded_key_row list \<Rightarrow> bool" where
  "key_block_decodes X f i rows \<longleftrightarrow>
     (\<exists>m. returns (decode_key_block_uncached X f i) \<lparr>dkb_entries = rows, dkb_memory = m\<rparr>)"

lemma deterministic_summary [determinism]: "deterministic (key_summary_matches X f d s)"
  unfolding key_summary_matches_def by (intro determinism)

lemma deterministic_uncached: "deterministic (decode_key_block_uncached X f i)"
  unfolding decode_key_block_uncached_def by (intro determinism)

lemma key_block_decodes_unique:
  "key_block_decodes X f i rows \<Longrightarrow> key_block_decodes X f i rows' \<Longrightarrow> rows = rows'"
  using deterministic_uncached [of X f i] unfolding key_block_decodes_def deterministic_def
  by (metis decoded_key_block.ext_inject)

lemma returns_uncached: "returns (decode_key_block_uncached X f i) b \<Longrightarrow> key_block_decodes X f i (dkb_entries b)"
  unfolding key_block_decodes_def by (cases b) (auto intro: exI [of _ "dkb_memory b"])

lemma wire_bounds:
  assumes "file_ok X f" and "vl_wire (mf_layout f) X bs ctx = Inr rows"
  shows "length rows = krc_expected_entries ctx"
    and "\<forall>r \<in> set rows. well_formed (row_key r) \<and> row_record_start r \<le> krc_total_decoded_record_len ctx"
    and "sorted (map row_record_start rows)"
proof -
  have X: "externals_ok X" using assms(1) by (simp add: file_ok_def)
  obtain rd where "decode_key_rows_with rd X bs ctx = Inr rows"
    using assms by (auto simp: file_ok_def v1_decode_key_rows_def v2_decode_key_rows_def)
  note b = decode_key_rows_bounds [OF this X]
  show "length rows = krc_expected_entries ctx"
    and "\<forall>r \<in> set rows. well_formed (row_key r) \<and> row_record_start r \<le> krc_total_decoded_record_len ctx"
    and "sorted (map row_record_start rows)" by (rule b)+
qed

lemma key_block_decodes_run:
  assumes "key_block_decodes X f i rows"
  obtains b bs decoded where "i < key_block_count f" and "b = vl_key_blocks (mf_layout f) ! i"
    and "read_exact_at (mf_source f) (kb_comp_offset b) (kb_comp_size b) ''key block'' = Inr bs"
    and "decode_block X ''key block'' bs (kb_decomp_size b) (mf_limits f) (mf_checksum_policy f) = Inr decoded"
    and "vl_wire (mf_layout f) X decoded
           \<lparr>krc_encoding = vl_key_encoding (mf_layout f), krc_expected_entries = kb_entry_count b,
            krc_total_decoded_record_len = vl_total_decoded_record_len (mf_layout f)\<rparr> = Inr rows"
    and "rows \<noteq> []"
    and "normal_form X (mf_normalizer f) (row_key (hd rows)) = normal_form X (mf_normalizer f) (kb_first_key b)"
    and "normal_form X (mf_normalizer f) (row_key (last rows)) = normal_form X (mf_normalizer f) (kb_last_key b)"
proof -
  from assms obtain m where "returns (decode_key_block_uncached X f i) \<lparr>dkb_entries = rows, dkb_memory = m\<rparr>"
    by (auto simp: key_block_decodes_def)
  then obtain b bs decoded first last where b: "i < key_block_count f" "b = vl_key_blocks (mf_layout f) ! i"
    and r: "read_exact_at (mf_source f) (kb_comp_offset b) (kb_comp_size b) ''key block'' = Inr bs"
      "decode_block X ''key block'' bs (kb_decomp_size b) (mf_limits f) (mf_checksum_policy f) = Inr decoded"
      "vl_wire (mf_layout f) X decoded
           \<lparr>krc_encoding = vl_key_encoding (mf_layout f), krc_expected_entries = kb_entry_count b,
            krc_total_decoded_record_len = vl_total_decoded_record_len (mf_layout f)\<rparr> = Inr rows"
    and fl: "first_row rows = Inr first" "last_row rows = Inr last"
    and s: "returns (key_summary_matches X f (row_key first) (kb_first_key b)) True"
      "returns (key_summary_matches X f (row_key last) (kb_last_key b)) True"
    unfolding decode_key_block_uncached_def key_block_count_def by (auto split: if_splits)
  have ne: "rows \<noteq> []" "first = hd rows" "last = List.last rows"
    using fl by (auto simp: first_row_def last_row_def hd_conv_nth split: if_splits)
  have n: "returns (key_summary_matches X f d k) True \<Longrightarrow>
      normal_form X (mf_normalizer f) d = normal_form X (mf_normalizer f) k" for d k
    unfolding key_summary_matches_def by (auto simp: normalize_Inr)
  show ?thesis by (rule that [OF b r ne(1)]) (use n [OF s(1)] n [OF s(2)] ne in simp_all)
qed

lemma key_block_decodes_ok:
  assumes "file_ok X f" and "key_block_decodes X f i rows"
  shows "i < key_block_count f" and "length rows = kb_entry_count (vl_key_blocks (mf_layout f) ! i)"
    and "rows \<noteq> []" and "sorted (map row_record_start rows)"
    and "r \<in> set rows \<Longrightarrow> well_formed (row_key r) \<and> row_record_start r \<le> vl_total_decoded_record_len (mf_layout f)"
proof -
  from assms(2) obtain b decoded where i: "i < key_block_count f" and b: "b = vl_key_blocks (mf_layout f) ! i"
    and w: "vl_wire (mf_layout f) X decoded
           \<lparr>krc_encoding = vl_key_encoding (mf_layout f), krc_expected_entries = kb_entry_count b,
            krc_total_decoded_record_len = vl_total_decoded_record_len (mf_layout f)\<rparr> = Inr rows"
    and ne: "rows \<noteq> []"
    by (rule key_block_decodes_run)
  note wb = wire_bounds [OF assms(1) w]
  show "i < key_block_count f" by (rule i)
  show "length rows = kb_entry_count (vl_key_blocks (mf_layout f) ! i)" using wb(1) by (simp add: b)
  show "rows \<noteq> []" by (rule ne)
  show "sorted (map row_record_start rows)" by (rule wb(3))
  show "r \<in> set rows \<Longrightarrow> well_formed (row_key r) \<and> row_record_start r \<le> vl_total_decoded_record_len (mf_layout f)"
    using wb(2) by simp
qed

text \<open>Consecutive blocks whose record starts do not decrease across the boundary.\<close>

definition boundary_ok :: "externals \<Rightarrow> mdict_file \<Rightarrow> nat \<Rightarrow> decoded_key_row list \<Rightarrow> bool" where
  "boundary_ok X f i rows \<longleftrightarrow>
     (i = 0 \<or> (\<exists>previous. key_block_decodes X f (i - 1) previous \<and> previous \<noteq> [] \<and> rows \<noteq> [] \<and>
        row_record_start (last previous) \<le> row_record_start (hd rows)))"

definition key_cache_ok :: "externals \<Rightarrow> mdict_file \<Rightarrow> (nat \<times> decoded_key_block cached) option \<Rightarrow> bool" where
  "key_cache_ok X f slot \<longleftrightarrow>
     (case slot of
        Some (i, Ready b) \<Rightarrow> key_block_decodes X f i (dkb_entries b) \<and> boundary_ok X f i (dkb_entries b)
      | _ \<Rightarrow> True)"

abbreviation keys_inv where
  "keys_inv X f \<equiv> file_inv (\<lambda>_. True) (working_memory_bytes (mf_limits f)) (key_cache_ok X f)"

section \<open>Memory\<close>

lemma accounts_summary [accounting]: "accounts (key_summary_matches X f d s) (\<lambda>_. 0)"
  unfolding key_summary_matches_def by (intro accounting)

lemma accounts_decode_uncached: "accounts (decode_key_block_uncached X f i) dkb_memory"
  unfolding decode_key_block_uncached_def
  apply (intro accounts_mbind accounts_lift)
  apply (rule accounts_retained_conv [where k = "\<lambda>_. 0"])
   apply (intro accounting)
  apply (auto split: if_splits)
  done

lemma set_key_cache_inv:
  assumes "file_inv E M KP RP LP (base + slot_bytes dkb_memory slot) st" and "KP slot"
  shows "file_inv E M KP RP LP base (set_key_cache slot st)"
proof -
  let ?old = "slot_bytes dkb_memory (st_key_cache st)"
  have b: "budget_ok (st_memory st)" "?old \<le> mb_used (st_memory st)"
    using assms(1) by (auto simp: file_inv_def state_bytes_def)
  note rel = release_ok [OF b]
  show ?thesis
    using assms rel by (simp add: set_key_cache_def drop_bytes_def file_inv_def state_bytes_def)
qed

lemma evict_key_cache_keeps: "KP None \<Longrightarrow> keeps (file_inv E M KP RP LP) evict_key_cache (\<lambda>_. True)"
  by (rule runsI) (auto simp: evict_key_cache_def slot_bytes_def intro!: set_key_cache_inv)

lemma capture_memory:
  assumes "budget_ok b" and "capture e b = (r, b')"
  shows "budget_ok b'" "mb_max b' = mb_max b"
    "mb_used b' = mb_used b + (case r of None \<Rightarrow> 0 | Some cf \<Rightarrow> cf_memory cf)"
proof -
  have "budget_ok b' \<and> mb_max b' = mb_max b \<and> mb_used b' = mb_used b + (case r of None \<Rightarrow> 0 | Some cf \<Rightarrow> cf_memory cf)"
  proof (cases "\<exists>ctx. e = InvalidData ctx")
    case True
    then obtain ctx where e: "e = InvalidData ctx" by blast
    show ?thesis
    proof (cases "claim (length ctx) b")
      case (Pair c b1)
      then show ?thesis
        using assms e claim_ok [OF assms(1), of "length ctx" _ b1] claim_err [of "length ctx" b _ b1]
        by (cases c) (auto simp: capture_def)
    qed
  next
    case False
    then show ?thesis using assms by (auto simp: capture_def Let_def split: error.splits if_splits)
  qed
  then show "budget_ok b'" "mb_max b' = mb_max b" "mb_used b' = mb_used b + (case r of None \<Rightarrow> 0 | Some cf \<Rightarrow> cf_memory cf)" by auto
qed

lemma capture_key_failure_inv:
  assumes i: "file_inv E M KP RP LP base st" and fail: "\<And>cf. KP (Some (index, Failed cf))"
  shows "file_inv E M KP RP LP base (capture_key_failure index e st)"
proof -
  obtain r b where c: "capture e (st_memory st) = (r, b)" by (cases "capture e (st_memory st)")
  have ok: "budget_ok (st_memory st)" using i by (simp add: file_inv_def)
  note m = capture_memory [OF ok c]
  show ?thesis
  proof (cases r)
    case None
    then show ?thesis using c m i by (simp add: capture_key_failure_def file_inv_def state_bytes_def)
  next
    case (Some cf)
    have "file_inv E M KP RP LP (base + slot_bytes dkb_memory (Some (index, Failed cf))) (st\<lparr>st_memory := b\<rparr>)"
      using i m Some by (simp add: file_inv_def state_bytes_def slot_bytes_def)
    from set_key_cache_inv [OF this fail] show ?thesis using c Some by (simp add: capture_key_failure_def)
  qed
qed

section \<open>Decoding through the cache\<close>

lemma previous_last_keeps:
  "keeps (keys_inv X f RP LP) (previous_last X f index)
     (\<lambda>p. case p of None \<Rightarrow> index = 0
      | Some s \<Rightarrow> index \<noteq> 0 \<and> (\<exists>rows. key_block_decodes X f (index - 1) rows \<and> rows \<noteq> [] \<and>
                   s = row_record_start (last rows)))"
proof (rule runsI)
  let ?Q = "\<lambda>p. case p of None \<Rightarrow> index = 0
      | Some s \<Rightarrow> index \<noteq> 0 \<and> (\<exists>rows. key_block_decodes X f (index - 1) rows \<and> rows \<noteq> [] \<and>
                   s = row_record_start (last rows))"
  fix base st r st'
  assume i: "keys_inv X f RP LP base st" and run: "previous_last X f index st = (r, st')"
  let ?unc = "oinspect dkb_memory (omem (decode_key_block_uncached X f (index - 1)))
             (\<lambda>b. and_then (last_row (dkb_entries b)) (\<lambda>r. Inr (Some (row_record_start r))))"
  show "case r of Inl e \<Rightarrow> keys_inv X f RP LP base st' | Inr x \<Rightarrow> keys_inv X f RP LP (base + 0) st' \<and> ?Q x"
  proof (cases "index = 0")
    case True
    then show ?thesis using run i by (auto simp: previous_last_def)
  next
    case False
    have unc: "keeps (keys_inv X f RP LP) ?unc ?Q"
      by (rule runs_inspect [OF runs_mem [OF accounts_decode_uncached, where Q = "\<lambda>b. key_block_decodes X f (index - 1) (dkb_entries b)"]])
        (use False in \<open>auto simp: last_row_def dest: returns_uncached split: if_splits\<close>)
    show ?thesis
    proof (cases "\<exists>c v. st_key_cache st = Some (c, v) \<and> checked_add c 1 = Some index")
      case True
      then obtain c v where c: "st_key_cache st = Some (c, v)" "index = Suc c" "checked_add c 1 = Some index" by auto
      have k: "key_cache_ok X f (Some (c, v))" using i c(1) by (simp add: file_inv_def)
      show ?thesis
        using run i c k
        by (cases v) (auto simp: previous_last_def key_cache_ok_def last_row_def Let_def split: if_splits)
    next
      case none: False
      then have "previous_last X f index st = ?unc st"
        using False by (auto simp: previous_last_def Let_def split: option.splits)
      then have m: "?unc st = (r, st')" using run by simp
      from runsD [OF unc i m] show ?thesis .
    qed
  qed
qed

lemma load_key_block_runs:
  "runs (keys_inv X f RP LP) dkb_memory (load_key_block X f index)
     (\<lambda>b. key_block_decodes X f index (dkb_entries b) \<and> boundary_ok X f index (dkb_entries b))"
  unfolding load_key_block_def
proof (rule runs_if)
  show "runs (keys_inv X f RP LP) dkb_memory (olift (Inl (InvalidFormat ''key block index out of range'')))
     (\<lambda>b. key_block_decodes X f index (dkb_entries b) \<and> boundary_ok X f index (dkb_entries b))"
    by (rule runsI) (auto simp: olift_def)
next
  show "runs (keys_inv X f RP LP) dkb_memory
     (obind (previous_last X f index) (\<lambda>previous. obind evict_key_cache (\<lambda>_.
      ochecked dkb_memory (omem (decode_key_block_uncached X f index)) (boundary_check previous))))
     (\<lambda>b. key_block_decodes X f index (dkb_entries b) \<and> boundary_ok X f index (dkb_entries b))"
  proof (rule runs_bind [OF previous_last_keeps], rule runs_bind [OF evict_key_cache_keeps])
    fix p u
    assume p: "case p of None \<Rightarrow> index = 0
      | Some s \<Rightarrow> index \<noteq> 0 \<and> (\<exists>rows. key_block_decodes X f (index - 1) rows \<and> rows \<noteq> [] \<and>
                   s = row_record_start (last rows))"
    show "runs (keys_inv X f RP LP) dkb_memory
       (ochecked dkb_memory (omem (decode_key_block_uncached X f index)) (boundary_check p))
       (\<lambda>b. key_block_decodes X f index (dkb_entries b) \<and> boundary_ok X f index (dkb_entries b))"
      by (rule runs_checked [OF runs_mem [OF accounts_decode_uncached returns_uncached [where i = index]]])
        (use p in \<open>auto simp: boundary_check_def boundary_ok_def first_row_def hd_conv_nth not_less
           split: option.splits if_splits\<close>)
  qed (simp add: key_cache_ok_def)
qed

lemma decode_key_block_keeps:
  "keeps (keys_inv X f RP LP) (decode_key_block X f index)
     (\<lambda>b. key_block_decodes X f index (dkb_entries b) \<and> boundary_ok X f index (dkb_entries b))"
proof (rule runsI)
  let ?Q = "\<lambda>b. key_block_decodes X f index (dkb_entries b) \<and> boundary_ok X f index (dkb_entries b)"
  fix base st r st'
  assume i: "keys_inv X f RP LP base st" and run: "decode_key_block X f index st = (r, st')"
  show "case r of Inl e \<Rightarrow> keys_inv X f RP LP base st' | Inr x \<Rightarrow> keys_inv X f RP LP (base + 0) st' \<and> ?Q x"
  proof (cases "\<exists>v. st_key_cache st = Some (index, v)")
    case True
    then obtain v where v: "st_key_cache st = Some (index, v)" by blast
    have k: "key_cache_ok X f (Some (index, v))" using i v by (simp add: file_inv_def)
    show ?thesis using run i v k by (cases v) (auto simp: decode_key_block_def key_cache_ok_def Let_def)
  next
    case False
    obtain r1 st1 where l: "load_key_block X f index st = (r1, st1)" by (cases "load_key_block X f index st")
    have eq: "(r, st') = (case r1 of Inr b \<Rightarrow> (Inr b, set_key_cache (Some (index, Ready b)) st1)
        | Inl e \<Rightarrow> (Inl e, capture_key_failure index e st1))"
      using run l False by (cases r1) (auto simp: decode_key_block_def Let_def split: option.splits if_splits)
    note ld = runsD [OF load_key_block_runs i l]
    show ?thesis
    proof (cases r1)
      case (Inl e)
      then show ?thesis using ld eq by (auto simp: key_cache_ok_def intro!: capture_key_failure_inv)
    next
      case (Inr b)
      then have "keys_inv X f RP LP base (set_key_cache (Some (index, Ready b)) st1)"
        using ld by (intro set_key_cache_inv) (auto simp: slot_bytes_def key_cache_ok_def)
      then show ?thesis using ld eq Inr by auto
    qed
  qed
qed

section \<open>The rows of the file\<close>

text \<open>A failed load leaves the old slot or an empty one, so that a failure recorded under the block is
  the one of this load.\<close>

definition lasting :: "file_state \<Rightarrow> bool" where
  "lasting st \<longleftrightarrow> (case st_key_cache st of Some (_, Failed cf) \<Rightarrow> \<not> transient (replay cf) | _ \<Rightarrow> True)"

lemma cache_frame [simp]:
  "st_key_cache (drop_bytes n st) = st_key_cache st"
  "omem m st = (r, st') \<Longrightarrow> st_key_cache st' = st_key_cache st"
  by (auto simp: drop_bytes_def omem_def split: prod.splits)

lemma oinspect_cache: "oinspect k (omem m) g st = (r, st') \<Longrightarrow> st_key_cache st' = st_key_cache st"
  by (cases "omem m st"; cases "fst (omem m st)") (auto simp: oinspect_def)

lemma ochecked_cache: "ochecked k (omem m) g st = (r, st') \<Longrightarrow> st_key_cache st' = st_key_cache st"
  by (cases "omem m st"; cases "fst (omem m st)") (auto simp: ochecked_def split: sum.splits)

lemma previous_last_cache: "previous_last X f i st = (r, st') \<Longrightarrow> st_key_cache st' = st_key_cache st"
  by (auto simp: previous_last_def Let_def split: if_splits option.splits prod.splits cached.splits
      dest: oinspect_cache)

lemma load_key_block_cache:
  assumes "load_key_block X f i st = (r, st')"
  shows "st_key_cache st' = st_key_cache st \<or> st_key_cache st' = None"
proof (cases "key_block_count f \<le> i")
  case True
  then show ?thesis using assms by (simp add: load_key_block_def olift_def)
next
  case False
  obtain p st1 where p: "previous_last X f i st = (p, st1)" by (cases "previous_last X f i st")
  show ?thesis
    using assms False p previous_last_cache [OF p]
    by (cases p) (auto simp: load_key_block_def obind_def evict_key_cache_def set_key_cache_def dest!: ochecked_cache)
qed

lemma capture_lasting:
  assumes "\<not> transient e"
  obtains cf b' where "capture e b = (Some cf, b')" and "replay cf = e"
  | ctx where "e = InvalidData ctx" and "capture e b = (None, b)" and "isl (fst (claim (length ctx) b))"
proof (cases "fst (capture e b)")
  case (Some cf)
  then have "capture e b = (Some cf, snd (capture e b))" by (simp add: prod_eq_iff)
  with replay_captured [OF this] show ?thesis using that(1) by blast
next
  case None
  then obtain ctx where ctx: "e = InvalidData ctx"
    using assms by (auto simp: capture_def transient_def Let_def split: error.splits if_splits)
  obtain r b' where cl: "claim (length ctx) b = (r, b')" by (cases "claim (length ctx) b")
  then obtain x where "r = Inl x" using None by (cases r) (simp_all add: ctx capture_def Let_def)
  then show ?thesis using that(2) [OF ctx] cl by (auto simp: ctx capture_def Let_def claim_def split: option.splits if_splits)
qed

text \<open>A lasting failure is recorded, unless the budget has no room for its message.\<close>

lemma capture_key_failure_records:
  assumes "\<not> transient e"
  shows "(\<exists>cf. st_key_cache (capture_key_failure i e st) = Some (i, Failed cf) \<and> replay cf = e) \<or>
    (\<exists>ctx. e = InvalidData ctx \<and> isl (fst (claim (length ctx) (st_memory (capture_key_failure i e st)))))"
  using assms
  by (rule capture_lasting [of e "st_memory st"]) (auto simp: capture_key_failure_def set_key_cache_def)

lemma capture_key_failure_cache:
  "st_key_cache (capture_key_failure i e st) = st_key_cache st \<or>
   (\<exists>cf. st_key_cache (capture_key_failure i e st) = Some (i, Failed cf) \<and> replay cf = e \<and> \<not> transient e)"
  using replay_captured [of e "st_memory st"]
  by (cases "capture e (st_memory st)") (auto simp: capture_key_failure_def set_key_cache_def split: option.splits)

lemma decode_key_block_failure:
  assumes old: "lasting st" and run: "decode_key_block X f i st = (Inl e, st')"
  shows "lasting st'" and "transient e \<Longrightarrow> st_key_cache st' \<noteq> Some (i, Failed cf)"
    and "\<not> transient e \<Longrightarrow>
      (\<exists>cf. st_key_cache st' = Some (i, Failed cf) \<and> replay cf = e \<and> decode_key_block X f i st' = (Inl e, st')) \<or>
      (\<exists>ctx. e = InvalidData ctx \<and> isl (fst (claim (length ctx) (st_memory st'))))"
proof -
  have "lasting st' \<and> (transient e \<longrightarrow> st_key_cache st' \<noteq> Some (i, Failed cf)) \<and> (\<not> transient e \<longrightarrow>
      (\<exists>cf. st_key_cache st' = Some (i, Failed cf) \<and> replay cf = e \<and> decode_key_block X f i st' = (Inl e, st')) \<or>
      (\<exists>ctx. e = InvalidData ctx \<and> isl (fst (claim (length ctx) (st_memory st')))))"
  proof (cases "\<exists>cf. st_key_cache st = Some (i, Failed cf)")
    case True
    then show ?thesis using old run by (auto simp: decode_key_block_def lasting_def)
  next
    case False
    have slot: "st_key_cache st = Some (i, v) \<Longrightarrow> False" for v
      using False run by (cases v) (auto simp: decode_key_block_def)
    obtain r st1 where l: "load_key_block X f i st = (r, st1)" by (cases "load_key_block X f i st")
    have st': "st' = capture_key_failure i e st1"
      using run slot l by (auto simp: decode_key_block_def Let_def split: option.splits if_splits sum.splits prod.splits)
    from load_key_block_cache [OF l] capture_key_failure_cache [of i e st1]
    have c: "st_key_cache st' = st_key_cache st \<or> st_key_cache st' = None \<or>
        (\<exists>cf. st_key_cache st' = Some (i, Failed cf) \<and> replay cf = e \<and> \<not> transient e)"
      unfolding st' by metis
    have again: "decode_key_block X f i st' = (Inl (replay cf), st')" if "st_key_cache st' = Some (i, Failed cf)" for cf
      using that by (simp add: decode_key_block_def)
    have "lasting st'" using c old by (auto simp: lasting_def split: option.splits cached.splits)
    moreover have "transient e \<longrightarrow> st_key_cache st' \<noteq> Some (i, Failed cf)" using c slot by auto
    ultimately show ?thesis using capture_key_failure_records [of e i st1] again unfolding st' by blast
  qed
  then show "lasting st'" and "transient e \<Longrightarrow> st_key_cache st' \<noteq> Some (i, Failed cf)"
    and "\<not> transient e \<Longrightarrow>
      (\<exists>cf. st_key_cache st' = Some (i, Failed cf) \<and> replay cf = e \<and> decode_key_block X f i st' = (Inl e, st')) \<or>
      (\<exists>ctx. e = InvalidData ctx \<and> isl (fst (claim (length ctx) (st_memory st'))))"
    by blast+
qed

text \<open>Row \<open>n\<close> of the file: entry \<open>n - start\<close> of the decoded block that covers \<open>n\<close>.\<close>

definition key_row_at :: "externals \<Rightarrow> mdict_file \<Rightarrow> nat \<Rightarrow> decoded_key_row \<Rightarrow> bool" where
  "key_row_at X f n row \<longleftrightarrow>
     (\<exists>i j rows. key_block_decodes X f i rows \<and> j < length rows \<and>
        n = kb_entry_start_index (vl_key_blocks (mf_layout f) ! i) + j \<and> row = rows ! j)"

text \<open>A file all of whose key blocks decode, with its rows.\<close>

definition file_rows :: "externals \<Rightarrow> mdict_file \<Rightarrow> decoded_key_row list list \<Rightarrow> bool" where
  "file_rows X f blocks \<longleftrightarrow> length blocks = key_block_count f \<and>
     (\<forall>i < key_block_count f. key_block_decodes X f i (blocks ! i))"

lemma file_ok_layout: "file_ok X f \<Longrightarrow> layout_ok (mf_layout f)"
  by (simp add: file_ok_def)

lemma key_tiles:
  "file_ok X f \<Longrightarrow> tiles kb_entry_start_index kb_entry_count 0 (vl_key_blocks (mf_layout f)) (mf_len f)"
  by (simp add: file_ok_def layout_ok_def mf_len_def)

lemma key_row_at_unique:
  assumes ok: "file_ok X f" and "key_row_at X f n r1" and "key_row_at X f n r2" shows "r1 = r2"
proof -
  let ?bs = "vl_key_blocks (mf_layout f)"
  from assms obtain i j rows i' j' rows' where a: "key_block_decodes X f i rows" "j < length rows"
      "n = kb_entry_start_index (?bs ! i) + j" "r1 = rows ! j"
    and b: "key_block_decodes X f i' rows'" "j' < length rows'"
      "n = kb_entry_start_index (?bs ! i') + j'" "r2 = rows' ! j'"
    unfolding key_row_at_def by blast
  note ka = key_block_decodes_ok [OF ok a(1)] and kb = key_block_decodes_ok [OF ok b(1)]
  have "i = i'"
    by (rule tiles_unique [OF key_tiles [OF ok], where x = n])
      (use ka(1,2) kb(1,2) a b in \<open>auto simp: key_block_count_def\<close>)
  then show ?thesis using a b key_block_decodes_unique [OF a(1)] by auto
qed

lemma key_row_at_bound:
  assumes ok: "file_ok X f" and r: "key_row_at X f n row" shows "n < mf_len f"
proof -
  obtain i j rows where k: "key_block_decodes X f i rows" "j < length rows"
    "n = kb_entry_start_index (vl_key_blocks (mf_layout f) ! i) + j" using r by (auto simp: key_row_at_def)
  note kb = key_block_decodes_ok [OF ok k(1)]
  show ?thesis
    using tiles_end_le(2) [OF key_tiles [OF ok], of i] kb(1,2) k by (simp add: key_block_count_def)
qed

lemma key_row_at_file_rows:
  assumes ok: "file_ok X f" and rows: "file_rows X f blocks"
  shows "length (concat blocks) = mf_len f" and "n < mf_len f \<Longrightarrow> key_row_at X f n (concat blocks ! n)"
proof -
  let ?bs = "vl_key_blocks (mf_layout f)"
  have len: "length blocks = length ?bs" using rows by (simp add: file_rows_def key_block_count_def)
  have w: "length (blocks ! i) = kb_entry_count (?bs ! i)" if "i < length ?bs" for i
    using key_block_decodes_ok(2) [OF ok] rows that by (simp add: file_rows_def key_block_count_def)
  note tc = tiles_concat [OF key_tiles [OF ok] len w]
  show "length (concat blocks) = mf_len f" by (rule tc(1))
  assume n: "n < mf_len f"
  obtain i j where p: "i < key_block_count f" "n = kb_entry_start_index (?bs ! i) + j" "j < kb_entry_count (?bs ! i)"
    by (rule key_position_ok [OF file_ok_layout [OF ok] n])
  have "concat blocks ! n = blocks ! i ! j" using tc(3) [of i j] p by (simp add: key_block_count_def)
  moreover have "key_block_decodes X f i (blocks ! i)" using rows p by (simp add: file_rows_def)
  moreover have "j < length (blocks ! i)" using w [of i] p by (simp add: key_block_count_def)
  ultimately show "key_row_at X f n (concat blocks ! n)" using p(2) unfolding key_row_at_def by metis
qed

lemma key_row_at_iff:
  assumes "file_ok X f" and "file_rows X f blocks"
  shows "key_row_at X f n row \<longleftrightarrow> n < mf_len f \<and> row = concat blocks ! n"
proof
  assume r: "key_row_at X f n row"
  then have "n < mf_len f" by (rule key_row_at_bound [OF assms(1)])
  then show "n < mf_len f \<and> row = concat blocks ! n"
    using key_row_at_unique [OF assms(1) r key_row_at_file_rows(2) [OF assms]] by simp
qed (use key_row_at_file_rows(2) [OF assms] in blast)

lemma key_entry_at_ordinal_keeps:
  assumes ok: "file_ok X f"
  shows "keeps (keys_inv X f RP LP) (key_entry_at_ordinal X f n)
    (\<lambda>r. case r of None \<Rightarrow> mf_len f \<le> n
     | Some h \<Rightarrow> n < mf_len f \<and> key_block_decodes X f (kbh_block_index h) (kbh_entries h) \<and>
         boundary_ok X f (kbh_block_index h) (kbh_entries h) \<and> kbh_entry_index h < length (kbh_entries h) \<and>
         n = kb_entry_start_index (vl_key_blocks (mf_layout f) ! kbh_block_index h) + kbh_entry_index h)"
proof (cases "mf_len f \<le> n")
  case True
  then show ?thesis by (auto simp: key_entry_at_ordinal_def intro!: runs_lift)
next
  case False
  then have "n < mf_len f" by simp
  then obtain i j where p: "key_position f n = Inr (i, j)"
    "n = kb_entry_start_index (vl_key_blocks (mf_layout f) ! i) + j"
    by (rule key_position_ok [OF file_ok_layout [OF ok]])
  show ?thesis
    using False unfolding key_entry_at_ordinal_def p(1)
    by (auto simp: not_le intro!: runs_bind [OF decode_key_block_keeps] runs_if runs_lift)
      (use p in auto)
qed

definition row_of_hit :: "key_block_hit \<Rightarrow> decoded_key_row" where
  "row_of_hit h = kbh_entries h ! kbh_entry_index h"

lemma hit_row:
  "key_block_decodes X f (kbh_block_index h) (kbh_entries h) \<Longrightarrow> kbh_entry_index h < length (kbh_entries h) \<Longrightarrow>
   n = kb_entry_start_index (vl_key_blocks (mf_layout f) ! kbh_block_index h) + kbh_entry_index h \<Longrightarrow>
     key_row_at X f n (row_of_hit h)"
  unfolding key_row_at_def row_of_hit_def by blast

text \<open>The answer a key query owes for one ordinal.\<close>

definition key_answer :: "externals \<Rightarrow> mdict_file \<Rightarrow> nat \<Rightarrow> key_entry option \<Rightarrow> bool" where
  "key_answer X f n r \<longleftrightarrow>
     (case r of None \<Rightarrow> mf_len f \<le> n
      | Some e \<Rightarrow> n < mf_len f \<and> ke_ordinal e = n \<and> (\<exists>row. key_row_at X f n row \<and> ke_key e = row_key row))"

lemma key_at_ordinal_keeps:
  assumes ok: "file_ok X f"
  shows "keeps (keys_inv X f RP LP) (key_at_ordinal X f n) (key_answer X f n)"
  unfolding key_at_ordinal_def
proof (rule runs_bind [OF key_entry_at_ordinal_keeps [OF ok]])
  fix r :: "key_block_hit option"
  assume r: "case r of None \<Rightarrow> mf_len f \<le> n
     | Some h \<Rightarrow> n < mf_len f \<and> key_block_decodes X f (kbh_block_index h) (kbh_entries h) \<and>
         boundary_ok X f (kbh_block_index h) (kbh_entries h) \<and> kbh_entry_index h < length (kbh_entries h) \<and>
         n = kb_entry_start_index (vl_key_blocks (mf_layout f) ! kbh_block_index h) + kbh_entry_index h"
  show "keeps (keys_inv X f RP LP) (case r of None \<Rightarrow> oret None
     | Some h \<Rightarrow> oret (Some \<lparr>ke_ordinal = n, ke_key = row_key (kbh_entries h ! kbh_entry_index h)\<rparr>)) (key_answer X f n)"
  proof (cases r)
    case None
    then show ?thesis using r by (auto simp: key_answer_def intro!: runs_lift)
  next
    case (Some h)
    then have "key_row_at X f n (row_of_hit h)" using r hit_row by auto
    then show ?thesis using r Some by (auto simp: key_answer_def row_of_hit_def intro!: runs_lift)
  qed
qed

section \<open>The batched query\<close>

definition request_ok :: "mdict_file \<Rightarrow> nat list \<Rightarrow> key_request \<Rightarrow> bool" where
  "request_ok f ords q \<longleftrightarrow>
     (case q of (bi, ei, ii, ord) \<Rightarrow> ii < length ords \<and> ords ! ii = ord \<and> ord < mf_len f \<and>
        ord = kb_entry_start_index (vl_key_blocks (mf_layout f) ! bi) + ei)"

definition input_index :: "key_request \<Rightarrow> nat" where
  "input_index q = fst (snd (snd q))"

lemma key_requests_ok:
  assumes ok: "layout_ok (mf_layout f)"
  shows "key_requests f (length pre) ords = Inr qs \<Longrightarrow>
    (\<forall>q \<in> set qs. request_ok f (pre @ ords) q) \<and>
    (\<forall>k < length ords. ords ! k < mf_len f \<longrightarrow> length pre + k \<in> input_index ` set qs)"
proof (induction ords arbitrary: pre qs)
  case (Cons ord ords)
  have ih: "(\<forall>q \<in> set qs'. request_ok f (pre @ ord # ords) q) \<and>
      (\<forall>k < length ords. ords ! k < mf_len f \<longrightarrow> Suc (length pre + k) \<in> input_index ` set qs')"
    if "key_requests f (Suc (length pre)) ords = Inr qs'" for qs'
    using Cons.IH [of "pre @ [ord]" qs'] that by simp
  show ?case
  proof (cases "mf_len f \<le> ord")
    case True
    then show ?thesis using Cons.prems ih by (auto simp: less_Suc_eq_0_disj)
  next
    case False
    then obtain i j where p: "key_position f ord = Inr (i, j)"
      "ord = kb_entry_start_index (vl_key_blocks (mf_layout f) ! i) + j"
      using key_position_ok [OF ok, of ord] by (metis not_le)
    obtain qs' where q: "key_requests f (Suc (length pre)) ords = Inr qs'" "qs = (i, j, length pre, ord) # qs'"
      using Cons.prems False p(1) by auto
    have here: "request_ok f (pre @ ord # ords) (i, j, length pre, ord)"
      using p(2) False by (simp add: request_ok_def)
    have "length pre + k \<in> input_index ` set qs"
      if "k < length (ord # ords)" and "(ord # ords) ! k < mf_len f" for k
    proof (cases k)
      case 0
      then show ?thesis by (simp add: q(2) input_index_def)
    next
      case (Suc m)
      then have "Suc (length pre + m) \<in> input_index ` set qs'" using ih [OF q(1)] that by simp
      then show ?thesis using Suc by (simp add: q(2))
    qed
    moreover have "\<forall>q \<in> set qs. request_ok f (pre @ ord # ords) q"
      using ih [OF q(1)] here by (simp add: q(2))
    ultimately show ?thesis by blast
  qed
qed simp

text \<open>Every stored result is the answer for its position, and every ordinal in range is stored or
  still requested.\<close>

definition results_ok ::
    "externals \<Rightarrow> mdict_file \<Rightarrow> nat list \<Rightarrow> key_request list \<Rightarrow> key_entry option list \<Rightarrow> bool" where
  "results_ok X f ords qs results \<longleftrightarrow> length results = length ords \<and>
     (\<forall>q \<in> set qs. request_ok f ords q) \<and>
     (\<forall>k < length ords. (results ! k \<noteq> None \<longrightarrow> key_answer X f (ords ! k) (results ! k)) \<and>
        (ords ! k < mf_len f \<longrightarrow> results ! k \<noteq> None \<or> k \<in> input_index ` set qs))"

lemma results_ok_step:
  assumes r: "results_ok X f ords ((bi, ei, ii, ord) # qs) results"
    and d: "key_block_decodes X f bi rows" and e: "ei < length rows"
  shows "results_ok X f ords qs (results[ii := Some \<lparr>ke_ordinal = ord, ke_key = row_key (rows ! ei)\<rparr>])"
proof -
  have q: "ii < length ords" "ords ! ii = ord" "ord < mf_len f"
    "ord = kb_entry_start_index (vl_key_blocks (mf_layout f) ! bi) + ei"
    using r by (auto simp: results_ok_def request_ok_def)
  have "key_row_at X f ord (rows ! ei)" using d e q(4) unfolding key_row_at_def by blast
  then have a: "key_answer X f ord (Some \<lparr>ke_ordinal = ord, ke_key = row_key (rows ! ei)\<rparr>)"
    using q(3) by (auto simp: key_answer_def)
  show ?thesis
    unfolding results_ok_def
  proof (intro conjI allI impI ballI)
    show "length (results[ii := Some \<lparr>ke_ordinal = ord, ke_key = row_key (rows ! ei)\<rparr>]) = length ords"
      using r by (simp add: results_ok_def)
    show "request_ok f ords p" if "p \<in> set qs" for p using r that by (simp add: results_ok_def)
    fix k assume k: "k < length ords"
    let ?r = "results[ii := Some \<lparr>ke_ordinal = ord, ke_key = row_key (rows ! ei)\<rparr>]"
    have l: "length results = length ords" using r by (simp add: results_ok_def)
    show "key_answer X f (ords ! k) (?r ! k)" if "?r ! k \<noteq> None"
      using that a r k l q(1,2) by (cases "k = ii") (auto simp: results_ok_def)
    show "?r ! k \<noteq> None \<or> k \<in> input_index ` set qs" if "ords ! k < mf_len f"
      using that r k l q(1) by (cases "k = ii") (auto simp: results_ok_def input_index_def)
  qed
qed

lemma fill_requests_ok:
  assumes d: "key_block_decodes X f bi rows"
  shows "fill_requests rows grp results = Inr results' \<Longrightarrow> \<forall>q \<in> set grp. fst q = bi \<Longrightarrow>
    results_ok X f ords (grp @ qs) results \<Longrightarrow> results_ok X f ords qs results'"
proof (induction grp arbitrary: results)
  case (Cons q grp)
  obtain ei ii ord where q: "q = (bi, ei, ii, ord)" using Cons.prems(2) by (cases q) auto
  have e: "ei < length rows"
    and f: "fill_requests rows grp (results[ii := Some \<lparr>ke_ordinal = ord, ke_key = row_key (rows ! ei)\<rparr>]) = Inr results'"
    using Cons.prems(1) by (auto simp: q)
  show ?case
    by (rule Cons.IH [OF f]) (use Cons.prems(2,3) results_ok_step [OF _ d e] q in auto)
qed simp

lemma process_requests_keeps:
  "results_ok X f ords qs results \<Longrightarrow>
     keeps (keys_inv X f RP LP) (process_requests X f qs results) (results_ok X f ords [])"
proof (induction X f qs results rule: process_requests.induct)
  case (1 X f results)
  then show ?case by (auto intro: runs_lift)
next
  case (2 X f r qs results)
  let ?grp = "r # takeWhile (\<lambda>q. fst q = fst r) qs" and ?rest = "dropWhile (\<lambda>q. fst q = fst r) qs"
  have grp: "\<forall>q \<in> set ?grp. fst q = fst r" by (auto dest: set_takeWhileD)
  have all: "results_ok X f ords (?grp @ ?rest) results" using "2.prems" by simp
  show ?case
    unfolding process_requests.simps
  proof (rule runs_bind [OF decode_key_block_keeps])
    fix b assume b: "key_block_decodes X f (fst r) (dkb_entries b) \<and> boundary_ok X f (fst r) (dkb_entries b)"
    show "keeps (keys_inv X f RP LP)
        (otry (fill_requests (dkb_entries b) ?grp results) (process_requests X f ?rest)) (results_ok X f ords [])"
    proof (rule runs_bind [OF runs_lift])
      fix results' assume f: "fill_requests (dkb_entries b) ?grp results = Inr results'"
      show "results_ok X f ords ?rest results'"
        by (rule fill_requests_ok [OF conjunct1 [OF b] f grp all])
    next
      fix results' assume "results_ok X f ords ?rest results'"
      then show "keeps (keys_inv X f RP LP) (process_requests X f ?rest results') (results_ok X f ords [])"
        by (rule "2.IH")
    qed
  qed
qed

lemma results_done:
  assumes "results_ok X f ords [] rs"
  shows "length rs = length ords" and "k < length ords \<Longrightarrow> key_answer X f (ords ! k) (rs ! k)"
proof -
  show "length rs = length ords" using assms by (simp add: results_ok_def)
  assume k: "k < length ords"
  show "key_answer X f (ords ! k) (rs ! k)"
  proof (cases "rs ! k")
    case None
    then show ?thesis using assms k by (auto simp: results_ok_def key_answer_def not_less)
  next
    case (Some e)
    then show ?thesis using assms k by (auto simp: results_ok_def)
  qed
qed

lemma keys_at_ordinals_keeps:
  assumes ok: "file_ok X f"
  shows "keeps (keys_inv X f RP LP) (keys_at_ordinals X f ords)
    (\<lambda>rs. length rs = length ords \<and> (\<forall>k < length ords. key_answer X f (ords ! k) (rs ! k)))"
  unfolding keys_at_ordinals_def
proof (rule runs_try, rule runs_try, rule runs_try)
  fix qs assume "key_requests f 0 ords = Inr qs"
  then have "(\<forall>q \<in> set qs. request_ok f ords q) \<and>
      (\<forall>k < length ords. ords ! k < mf_len f \<longrightarrow> k \<in> input_index ` set qs)"
    using key_requests_ok [of f "[]" ords qs] ok by (simp add: file_ok_def)
  then have "results_ok X f ords (sort_key fst qs) (replicate (length ords) None)"
    by (simp add: results_ok_def)
  from process_requests_keeps [OF this]
  show "keeps (keys_inv X f RP LP) (process_requests X f (sort_key fst qs) (replicate (length ords) None))
    (\<lambda>rs. length rs = length ords \<and> (\<forall>k < length ords. key_answer X f (ords ! k) (rs ! k)))"
    by (rule runs_conseq) (use results_done in blast)
qed

end
