(* ===== verification/Records.thy ===== *)
theory Records
  imports Keys
begin

text \<open>
  Records of an open file (\<^verbatim>\<open>src/src/core/records.rs\<close>): the decoded record blocks and
  their cache, the traversal of a span of the decoded record stream, its materialisation, and the
  span a key owns. The stream is specified by \<open>record_byte_at\<close>, which mentions neither blocks
  borders, cache nor budget; the lemmas show that a span read through the blocks is that span of
  the stream, and that the spans of consecutive keys adjoin.
\<close>

section \<open>Record blocks\<close>

record record_descriptor =
  rd_key :: key_entry
  rd_start :: nat
  rd_end :: nat

definition decode_record_block_uncached :: "externals \<Rightarrow> mdict_file \<Rightarrow> nat \<Rightarrow> decoded_record_block mem" where
  "decode_record_block_uncached X f index =
     attempt (ok_or (get (vl_record_blocks (mf_layout f)) index)
                (InvalidFormat ''record block index out of range'')) (\<lambda>block.
     attempt (checked_usize (rb_comp_size block) ''record block compressed length'') (\<lambda>comp_size.
     attempt (checked_usize (rb_decomp_size block) ''record block decompressed length'') (\<lambda>decomp_size.
     retained decomp_size (scoped comp_size (
     attempt (read_exact_at (mf_source f) (rb_comp_offset block) comp_size ''record block'') (\<lambda>block_bytes.
     attempt (decode_block X ''record block'' block_bytes decomp_size (mf_limits f) (mf_checksum_policy f))
       (\<lambda>bytes. mret \<lparr>drb_bytes = bytes, drb_memory = decomp_size\<rparr>)))))))"

definition set_record_cache :: "(nat \<times> decoded_record_block cached) option \<Rightarrow> file_state \<Rightarrow> file_state" where
  "set_record_cache slot st =
     drop_bytes (slot_bytes drb_memory (st_record_cache st)) (st\<lparr>st_record_cache := slot\<rparr>)"

definition capture_record_failure :: "nat \<Rightarrow> error \<Rightarrow> file_state \<Rightarrow> file_state" where
  "capture_record_failure index e st =
     (case capture e (st_memory st) of
        (None, b) \<Rightarrow> st\<lparr>st_memory := b\<rparr>
      | (Some cf, b) \<Rightarrow> set_record_cache (Some (index, Failed cf)) (st\<lparr>st_memory := b\<rparr>))"

text \<open>The slot is cleared before the decode, so the old block's bytes are free for the new one.\<close>

definition decode_record_block :: "externals \<Rightarrow> mdict_file \<Rightarrow> nat \<Rightarrow> decoded_record_block op" where
  "decode_record_block X f index st =
     (let fresh = (case omem (decode_record_block_uncached X f index) (set_record_cache None st) of
                     (Inr decoded, st') \<Rightarrow>
                       (Inr decoded, set_record_cache (Some (index, Ready decoded)) st')
                   | (Inl e, st') \<Rightarrow> (Inl e, capture_record_failure index e st'))
      in
      case st_record_cache st of
        Some (cached_index, v) \<Rightarrow>
          if cached_index = index then
            (case v of Ready data \<Rightarrow> (Inr data, st) | Failed cf \<Rightarrow> (Inl (replay cf), st))
          else fresh
      | None \<Rightarrow> fresh)"

section \<open>Spans\<close>

definition validate_record_span :: "mdict_file \<Rightarrow> nat \<Rightarrow> nat \<Rightarrow> nat result" where
  "validate_record_span f start stop =
     (if stop < start then Inl (InvalidFormat ''record range is inverted'')
      else
      and_then (ok_or (checked_sub stop start) (InvalidFormat ''record range overflow'')) (\<lambda>len.
      if vl_total_decoded_record_len (mf_layout f) < stop
      then Inl (InvalidFormat ''record range exceeds record data'')
      else Inr len))"

definition materialized_record_span_len :: "mdict_file \<Rightarrow> nat \<Rightarrow> nat \<Rightarrow> nat result" where
  "materialized_record_span_len f start stop =
     and_then (validate_record_span f start stop) (\<lambda>len.
     and_then (checked_u64 (materialized_record_bytes (mf_limits f)) ''materialized record limit'') (\<lambda>maximum.
     if maximum < len then Inl (LimitExceeded ''materialized_record_bytes'' len maximum)
     else if usize_max < len then Inl (InvalidFormat ''materialized record length exceeds usize'')
     else Inr len))"

text \<open>The part of a decoded block that a traversal at \<open>cursor\<close> hands to the visitor.\<close>

definition span_window :: "record_block_descriptor \<Rightarrow> bytes \<Rightarrow> nat \<Rightarrow> nat \<Rightarrow> (nat \<times> nat) result" where
  "span_window block decoded cursor stop =
     and_then (ok_or (checked_sub cursor (rb_decomp_offset block))
                 (InvalidFormat ''record block offset underflow'')) (\<lambda>local_start.
     and_then (checked_usize local_start ''record block local start'') (\<lambda>local_start.
     and_then (ok_or (checked_add (rb_decomp_offset block) (rb_decomp_size block))
                 (InvalidFormat ''record block end overflow'')) (\<lambda>block_end.
     and_then (ok_or (checked_sub (min stop block_end) (rb_decomp_offset block))
                 (InvalidFormat ''record block offset underflow'')) (\<lambda>local_end.
     and_then (checked_usize local_end ''record block local end'') (\<lambda>local_end.
     if local_end < local_start \<or> length decoded < local_end
     then Inl (InvalidFormat ''record block slice is out of range'')
     else Inr (local_start, local_end))))))"

text \<open>The loop of \<open>visit_record_span\<close>. The visitor folds over the chunks with its own state.\<close>

type_synonym 's visitor = "'s \<Rightarrow> bytes \<Rightarrow> 's result"

definition visit_chunk ::
    "externals \<Rightarrow> mdict_file \<Rightarrow> nat \<Rightarrow> 's visitor \<Rightarrow> nat \<Rightarrow> 's \<Rightarrow> (nat \<times> 's) op" where
  "visit_chunk X f stop visitor cursor s =
     otry (ok_or (find_record_block (vl_record_blocks (mf_layout f)) cursor)
             (InvalidFormat ''record offset not covered by record blocks'')) (\<lambda>block_index.
     let block = vl_record_blocks (mf_layout f) ! block_index in
     obind (decode_record_block X f block_index) (\<lambda>decoded.
     otry (span_window block (drb_bytes decoded) cursor stop) (\<lambda>(local_start, local_end).
     otry (visitor s (slice local_start local_end (drb_bytes decoded))) (\<lambda>s'.
     otry (ok_or (checked_add (rb_decomp_offset block) local_end) (InvalidFormat ''record cursor overflow''))
       (\<lambda>next. oret (next, s'))))))"

function visit_from ::
    "externals \<Rightarrow> mdict_file \<Rightarrow> nat \<Rightarrow> 's visitor \<Rightarrow> nat \<Rightarrow> 's \<Rightarrow> 's op" where
  "visit_from X f stop visitor cursor s st =
     (if stop \<le> cursor then (Inr s, st)
      else
      case visit_chunk X f stop visitor cursor s st of
        (Inl e, st') \<Rightarrow> (Inl e, st')
      | (Inr (next, s'), st') \<Rightarrow>
          if next \<le> cursor then (Inl (InvalidFormat ''record traversal made no progress''), st')
          else visit_from X f stop visitor next s' st')"
  by pat_completeness auto
termination
  by (relation "measure (\<lambda>(_, _, stop, _, cursor, _, _). stop - cursor)") auto

declare visit_from.simps [simp del]

definition visit_record_span ::
    "externals \<Rightarrow> mdict_file \<Rightarrow> nat \<Rightarrow> nat \<Rightarrow> 's visitor \<Rightarrow> 's \<Rightarrow> 's op" where
  "visit_record_span X f start stop visitor s =
     otry (validate_record_span f start stop) (\<lambda>_. visit_from X f stop visitor start s)"

definition read_record_span :: "externals \<Rightarrow> mdict_file \<Rightarrow> nat \<Rightarrow> nat \<Rightarrow> bytes op" where
  "read_record_span X f start stop =
     otry (materialized_record_span_len f start stop) (\<lambda>len.
     oscoped len (
     otry (try_reserve_vec 1 0 len ''materialized record'') (\<lambda>_.
     visit_record_span X f start stop (\<lambda>output chunk. Inr (output @ chunk)) [])))"

section \<open>The span of a key\<close>

definition record_descriptor_from_hit :: "externals \<Rightarrow> mdict_file \<Rightarrow> key_block_hit \<Rightarrow> record_descriptor op" where
  "record_descriptor_from_hit X f h =
     otry (ok_or (get (vl_key_blocks (mf_layout f)) (kbh_block_index h))
             (InvalidFormat ''key block index out of range'')) (\<lambda>block.
     otry (ok_or (checked_add (kb_entry_start_index block) (kbh_entry_index h))
             (InvalidFormat ''key ordinal overflow'')) (\<lambda>ordinal.
     otry (ok_or (get (kbh_entries h) (kbh_entry_index h))
             (InvalidFormat ''key entry index out of range'')) (\<lambda>entry.
     obind
       (case get (kbh_entries h) (kbh_entry_index h + 1) of
          Some next \<Rightarrow> oret (row_record_start next)
        | None \<Rightarrow>
            if kbh_block_index h + 1 < key_block_count f then
              obind (decode_key_block X f (kbh_block_index h + 1)) (\<lambda>next_block.
              olift (and_then (ok_or (get (dkb_entries next_block) 0) (InvalidFormat ''empty key block''))
                (\<lambda>r. Inr (row_record_start r))))
            else oret (vl_total_decoded_record_len (mf_layout f))) (\<lambda>stop.
     if stop < row_record_start entry
     then olift (Inl (InvalidData (''record span decreases from '' @ dec (row_record_start entry) @
            '' to '' @ dec stop)))
     else oret \<lparr>rd_key = \<lparr>ke_ordinal = ordinal, ke_key = row_key entry\<rparr>,
                rd_start = row_record_start entry, rd_end = stop\<rparr>))))"

definition record_at_ordinal :: "externals \<Rightarrow> mdict_file \<Rightarrow> nat \<Rightarrow> record_descriptor option op" where
  "record_at_ordinal X f ordinal =
     obind (key_entry_at_ordinal X f ordinal) (\<lambda>hit.
     case hit of
       None \<Rightarrow> oret None
     | Some h \<Rightarrow> obind (record_descriptor_from_hit X f h) (\<lambda>d. oret (Some d)))"

definition record_descriptor_at_position ::
    "externals \<Rightarrow> mdict_file \<Rightarrow> nat \<Rightarrow> nat \<Rightarrow> decoded_key_block \<Rightarrow> record_descriptor op" where
  "record_descriptor_at_position X f block_index entry_index entries =
     record_descriptor_from_hit X f
       \<lparr>kbh_block_index = block_index, kbh_entry_index = entry_index, kbh_entries = dkb_entries entries\<rparr>"

section \<open>The decoded record stream\<close>

definition record_block_decodes :: "externals \<Rightarrow> mdict_file \<Rightarrow> nat \<Rightarrow> bytes \<Rightarrow> bool" where
  "record_block_decodes X f i bs \<longleftrightarrow>
     (\<exists>m. returns (decode_record_block_uncached X f i) \<lparr>drb_bytes = bs, drb_memory = m\<rparr>)"

definition record_byte_at :: "externals \<Rightarrow> mdict_file \<Rightarrow> nat \<Rightarrow> u8 \<Rightarrow> bool" where
  "record_byte_at X f n x \<longleftrightarrow>
     (\<exists>i bs. record_block_decodes X f i bs \<and> rb_decomp_offset (vl_record_blocks (mf_layout f) ! i) \<le> n \<and>
        n < rb_decomp_offset (vl_record_blocks (mf_layout f) ! i) + length bs \<and>
        x = bs ! (n - rb_decomp_offset (vl_record_blocks (mf_layout f) ! i)))"

definition span_bytes :: "externals \<Rightarrow> mdict_file \<Rightarrow> nat \<Rightarrow> nat \<Rightarrow> bytes \<Rightarrow> bool" where
  "span_bytes X f start stop bs \<longleftrightarrow>
     length bs = stop - start \<and> (\<forall>k < stop - start. record_byte_at X f (start + k) (bs ! k))"

text \<open>A file all of whose record blocks decode, with their contents.\<close>

definition file_records :: "externals \<Rightarrow> mdict_file \<Rightarrow> bytes list \<Rightarrow> bool" where
  "file_records X f blocks \<longleftrightarrow> length blocks = length (vl_record_blocks (mf_layout f)) \<and>
     (\<forall>i < length blocks. record_block_decodes X f i (blocks ! i))"

lemma deterministic_record_uncached: "deterministic (decode_record_block_uncached X f i)"
  unfolding decode_record_block_uncached_def by (intro determinism)

lemma record_block_decodes_unique:
  "record_block_decodes X f i bs \<Longrightarrow> record_block_decodes X f i bs' \<Longrightarrow> bs = bs'"
  using deterministic_record_uncached [of X f i] unfolding record_block_decodes_def deterministic_def
  by (metis decoded_record_block.ext_inject)

lemma returns_record_uncached:
  "returns (decode_record_block_uncached X f i) b \<Longrightarrow> record_block_decodes X f i (drb_bytes b)"
  unfolding record_block_decodes_def by (cases b) (auto intro: exI [of _ "drb_memory b"])

lemma record_block_decodes_run:
  assumes "record_block_decodes X f i out"
  obtains b bs where "i < length (vl_record_blocks (mf_layout f))" and "b = vl_record_blocks (mf_layout f) ! i"
    and "read_exact_at (mf_source f) (rb_comp_offset b) (rb_comp_size b) ''record block'' = Inr bs"
    and "decode_block X ''record block'' bs (rb_decomp_size b) (mf_limits f) (mf_checksum_policy f) = Inr out"
proof -
  from assms obtain m where "returns (decode_record_block_uncached X f i) \<lparr>drb_bytes = out, drb_memory = m\<rparr>"
    by (auto simp: record_block_decodes_def)
  then show ?thesis unfolding decode_record_block_uncached_def by (auto intro: that)
qed

lemma record_block_decodes_ok:
  assumes "record_block_decodes X f i out"
  shows "i < length (vl_record_blocks (mf_layout f))"
    and "length out = rb_decomp_size (vl_record_blocks (mf_layout f) ! i)"
  using assms by (auto elim!: record_block_decodes_run dest: decode_block_ok(1))

lemma record_tiles:
  "layout_ok (mf_layout f) \<Longrightarrow>
     tiles rb_decomp_offset rb_decomp_size 0 (vl_record_blocks (mf_layout f))
       (vl_total_decoded_record_len (mf_layout f))"
  "layout_ok (mf_layout f) \<Longrightarrow> vl_total_decoded_record_len (mf_layout f) \<le> u64_max"
  by (simp_all add: layout_ok_def)

lemma record_byte_at_unique:
  assumes ok: "layout_ok (mf_layout f)" and "record_byte_at X f n x" and "record_byte_at X f n y"
  shows "x = y"
proof -
  let ?bs = "vl_record_blocks (mf_layout f)"
  from assms obtain i bs j cs where a: "record_block_decodes X f i bs" "rb_decomp_offset (?bs ! i) \<le> n"
      "n < rb_decomp_offset (?bs ! i) + length bs" "x = bs ! (n - rb_decomp_offset (?bs ! i))"
    and b: "record_block_decodes X f j cs" "rb_decomp_offset (?bs ! j) \<le> n"
      "n < rb_decomp_offset (?bs ! j) + length cs" "y = cs ! (n - rb_decomp_offset (?bs ! j))"
    unfolding record_byte_at_def by blast
  note ka = record_block_decodes_ok [OF a(1)] and kb = record_block_decodes_ok [OF b(1)]
  have "i = j"
    by (rule tiles_unique [OF record_tiles(1) [OF ok], where x = n]) (use ka kb a b in simp_all)
  then show ?thesis using a b record_block_decodes_unique [OF a(1)] by auto
qed

lemma span_bytes_unique:
  "layout_ok (mf_layout f) \<Longrightarrow> span_bytes X f s e bs \<Longrightarrow> span_bytes X f s e bs' \<Longrightarrow> bs = bs'"
  unfolding span_bytes_def by (intro nth_equalityI) (auto intro: record_byte_at_unique)

lemma span_bytes_append:
  assumes "span_bytes X f s m xs" and "span_bytes X f m e ys" and "s \<le> m" and "m \<le> e"
  shows "span_bytes X f s e (xs @ ys)"
proof -
  have "record_byte_at X f (s + k) ((xs @ ys) ! k)" if "k < e - s" for k
  proof (cases "k < m - s")
    case True
    then show ?thesis using assms by (simp add: span_bytes_def nth_append)
  next
    case False
    then have k: "k - (m - s) < e - m" and at: "s + k = m + (k - (m - s))" using that assms by simp_all
    have "record_byte_at X f (m + (k - (m - s))) (ys ! (k - (m - s)))"
      using assms(2) k by (simp add: span_bytes_def)
    then show ?thesis using assms(1) False unfolding at by (simp add: span_bytes_def nth_append)
  qed
  then show ?thesis using assms by (simp add: span_bytes_def)
qed

lemma span_bytes_file:
  assumes ok: "layout_ok (mf_layout f)" and rows: "file_records X f blocks"
    and e: "e \<le> vl_total_decoded_record_len (mf_layout f)"
  shows "span_bytes X f s e bs \<longleftrightarrow> bs = slice s e (concat blocks)"
proof -
  let ?rb = "vl_record_blocks (mf_layout f)" and ?t = "vl_total_decoded_record_len (mf_layout f)"
  have len: "length blocks = length ?rb" using rows by (simp add: file_records_def)
  have d: "record_block_decodes X f i (blocks ! i)" if "i < length ?rb" for i
    using rows that len by (simp add: file_records_def)
  have w: "length (blocks ! i) = rb_decomp_size (?rb ! i)" if "i < length ?rb" for i
    by (rule record_block_decodes_ok(2) [OF d [OF that]])
  note tc = tiles_concat [OF record_tiles(1) [OF ok] len w]
  have at: "record_byte_at X f n (concat blocks ! n)" if n: "n < ?t" for n
  proof -
    obtain i where i: "i < length ?rb" "rb_decomp_offset (?rb ! i) \<le> n"
      "n < rb_decomp_offset (?rb ! i) + rb_decomp_size (?rb ! i)"
      using record_table.found [OF record_tiles [OF ok], of n] n by auto
    have "concat blocks ! n = blocks ! i ! (n - rb_decomp_offset (?rb ! i))"
      using tc(3) [of i "n - rb_decomp_offset (?rb ! i)"] i by simp
    then show ?thesis
      unfolding record_byte_at_def using d [OF i(1)] w [OF i(1)] i by (intro exI [of _ i] exI [of _ "blocks ! i"]) simp
  qed
  have sp: "span_bytes X f s e (slice s e (concat blocks))"
    using tc(1) e at by (auto simp: span_bytes_def slice_def)
  then show ?thesis using span_bytes_unique [OF ok _ sp] by blast
qed

section \<open>Decoding through the cache\<close>

definition record_cache_ok :: "externals \<Rightarrow> mdict_file \<Rightarrow> (nat \<times> decoded_record_block cached) option \<Rightarrow> bool" where
  "record_cache_ok X f slot \<longleftrightarrow>
     (case slot of Some (i, Ready b) \<Rightarrow> record_block_decodes X f i (drb_bytes b) | _ \<Rightarrow> True)"

abbreviation records_inv where
  "records_inv X f \<equiv> file_inv (\<lambda>_. True) (working_memory_bytes (mf_limits f)) (key_cache_ok X f) (record_cache_ok X f)"

lemma accounts_record_uncached: "accounts (decode_record_block_uncached X f i) drb_memory"
  unfolding decode_record_block_uncached_def
  apply (intro accounts_mbind accounts_lift)
  apply (rule accounts_retained_conv [where k = "\<lambda>_. 0"])
   apply (intro accounting)
  apply auto
  done

lemma set_record_cache_inv:
  assumes "file_inv E M KP RP LP (base + slot_bytes drb_memory slot) st" and "RP slot"
  shows "file_inv E M KP RP LP base (set_record_cache slot st)"
proof -
  let ?old = "slot_bytes drb_memory (st_record_cache st)"
  have b: "budget_ok (st_memory st)" "?old \<le> mb_used (st_memory st)"
    using assms(1) by (auto simp: file_inv_def state_bytes_def)
  note rel = release_ok [OF b]
  show ?thesis
    using assms rel by (simp add: set_record_cache_def drop_bytes_def file_inv_def state_bytes_def)
qed

lemma capture_record_failure_inv:
  assumes i: "file_inv E M KP RP LP base st" and fail: "\<And>cf. RP (Some (index, Failed cf))"
  shows "file_inv E M KP RP LP base (capture_record_failure index e st)"
proof -
  obtain r b where c: "capture e (st_memory st) = (r, b)" by (cases "capture e (st_memory st)")
  have ok: "budget_ok (st_memory st)" using i by (simp add: file_inv_def)
  note m = capture_memory [OF ok c]
  show ?thesis
  proof (cases r)
    case None
    then show ?thesis using c m i by (simp add: capture_record_failure_def file_inv_def state_bytes_def)
  next
    case (Some cf)
    have "file_inv E M KP RP LP (base + slot_bytes drb_memory (Some (index, Failed cf))) (st\<lparr>st_memory := b\<rparr>)"
      using i m Some by (simp add: file_inv_def state_bytes_def slot_bytes_def)
    from set_record_cache_inv [OF this fail] show ?thesis using c Some by (simp add: capture_record_failure_def)
  qed
qed

lemma decode_record_block_keeps:
  "keeps (records_inv X f LP) (decode_record_block X f index) (\<lambda>b. record_block_decodes X f index (drb_bytes b))"
proof (rule runsI)
  let ?Q = "\<lambda>b. record_block_decodes X f index (drb_bytes b)"
  fix base st r st'
  assume i: "records_inv X f LP base st" and run: "decode_record_block X f index st = (r, st')"
  show "case r of Inl e \<Rightarrow> records_inv X f LP base st' | Inr x \<Rightarrow> records_inv X f LP (base + 0) st' \<and> ?Q x"
  proof (cases "\<exists>v. st_record_cache st = Some (index, v)")
    case True
    then obtain v where v: "st_record_cache st = Some (index, v)" by blast
    have k: "record_cache_ok X f (Some (index, v))" using i v by (simp add: file_inv_def)
    show ?thesis using run i v k by (cases v) (auto simp: decode_record_block_def record_cache_ok_def Let_def)
  next
    case False
    let ?st0 = "set_record_cache None st"
    have i0: "records_inv X f LP base ?st0"
      by (rule set_record_cache_inv) (use i in \<open>simp_all add: slot_bytes_def record_cache_ok_def\<close>)
    obtain r1 st1 where l: "omem (decode_record_block_uncached X f index) ?st0 = (r1, st1)"
      by (cases "omem (decode_record_block_uncached X f index) ?st0")
    have eq: "(r, st') = (case r1 of Inr b \<Rightarrow> (Inr b, set_record_cache (Some (index, Ready b)) st1)
        | Inl e \<Rightarrow> (Inl e, capture_record_failure index e st1))"
      using run l False by (cases r1) (auto simp: decode_record_block_def Let_def split: option.splits if_splits)
    have "runs (records_inv X f LP) drb_memory (omem (decode_record_block_uncached X f index)) ?Q"
      by (rule runs_mem [OF accounts_record_uncached returns_record_uncached])
    note ld = runsD [OF this i0 l]
    show ?thesis
    proof (cases r1)
      case (Inl e)
      then show ?thesis using ld eq by (auto simp: record_cache_ok_def intro!: capture_record_failure_inv)
    next
      case (Inr b)
      then have "records_inv X f LP base (set_record_cache (Some (index, Ready b)) st1)"
        using ld by (intro set_record_cache_inv) (auto simp: slot_bytes_def record_cache_ok_def)
      then show ?thesis using ld eq Inr by auto
    qed
  qed
qed

section \<open>Traversal\<close>

text \<open>The visitor applied to a list of chunks.\<close>

fun visit_all :: "'s visitor \<Rightarrow> 's \<Rightarrow> bytes list \<Rightarrow> 's result" where
  "visit_all visitor s [] = Inr s"
| "visit_all visitor s (c # cs) = and_then (visitor s c) (\<lambda>s. visit_all visitor s cs)"

lemma span_window_Inr:
  "span_window block decoded cursor stop = Inr (a, b) \<Longrightarrow>
     a = cursor - rb_decomp_offset block \<and> rb_decomp_offset block \<le> cursor \<and>
     b = min stop (rb_decomp_offset block + rb_decomp_size block) - rb_decomp_offset block \<and>
     a \<le> b \<and> b \<le> length decoded"
  by (auto simp: span_window_def and_then_Inr not_less split: if_splits)

lemma visit_chunk_keeps:
  assumes ok: "layout_ok (mf_layout f)"
  shows "keeps (records_inv X f LP) (visit_chunk X f stop visitor cursor s)
    (\<lambda>(next, s'). cursor < stop \<longrightarrow> cursor < next \<longrightarrow>
       (\<exists>chunk. visitor s chunk = Inr s' \<and> next \<le> stop \<and> span_bytes X f cursor next chunk))"
  unfolding visit_chunk_def
proof (rule runs_try)
  let ?R = "\<lambda>(next, s'). cursor < stop \<longrightarrow> cursor < next \<longrightarrow>
       (\<exists>chunk. visitor s chunk = Inr s' \<and> next \<le> stop \<and> span_bytes X f cursor next chunk)"
  fix i assume "ok_or (find_record_block (vl_record_blocks (mf_layout f)) cursor)
             (InvalidFormat ''record offset not covered by record blocks'') = Inr i"
  then have find: "find_record_block (vl_record_blocks (mf_layout f)) cursor = Some i" by simp
  let ?b = "vl_record_blocks (mf_layout f) ! i"
  show "keeps (records_inv X f LP) (let block = ?b in
     obind (decode_record_block X f i) (\<lambda>decoded.
     otry (span_window block (drb_bytes decoded) cursor stop) (\<lambda>(local_start, local_end).
     otry (visitor s (slice local_start local_end (drb_bytes decoded))) (\<lambda>s'.
     otry (ok_or (checked_add (rb_decomp_offset block) local_end) (InvalidFormat ''record cursor overflow''))
       (\<lambda>next. oret (next, s')))))) ?R"
    unfolding Let_def
  proof (rule runs_bind [OF decode_record_block_keeps], rule runs_try)
    fix d w
    assume d: "record_block_decodes X f i (drb_bytes d)" and "span_window ?b (drb_bytes d) cursor stop = Inr w"
    then obtain a e where w: "w = (a, e)" and win: "span_window ?b (drb_bytes d) cursor stop = Inr (a, e)"
      by (cases w) auto
    note sw = span_window_Inr [OF win]
    have chunk: "next \<le> stop \<and> span_bytes X f cursor next (slice a e (drb_bytes d))"
      if "cursor < stop" and "cursor < next" and n: "next = rb_decomp_offset ?b + e" for "next"
    proof -
      have "record_byte_at X f (cursor + k) (slice a e (drb_bytes d) ! k)" if k: "k < next - cursor" for k
      proof -
        have b: "rb_decomp_offset ?b \<le> cursor" "a = cursor - rb_decomp_offset ?b" "e \<le> length (drb_bytes d)"
          using sw by simp_all
        have "slice a e (drb_bytes d) ! k = drb_bytes d ! (a + k)"
          by (rule nth_slice) (use b k n in simp_all)
        also have "a + k = cursor + k - rb_decomp_offset ?b" using b by simp
        finally have at: "slice a e (drb_bytes d) ! k = drb_bytes d ! (cursor + k - rb_decomp_offset ?b)" .
        show ?thesis
          unfolding record_byte_at_def at
          by (rule exI [of _ i], rule exI [of _ "drb_bytes d"]) (use d b k n in simp)
      qed
      moreover have "length (slice a e (drb_bytes d)) = next - cursor"
        unfolding length_slice n using conjunct1 [OF sw] conjunct1 [OF conjunct2 [OF sw]] sw by linarith
      moreover have "next \<le> stop"
      proof -
        have "next \<le> rb_decomp_offset ?b + (stop - rb_decomp_offset ?b)" using sw n by simp
        then show ?thesis using sw that(1) by simp
      qed
      ultimately show ?thesis by (simp add: span_bytes_def)
    qed
    show "keeps (records_inv X f LP) (case w of (local_start, local_end) \<Rightarrow>
       otry (visitor s (slice local_start local_end (drb_bytes d))) (\<lambda>s'.
       otry (ok_or (checked_add (rb_decomp_offset ?b) local_end) (InvalidFormat ''record cursor overflow''))
         (\<lambda>next. oret (next, s')))) ?R"
      unfolding w prod.case
      by (rule runs_try, rule runs_try, rule runs_lift) (use chunk in auto)
  qed
qed

lemma visit_from_keeps:
  assumes ok: "layout_ok (mf_layout f)"
  shows "keeps (records_inv X f LP) (visit_from X f stop visitor cursor s)
    (\<lambda>s'. \<exists>chunks. visit_all visitor s chunks = Inr s' \<and> span_bytes X f cursor stop (concat chunks))"
proof (rule runsI)
  fix base st r st'
  assume "records_inv X f LP base st" and "visit_from X f stop visitor cursor s st = (r, st')"
  then show "case r of Inl e \<Rightarrow> records_inv X f LP base st'
     | Inr x \<Rightarrow> records_inv X f LP (base + 0) st' \<and>
         (\<exists>chunks. visit_all visitor s chunks = Inr x \<and> span_bytes X f cursor stop (concat chunks))"
    using ok
  proof (induction X f stop visitor cursor s st rule: visit_from.induct)
    case (1 X f stop visitor cursor s st)
    note inv = "1.prems"(1) and run = "1.prems"(2) and ok = "1.prems"(3)
    show ?case
    proof (cases "stop \<le> cursor")
      case True
      then have "r = Inr s" "st' = st" using run by (simp_all add: visit_from.simps)
      then show ?thesis using inv True
        by (auto simp: span_bytes_def intro!: exI [of _ "[]"])
    next
      case False
      obtain r1 st1 where c: "visit_chunk X f stop visitor cursor s st = (r1, st1)"
        by (cases "visit_chunk X f stop visitor cursor s st")
      note ch = runsD [OF visit_chunk_keeps [OF ok] inv c]
      show ?thesis
      proof (cases r1)
        case (Inl e)
        then show ?thesis using run False c ch by (auto simp: visit_from.simps)
      next
        case (Inr p)
        then obtain "next" s' where p: "r1 = Inr (next, s')" by (cases p) auto
        show ?thesis
        proof (cases "next \<le> cursor")
          case True
          then show ?thesis using run False c ch p by (auto simp: visit_from.simps)
        next
          case False': False
          have run': "visit_from X f stop visitor next s' st1 = (r, st')"
            using run False False' c p by (simp add: visit_from.simps)
          have inv1: "records_inv X f LP base st1" using ch p by simp
          obtain chunk where k: "visitor s chunk = Inr s'" "next \<le> stop" "span_bytes X f cursor next chunk"
            using ch p False False' by auto
          note ih = "1.IH" [OF False c [symmetric] p refl False' inv1 run' ok]
          have "\<exists>chunks. visit_all visitor s chunks = Inr x \<and> span_bytes X f cursor stop (concat chunks)"
            if "\<exists>chunks. visit_all visitor s' chunks = Inr x \<and> span_bytes X f next stop (concat chunks)" for x
          proof -
            from that obtain cs where cs: "visit_all visitor s' cs = Inr x" "span_bytes X f next stop (concat cs)"
              by blast
            show ?thesis
              by (rule exI [of _ "chunk # cs"])
                (use cs k span_bytes_append [OF k(3) cs(2)] False' in simp)
          qed
          then show ?thesis using ih by (cases r) auto
        qed
      qed
    qed
  qed
qed

lemma validate_record_span_Inr:
  "validate_record_span f s e = Inr n \<longleftrightarrow> s \<le> e \<and> e \<le> vl_total_decoded_record_len (mf_layout f) \<and> n = e - s"
  by (auto simp: validate_record_span_def and_then_Inr checked_sub_def)

lemma materialized_len_Inr:
  "materialized_record_span_len f s e = Inr n \<Longrightarrow>
     s \<le> e \<and> e \<le> vl_total_decoded_record_len (mf_layout f) \<and> n = e - s \<and> n \<le> materialized_record_bytes (mf_limits f)"
  by (auto simp: materialized_record_span_len_def and_then_Inr validate_record_span_Inr split: if_splits)

lemma visit_all_append:
  "visit_all (\<lambda>output chunk. Inr (output @ chunk)) s cs = Inr (s @ concat cs)"
  by (induction cs arbitrary: s) simp_all

lemma visit_record_span_keeps:
  assumes ok: "layout_ok (mf_layout f)"
  shows "keeps (records_inv X f LP) (visit_record_span X f start stop visitor s)
    (\<lambda>s'. start \<le> stop \<and> stop \<le> vl_total_decoded_record_len (mf_layout f) \<and>
       (\<exists>cs. visit_all visitor s cs = Inr s' \<and> span_bytes X f start stop (concat cs)))"
  unfolding visit_record_span_def
proof (rule runs_try)
  fix n assume "validate_record_span f start stop = Inr n"
  then have r: "start \<le> stop" "stop \<le> vl_total_decoded_record_len (mf_layout f)"
    by (simp_all add: validate_record_span_Inr)
  show "keeps (records_inv X f LP) (visit_from X f stop visitor start s)
    (\<lambda>s'. start \<le> stop \<and> stop \<le> vl_total_decoded_record_len (mf_layout f) \<and>
       (\<exists>chunks. visit_all visitor s chunks = Inr s' \<and> span_bytes X f start stop (concat chunks)))"
    by (rule runs_conseq [OF visit_from_keeps [OF ok]]) (use r in simp)
qed

lemma read_record_span_keeps:
  assumes ok: "layout_ok (mf_layout f)"
  shows "keeps (records_inv X f LP) (read_record_span X f start stop)
    (\<lambda>bs. start \<le> stop \<and> stop \<le> vl_total_decoded_record_len (mf_layout f) \<and>
       length bs \<le> materialized_record_bytes (mf_limits f) \<and> span_bytes X f start stop bs)"
  unfolding read_record_span_def
proof (rule runs_try)
  let ?R = "\<lambda>bs. start \<le> stop \<and> stop \<le> vl_total_decoded_record_len (mf_layout f) \<and>
       length bs \<le> materialized_record_bytes (mf_limits f) \<and> span_bytes X f start stop bs"
  fix n assume "materialized_record_span_len f start stop = Inr n"
  note m = materialized_len_Inr [OF this]
  show "keeps (records_inv X f LP) (oscoped n (
     otry (try_reserve_vec 1 0 n ''materialized record'') (\<lambda>_.
     visit_record_span X f start stop (\<lambda>output chunk. Inr (output @ chunk)) []))) ?R"
    by (rule runs_scoped, rule runs_try, rule runs_conseq [OF visit_record_span_keeps [OF ok]])
      (use m in \<open>auto simp: visit_all_append span_bytes_def\<close>)
qed

section \<open>The spans of the keys\<close>

definition record_answer :: "externals \<Rightarrow> mdict_file \<Rightarrow> nat \<Rightarrow> record_descriptor \<Rightarrow> bool" where
  "record_answer X f n d \<longleftrightarrow>
     (\<exists>row. key_row_at X f n row \<and> rd_key d = \<lparr>ke_ordinal = n, ke_key = row_key row\<rparr> \<and>
        rd_start d = row_record_start row) \<and>
     rd_start d \<le> rd_end d \<and> rd_end d \<le> vl_total_decoded_record_len (mf_layout f) \<and>
     (if Suc n < mf_len f then \<exists>row. key_row_at X f (Suc n) row \<and> rd_end d = row_record_start row
      else rd_end d = vl_total_decoded_record_len (mf_layout f))"

lemma record_answer_unique:
  assumes ok: "file_ok X f" and a: "record_answer X f n d" and b: "record_answer X f n d'"
  shows "d = d'"
  using a b key_row_at_unique [OF ok] unfolding record_answer_def
  by (cases d; cases d') (auto split: if_splits; metis)

definition hit_ok :: "externals \<Rightarrow> mdict_file \<Rightarrow> nat \<Rightarrow> key_block_hit \<Rightarrow> bool" where
  "hit_ok X f n h \<longleftrightarrow>
     key_block_decodes X f (kbh_block_index h) (kbh_entries h) \<and> kbh_entry_index h < length (kbh_entries h) \<and>
     n = kb_entry_start_index (vl_key_blocks (mf_layout f) ! kbh_block_index h) + kbh_entry_index h"

lemma sorted_starts:
  "sorted (map row_record_start rows) \<Longrightarrow> i \<le> j \<Longrightarrow> j < length rows \<Longrightarrow>
     row_record_start (rows ! i) \<le> row_record_start (rows ! j)"
  using sorted_nth_mono [of "map row_record_start rows" i j] by simp

text \<open>Where the record of a hit stops.\<close>

definition stops_at :: "externals \<Rightarrow> mdict_file \<Rightarrow> nat \<Rightarrow> nat \<Rightarrow> bool" where
  "stops_at X f n stop \<longleftrightarrow> stop \<le> vl_total_decoded_record_len (mf_layout f) \<and>
     (if Suc n < mf_len f then \<exists>row. key_row_at X f (Suc n) row \<and> stop = row_record_start row
      else stop = vl_total_decoded_record_len (mf_layout f))"

lemma stops_within_block:
  assumes ok: "file_ok X f" and h: "hit_ok X f n h" and j: "Suc (kbh_entry_index h) < length (kbh_entries h)"
  shows "stops_at X f n (row_record_start (kbh_entries h ! Suc (kbh_entry_index h)))"
proof -
  let ?rows = "kbh_entries h" and ?j = "Suc (kbh_entry_index h)"
  have d: "key_block_decodes X f (kbh_block_index h) ?rows" using h by (simp add: hit_ok_def)
  note kb = key_block_decodes_ok [OF ok d]
  have at: "key_row_at X f (Suc n) (?rows ! ?j)"
    unfolding key_row_at_def
    by (rule exI [of _ "kbh_block_index h"], rule exI [of _ ?j], rule exI [of _ ?rows])
      (use h j in \<open>simp add: hit_ok_def\<close>)
  have "Suc n < mf_len f"
    using tiles_end_le(2) [OF key_tiles [OF ok], of "kbh_block_index h"] kb(1,2) h j
    by (simp add: key_block_count_def hit_ok_def)
  moreover have "row_record_start (?rows ! ?j) \<le> vl_total_decoded_record_len (mf_layout f)"
    using kb(5) [of "?rows ! ?j"] j by simp
  ultimately show ?thesis using at unfolding stops_at_def by auto
qed

lemma stops_at_block_end:
  assumes ok: "file_ok X f" and h: "hit_ok X f n h" and j: "Suc (kbh_entry_index h) = length (kbh_entries h)"
  shows "Suc (kbh_block_index h) < key_block_count f \<Longrightarrow>
      key_block_decodes X f (Suc (kbh_block_index h)) rows \<Longrightarrow> stops_at X f n (row_record_start (hd rows))"
    and "Suc (kbh_block_index h) = key_block_count f \<Longrightarrow> stops_at X f n (vl_total_decoded_record_len (mf_layout f))"
proof -
  let ?i = "kbh_block_index h" and ?bs = "vl_key_blocks (mf_layout f)"
  have d: "key_block_decodes X f ?i (kbh_entries h)" using h by (simp add: hit_ok_def)
  note kb = key_block_decodes_ok [OF ok d]
  have n: "Suc n = kb_entry_start_index (?bs ! ?i) + kb_entry_count (?bs ! ?i)"
    using h j kb(2) by (simp add: hit_ok_def)
  show "stops_at X f n (vl_total_decoded_record_len (mf_layout f))" if "Suc ?i = key_block_count f"
    using tiles_last [OF key_tiles [OF ok], of ?i] that n by (simp add: stops_at_def key_block_count_def)
  assume i: "Suc ?i < key_block_count f" and d': "key_block_decodes X f (Suc ?i) rows"
  note kb' = key_block_decodes_ok [OF ok d']
  have "Suc n = kb_entry_start_index (?bs ! Suc ?i)"
    using tiles_nth_Suc [OF key_tiles [OF ok], of ?i] i n by (simp add: key_block_count_def)
  moreover have r: "hd rows = rows ! 0" "0 < length rows" using kb'(3) by (auto simp: hd_conv_nth)
  ultimately have at: "key_row_at X f (Suc n) (hd rows)"
    unfolding key_row_at_def
    by (intro exI [of _ "Suc ?i"] exI [of _ 0] exI [of _ rows]) (use d' in simp)
  then have "Suc n < mf_len f"
    using tiles_end_le(2) [OF key_tiles [OF ok], of "Suc ?i"] kb'(1,2) r \<open>Suc n = kb_entry_start_index (?bs ! Suc ?i)\<close>
    by (simp add: key_block_count_def)
  then show "stops_at X f n (row_record_start (hd rows))"
    using at kb'(5) [of "hd rows"] kb'(3) by (auto simp: stops_at_def)
qed

lemma record_descriptor_keeps:
  assumes ok: "file_ok X f" and h: "hit_ok X f n h"
  shows "keeps (keys_inv X f RP LP) (record_descriptor_from_hit X f h) (record_answer X f n)"
  unfolding record_descriptor_from_hit_def
proof (rule runs_try, rule runs_try, rule runs_try)
  let ?i = "kbh_block_index h" and ?j = "kbh_entry_index h" and ?rows = "kbh_entries h"
  let ?tot = "vl_total_decoded_record_len (mf_layout f)"
  let ?stop = "case get ?rows (?j + 1) of
          Some next \<Rightarrow> oret (row_record_start next)
        | None \<Rightarrow>
            if ?i + 1 < key_block_count f then
              obind (decode_key_block X f (?i + 1)) (\<lambda>next_block.
              olift (and_then (ok_or (get (dkb_entries next_block) 0) (InvalidFormat ''empty key block''))
                (\<lambda>r. Inr (row_record_start r))))
            else oret ?tot"
  fix block ordinal entry
  assume b: "ok_or (get (vl_key_blocks (mf_layout f)) ?i) (InvalidFormat ''key block index out of range'') = Inr block"
    and o: "ok_or (checked_add (kb_entry_start_index block) ?j) (InvalidFormat ''key ordinal overflow'') = Inr ordinal"
    and e: "ok_or (get ?rows ?j) (InvalidFormat ''key entry index out of range'') = Inr entry"
  have d: "key_block_decodes X f ?i ?rows" and j: "?j < length ?rows" using h by (simp_all add: hit_ok_def)
  note kb = key_block_decodes_ok [OF ok d]
  have ent: "entry = ?rows ! ?j" and ord: "ordinal = n"
    using b o e h by (auto simp: hit_ok_def)
  have row: "key_row_at X f n entry" using h unfolding ent key_row_at_def hit_ok_def by blast
  have stop: "keeps (keys_inv X f RP LP) ?stop (stops_at X f n)"
  proof (cases "Suc ?j < length ?rows")
    case True
    then show ?thesis using stops_within_block [OF ok h] by (auto simp: get_def intro!: runs_lift)
  next
    case False
    then have last: "Suc ?j = length ?rows" using j by simp
    show ?thesis
    proof (cases "Suc ?i < key_block_count f")
      case True
      show ?thesis
        using False True
        by (auto simp: get_def and_then_Inr hd_conv_nth split: if_splits
            dest!: stops_at_block_end(1) [OF ok h last True]
            intro!: runs_bind [OF decode_key_block_keeps] runs_lift)
    next
      case no: False
      then have "Suc ?i = key_block_count f" using kb(1) by simp
      then show ?thesis using False no stops_at_block_end(2) [OF ok h last]
        by (auto simp: get_def intro!: runs_lift)
    qed
  qed
  show "keeps (keys_inv X f RP LP) (obind ?stop (\<lambda>stop.
     if stop < row_record_start entry
     then olift (Inl (InvalidData (''record span decreases from '' @ dec (row_record_start entry) @
            '' to '' @ dec stop)))
     else oret \<lparr>rd_key = \<lparr>ke_ordinal = ordinal, ke_key = row_key entry\<rparr>,
                rd_start = row_record_start entry, rd_end = stop\<rparr>)) (record_answer X f n)"
  proof (rule runs_bind [OF stop], rule runs_if)
    fix stop
    assume "stops_at X f n stop" and "\<not> stop < row_record_start entry"
    then show "keeps (keys_inv X f RP LP) (oret \<lparr>rd_key = \<lparr>ke_ordinal = ordinal, ke_key = row_key entry\<rparr>,
                rd_start = row_record_start entry, rd_end = stop\<rparr>) (record_answer X f n)"
      using row ord by (intro runs_lift) (auto simp: record_answer_def stops_at_def)
  qed (auto intro: runs_lift)
qed

lemma record_at_ordinal_keeps:
  assumes ok: "file_ok X f"
  shows "keeps (keys_inv X f RP LP) (record_at_ordinal X f n)
    (\<lambda>r. case r of None \<Rightarrow> mf_len f \<le> n | Some d \<Rightarrow> n < mf_len f \<and> record_answer X f n d)"
  unfolding record_at_ordinal_def
proof (rule runs_bind [OF key_entry_at_ordinal_keeps [OF ok]])
  let ?R = "\<lambda>r. case r of None \<Rightarrow> mf_len f \<le> n | Some d \<Rightarrow> n < mf_len f \<and> record_answer X f n d"
  fix r :: "key_block_hit option"
  assume r: "case r of None \<Rightarrow> mf_len f \<le> n
     | Some h \<Rightarrow> n < mf_len f \<and> key_block_decodes X f (kbh_block_index h) (kbh_entries h) \<and>
         boundary_ok X f (kbh_block_index h) (kbh_entries h) \<and> kbh_entry_index h < length (kbh_entries h) \<and>
         n = kb_entry_start_index (vl_key_blocks (mf_layout f) ! kbh_block_index h) + kbh_entry_index h"
  show "keeps (keys_inv X f RP LP) (case r of None \<Rightarrow> oret None
     | Some h \<Rightarrow> obind (record_descriptor_from_hit X f h) (\<lambda>d. oret (Some d))) ?R"
  proof (cases r)
    case None
    then show ?thesis using r by (auto intro!: runs_lift)
  next
    case (Some h)
    then have h: "hit_ok X f n h" and n: "n < mf_len f" using r by (auto simp: hit_ok_def)
    show ?thesis
      unfolding Some option.case
      by (rule runs_bind [OF record_descriptor_keeps [OF ok h]]) (use n in \<open>auto intro: runs_lift\<close>)
  qed
qed

end
