(* ===== verification/Ordered_Index.thy ===== *)
theory Ordered_Index
  imports Prelude "HOL-Library.List_Lexorder" "HOL-Library.Product_Lexorder" "HOL-Library.Multiset"
begin

text \<open>
  Indexes that list the rows of a file in the order of their texts. \<open>partition_point\<close> is the
  search of the standard library on a slice, \<open>equal_range\<close> and \<open>prefix_rows\<close> are what the
  lookups do with it. The locale \<open>ordered_index\<close> states what a provider of such an index
  promises, the rows in the order of text and then of row number, and proves once that the searches
  then return exactly the rows they are meant to; \<open>Locator\<close> interprets it.
\<close>

section \<open>Searching a sorted list\<close>

text \<open>\<open>slice::partition_point\<close> on a slice whose elements satisfying \<open>p\<close> come first.\<close>

definition partition_point :: "('a \<Rightarrow> bool) \<Rightarrow> 'a list \<Rightarrow> nat" where
  "partition_point p xs = length (takeWhile p xs)"

lemma slice_partition:
  assumes "\<And>x. p x \<Longrightarrow> q x"
  shows "slice (partition_point p xs) (partition_point q xs) xs = takeWhile q (dropWhile p xs)"
proof (induction xs)
  case (Cons x xs)
  show ?case
  proof (cases "p x")
    case True
    then show ?thesis using Cons.IH assms by (simp add: partition_point_def slice_def)
  next
    case False
    then show ?thesis by (simp add: partition_point_def slice_def takeWhile_eq_take [symmetric])
  qed
qed (simp add: partition_point_def slice_def)

lemma sorted_filter_eq:
  fixes g :: "'a \<Rightarrow> 'k::linorder"
  shows "sorted (map g xs) \<Longrightarrow> takeWhile (\<lambda>x. g x \<le> v) (dropWhile (\<lambda>x. g x < v) xs) = filter (\<lambda>x. g x = v) xs"
proof (induction xs)
  case (Cons x xs)
  then have s: "\<And>y. y \<in> set xs \<Longrightarrow> g x \<le> g y" by simp
  consider "g x < v" | "g x = v" | "v < g x" by fastforce
  then show ?case
  proof cases
    case 2
    have "dropWhile (\<lambda>x. g x < v) xs = xs"
    proof (cases xs)
      case (Cons y ys)
      then have "\<not> g y < v" using s [of y] 2 by simp
      then show ?thesis using Cons by simp
    qed simp
    then show ?thesis using Cons 2 by simp
  next
    case 3
    then have "filter (\<lambda>x. g x = v) xs = []" using s by (force simp: filter_empty_conv)
    moreover have "\<not> g x < v" "\<not> g x \<le> v" "g x \<noteq> v" using 3 by auto
    ultimately show ?thesis by simp
  qed (use Cons in simp)
qed simp

lemma sorted_same_text:
  "sorted (map (\<lambda>r. (h r, r :: nat)) xs) \<Longrightarrow> (\<And>r. r \<in> set xs \<Longrightarrow> h r = q) \<Longrightarrow> sorted xs"
proof (induction xs)
  case (Cons x xs)
  have "x \<le> y" if y: "y \<in> set xs" for y
  proof -
    have "(h x, x) \<le> (h y, y)" using Cons.prems(1) y by simp
    then show ?thesis using Cons.prems(2) [of x] Cons.prems(2) [of y] y by simp
  qed
  then show ?case using Cons by simp
qed simp

section \<open>Prefixes in the lexicographic order\<close>

definition starts_with :: "'a list \<Rightarrow> 'a list \<Rightarrow> bool" where
  "starts_with p s \<longleftrightarrow> take (length p) s = p"

lemma starts_with_simps [simp]:
  "starts_with [] s" "starts_with (x # p) (y # s) \<longleftrightarrow> x = y \<and> starts_with p s" "\<not> starts_with (x # p) []"
  by (auto simp: starts_with_def)

lemma starts_with_le:
  fixes p :: "'a::linorder list"
  shows "starts_with p s \<Longrightarrow> p \<le> s"
proof (induction p arbitrary: s)
  case (Cons x p)
  then show ?case by (cases s) auto
qed simp

lemma starts_with_between:
  fixes p :: "'a::linorder list"
  shows "p \<le> s \<Longrightarrow> s \<le> t \<Longrightarrow> starts_with p t \<Longrightarrow> starts_with p s"
proof (induction p arbitrary: s t)
  case (Cons x p)
  obtain y t' where t: "t = y # t'" using Cons.prems(3) by (cases t) auto
  obtain z s' where s: "s = z # s'" using Cons.prems(1) by (cases s) auto
  have "x = y" "starts_with p t'" using Cons.prems(3) t by auto
  moreover have "x = z" "p \<le> s'" "s' \<le> t'" using Cons.prems s t \<open>x = y\<close> by auto
  ultimately show ?case using Cons.IH [of s' t'] s by simp
qed simp

lemma sorted_prefix_run:
  fixes g :: "'a \<Rightarrow> 'c::linorder list"
  shows "sorted (map g xs) \<Longrightarrow>
    takeWhile (\<lambda>x. starts_with p (g x)) (dropWhile (\<lambda>x. g x < p) xs) = filter (\<lambda>x. starts_with p (g x)) xs"
proof (induction xs)
  case (Cons x xs)
  then have s: "\<And>y. y \<in> set xs \<Longrightarrow> g x \<le> g y" and ih: "sorted (map g xs)" by auto
  show ?case
  proof (cases "g x < p")
    case True
    then have "\<not> starts_with p (g x)" using starts_with_le [of p "g x"] by auto
    then show ?thesis using Cons True by simp
  next
    case False
    then have le: "p \<le> g x" by simp
    have drop: "dropWhile (\<lambda>x. g x < p) xs = xs"
    proof (cases xs)
      case (Cons y ys)
      then have "g x \<le> g y" using s by simp
      then have "\<not> g y < p" using le by (meson le_less_trans not_less order_trans)
      then show ?thesis using Cons by simp
    qed simp
    show ?thesis
    proof (cases "starts_with p (g x)")
      case True
      then show ?thesis using Cons.IH [OF ih] False drop by simp
    next
      case no: False
      then have "filter (\<lambda>x. starts_with p (g x)) xs = []"
        using s starts_with_between [OF le] by (auto simp: filter_empty_conv)
      then show ?thesis using no False by simp
    qed
  qed
qed simp

section \<open>The interface of an ordered index\<close>

text \<open>\<open>equal_range\<close> and the walk of a prefix query, for an index that lists rows and knows
  the text of each.\<close>

definition range_of :: "(nat \<Rightarrow> 'k) \<Rightarrow> nat list \<Rightarrow> 'k::linorder \<Rightarrow> (nat \<times> nat) option" where
  "range_of row order q =
     (let start = partition_point (\<lambda>r. row r < q) order; stop = partition_point (\<lambda>r. row r \<le> q) order
      in if start < stop then Some (start, stop) else None)"

definition prefix_rows :: "(nat \<Rightarrow> 'c list) \<Rightarrow> nat list \<Rightarrow> 'c::linorder list \<Rightarrow> nat \<Rightarrow> nat list" where
  "prefix_rows row order p limit =
     take limit (takeWhile (\<lambda>r. starts_with p (row r))
       (drop (partition_point (\<lambda>r. row r < p) order) order))"

locale ordered_index =
  fixes valid :: "'i \<Rightarrow> bool" and count :: "'i \<Rightarrow> nat" and row :: "'i \<Rightarrow> nat \<Rightarrow> 'c::linorder list"
    and order :: "'i \<Rightarrow> nat list"
  assumes order_sorted: "valid i \<Longrightarrow> sorted (map (\<lambda>r. (row i r, r)) (order i))"
    and order_rows: "valid i \<Longrightarrow> mset (order i) = mset [0..<count i]"
begin

lemma texts_sorted: "valid i \<Longrightarrow> sorted (map (row i) (order i))"
  using order_sorted [of i] by (auto simp: sorted_map intro: sorted_wrt_mono_rel [rotated])

lemma order_set: "valid i \<Longrightarrow> set (order i) = {0..<count i}"
  using order_rows [of i] by (metis mset_eq_setD set_upt)

lemma equal_rows:
  assumes v: "valid i"
  shows "filter (\<lambda>r. row i r = q) (order i) = filter (\<lambda>r. row i r = q) [0..<count i]"
proof -
  let ?l = "filter (\<lambda>r. row i r = q) (order i)"
  have "sorted (map (\<lambda>r. (row i r, r)) ?l)" using order_sorted [OF v] by (rule sorted_filter)
  then have s: "sorted ?l" by (rule sorted_same_text [where q = q]) simp
  have m: "mset ?l = mset (filter (\<lambda>r. row i r = q) [0..<count i])" using order_rows [OF v] by (simp add: mset_filter)
  have "sorted (filter (\<lambda>r. row i r = q) [0..<count i])" by (simp add: sorted_wrt_filter)
  then show ?thesis using s m by (metis properties_for_sort sort_key_id_if_sorted sorted_sort_id)
qed

lemma range_of_rows:
  assumes v: "valid i"
  shows "slice (partition_point (\<lambda>r. row i r < q) (order i)) (partition_point (\<lambda>r. row i r \<le> q) (order i)) (order i) =
    filter (\<lambda>r. row i r = q) [0..<count i]"
  using slice_partition [of "\<lambda>r. row i r < q" "\<lambda>r. row i r \<le> q" "order i"]
    sorted_filter_eq [OF texts_sorted [OF v], of q] equal_rows [OF v, of q] by simp

lemma range_of_Some:
  assumes v: "valid i" and r: "range_of (row i) (order i) q = Some (a, b)"
  shows "a < b" and "b \<le> length (order i)" and "slice a b (order i) = filter (\<lambda>r. row i r = q) [0..<count i]"
    and "b - a = length (filter (\<lambda>r. row i r = q) [0..<count i])"
proof -
  show ab: "a < b" using r by (auto simp: range_of_def Let_def split: if_splits)
  show b: "b \<le> length (order i)"
    using r by (auto simp: range_of_def Let_def partition_point_def length_takeWhile_le split: if_splits)
  show s: "slice a b (order i) = filter (\<lambda>r. row i r = q) [0..<count i]"
    using r range_of_rows [OF v, of q] by (auto simp: range_of_def Let_def split: if_splits)
  from arg_cong [OF s, of length] ab b show "b - a = length (filter (\<lambda>r. row i r = q) [0..<count i])" by simp
qed

lemma range_of_None:
  assumes v: "valid i" and r: "range_of (row i) (order i) q = None" and n: "n < count i"
  shows "row i n \<noteq> q"
proof -
  have "filter (\<lambda>r. row i r = q) [0..<count i] = []"
    using r range_of_rows [OF v, of q, symmetric] by (auto simp: range_of_def Let_def slice_def split: if_splits)
  then show ?thesis using n by (auto simp: filter_empty_conv)
qed

lemma prefix_rows_eq:
  assumes v: "valid i"
  shows "prefix_rows (row i) (order i) p limit = take limit (filter (\<lambda>r. starts_with p (row i r)) (order i))"
  unfolding prefix_rows_def partition_point_def dropWhile_eq_drop [symmetric] sorted_prefix_run [OF texts_sorted [OF v]]
  by (rule refl)

end

end
