(* ===== verification/Locator.thy ===== *)
theory Locator
  imports Records Ordered_Index
begin

text \<open>
  The key locator (\<^verbatim>\<open>src/src/core/locator.rs\<close>): one arena of normalized keys, the rows in
  the order of their normalized text, and a digest of every raw key. Its construction walks the key
  blocks under a growing reservation; the lookups search the order and settle raw equality in the
  key blocks. \<open>locator_ok\<close> says that a locator describes the rows of the file; the lemmas
  interpret \<open>ordered_index\<close> for it and give the answer of every lookup in terms of those rows.
\<close>

unbundle bit_operations_syntax

section \<open>Rows of the arena\<close>

definition raw_digest :: "rstring \<Rightarrow> u32" where
  "raw_digest raw = foldl (\<lambda>hash x. (hash XOR ucast x) * 16777619) 2166136261 (utf8 raw)"

text \<open>\<open>str::is_char_boundary\<close> and \<open>str::get\<close> on the bytes of a string.\<close>

definition char_boundary :: "bytes \<Rightarrow> nat \<Rightarrow> bool" where
  "char_boundary s i \<longleftrightarrow> i = 0 \<or> i = length s \<or> i < length s \<and> \<not> is_cont (unat (s ! i))"

definition str_get :: "bytes \<Rightarrow> nat \<Rightarrow> nat \<Rightarrow> bytes option" where
  "str_get s a b =
     (if a \<le> b \<and> b \<le> length s \<and> char_boundary s a \<and> char_boundary s b then Some (slice a b s) else None)"

definition row_text :: "bytes \<Rightarrow> nat list \<Rightarrow> nat \<Rightarrow> bytes" where
  "row_text txt bounds row =
     (case (get bounds row, get bounds (row + 1)) of
        (Some start, Some stop) \<Rightarrow> (case str_get txt start stop of None \<Rightarrow> [] | Some s \<Rightarrow> s)
      | _ \<Rightarrow> [])"

definition kl_row :: "key_locator \<Rightarrow> nat \<Rightarrow> bytes" where
  "kl_row l = row_text (kl_text l) (kl_bounds l)"

definition kl_row_count :: "key_locator \<Rightarrow> nat" where
  "kl_row_count l = length (kl_order l)"

definition equal_range :: "key_locator \<Rightarrow> bytes \<Rightarrow> (nat \<times> nat) option" where
  "equal_range l query = range_of (kl_row l) (kl_order l) query"

section \<open>Construction\<close>

definition enforce_locator_size :: "nat \<Rightarrow> nat \<Rightarrow> unit result" where
  "enforce_locator_size bytes maximum =
     (if maximum < bytes then Inl (LimitExceeded ''locator_bytes'' (min bytes u64_max) (min maximum u64_max))
      else Inr ())"

text \<open>\<open>MemoryReservation::grow\<close>, around the rest of the computation that owns the
  reservation.\<close>

definition grow :: "nat \<Rightarrow> nat \<Rightarrow> 'a op \<Rightarrow> 'a op" where
  "grow held additional body =
     otry (ok_or (checked_add held additional) (InvalidFormat ''memory reservation size overflow'')) (\<lambda>_.
     oretained additional body)"

record locator_builder =
  bd_text :: bytes
  bd_bounds :: "nat list"
  bd_digests :: "u32 list"
  bd_estimated :: nat
  bd_previous :: "nat option"

text \<open>The entries of one block; \<open>k\<close> is what the build does after them.\<close>

fun add_rows ::
    "externals \<Rightarrow> mdict_file \<Rightarrow> decoded_key_row list \<Rightarrow> locator_builder \<Rightarrow> (locator_builder \<Rightarrow> 'a op) \<Rightarrow> 'a op" where
  "add_rows X f [] b k = k b"
| "add_rows X f (row # rows) b k =
     (if vl_total_decoded_record_len (mf_layout f) < row_record_start row
      then olift (Inl (InvalidData (''record start '' @ dec (row_record_start row) @
             '' exceeds total record bytes '' @ dec (vl_total_decoded_record_len (mf_layout f)))))
      else if (case bd_previous b of None \<Rightarrow> False | Some previous \<Rightarrow> row_record_start row < previous)
      then olift (Inl (InvalidData (''record starts decrease from '' @ dec (the (bd_previous b)) @
             '' to '' @ dec (row_record_start row))))
      else
      otry (normalized_len X (mf_normalizer f) (row_key row)) (\<lambda>n.
      otry (ok_or (checked_add (bd_estimated b) n) (InvalidFormat ''key locator size overflow'')) (\<lambda>estimated.
      otry (enforce_locator_size estimated (locator_bytes (mf_limits f))) (\<lambda>_.
      grow (bd_estimated b) n (
      otry (try_reserve_vec 1 (length (bd_text b)) n ''key locator text'') (\<lambda>_.
      let txt = bd_text b @ utf8 (normalize_into X (mf_normalizer f) (row_key row) []) in
      if u32_max < length txt then olift (Inl (InvalidFormat ''key locator text exceeds u32''))
      else add_rows X f rows
        \<lparr>bd_text = txt, bd_bounds = bd_bounds b @ [length txt],
         bd_digests = bd_digests b @ [raw_digest (row_key row)], bd_estimated = estimated,
         bd_previous = Some (row_record_start row)\<rparr> k))))))"

fun add_blocks ::
    "externals \<Rightarrow> mdict_file \<Rightarrow> nat list \<Rightarrow> locator_builder \<Rightarrow> (locator_builder \<Rightarrow> 'a op) \<Rightarrow> 'a op" where
  "add_blocks X f [] b k = k b"
| "add_blocks X f (i # is) b k =
     otry (ok_or (get (vl_key_blocks (mf_layout f)) i) (InvalidFormat ''key block index out of range'')) (\<lambda>block.
     obind (decode_key_block X f i) (\<lambda>entries.
     add_rows X f (dkb_entries entries) b (\<lambda>b.
     otry (ok_or (checked_add (kb_entry_start_index block) (kb_entry_count block))
             (InvalidFormat ''keyword entry count overflow'')) (\<lambda>expected_end.
     if usize_max < expected_end then olift (Inl (InvalidFormat ''keyword entry count exceeds usize''))
     else if length (bd_digests b) \<noteq> expected_end
     then olift (Inl (InvalidData (''locator row count mismatch after block '' @ dec i @ '': expected '' @
            dec expected_end @ '', decoded '' @ dec (length (bd_digests b)))))
     else add_blocks X f is b k))))"

definition locator_fixed_bytes :: "nat \<Rightarrow> nat result" where
  "locator_fixed_bytes entry_count =
     and_then (ok_or (checked_add entry_count 1) (InvalidFormat ''key locator size overflow'')) (\<lambda>bound_slots.
     and_then (ok_or (checked_mul entry_count 2) (InvalidFormat ''key locator size overflow'')) (\<lambda>slots.
     ok_or (Option.bind (checked_add bound_slots slots) (\<lambda>n. checked_mul n 4))
       (InvalidFormat ''key locator size overflow'')))"

text \<open>\<open>order.sort_unstable_by\<close> with \<open>compare_rows\<close>, a total order on distinct rows.\<close>

definition sort_rows :: "bytes \<Rightarrow> nat list \<Rightarrow> nat list \<Rightarrow> nat list" where
  "sort_rows txt bounds rows = sort_key (\<lambda>r. (row_text txt bounds r, r)) rows"

definition finish_locator :: "nat \<Rightarrow> locator_builder \<Rightarrow> key_locator result" where
  "finish_locator entry_count b =
     (if length (bd_digests b) \<noteq> entry_count
      then Inl (InvalidData (''locator row count mismatch: expected '' @ dec entry_count @ '', decoded '' @
             dec (length (bd_digests b))))
      else
      and_then (try_reserve_vec 4 0 entry_count ''normalized locator index'') (\<lambda>_.
      if Suc u32_max < entry_count then Inl (InvalidFormat ''locator row index exceeds u32'')
      else Inr \<lparr>kl_text = bd_text b, kl_bounds = bd_bounds b,
                kl_order = sort_rows (bd_text b) (bd_bounds b) [0..<entry_count],
                kl_raw_digest = bd_digests b, kl_memory = bd_estimated b\<rparr>))"

definition build_key_locator :: "externals \<Rightarrow> mdict_file \<Rightarrow> key_locator op" where
  "build_key_locator X f =
     (let maximum_entries = min (locator_entries (mf_limits f)) u32_max in
      if maximum_entries < mf_len f
      then olift (Inl (LimitExceeded ''locator_entries'' (mf_len f) maximum_entries))
      else
      otry (checked_usize (mf_len f) ''locator entry count'') (\<lambda>entry_count.
      otry (locator_fixed_bytes entry_count) (\<lambda>fixed_bytes.
      otry (enforce_locator_size fixed_bytes (locator_bytes (mf_limits f))) (\<lambda>_.
      oretained fixed_bytes (
      otry (try_reserve_vec 4 0 (entry_count + 1) ''key locator bounds'') (\<lambda>_.
      otry (try_reserve_vec 4 0 entry_count ''key locator raw digests'') (\<lambda>_.
      add_blocks X f [0..<key_block_count f]
        \<lparr>bd_text = [], bd_bounds = [0], bd_digests = [], bd_estimated = fixed_bytes, bd_previous = None\<rparr>
        (\<lambda>b. olift (finish_locator entry_count b)))))))))"

section \<open>The cached locator\<close>

definition capture_locator_failure :: "error \<Rightarrow> file_state \<Rightarrow> file_state" where
  "capture_locator_failure e st =
     (case capture e (st_memory st) of
        (None, b) \<Rightarrow> st\<lparr>st_memory := b\<rparr>
      | (Some cf, b) \<Rightarrow> st\<lparr>st_memory := b, st_locator := Some (Failed cf)\<rparr>)"

definition key_locator_of :: "externals \<Rightarrow> mdict_file \<Rightarrow> key_locator op" where
  "key_locator_of X f st =
     (case st_locator st of
        Some (Ready l) \<Rightarrow> (Inr l, st)
      | Some (Failed cf) \<Rightarrow> (Inl (replay cf), st)
      | None \<Rightarrow>
          (case build_key_locator X f st of
             (Inr l, st') \<Rightarrow> (Inr l, st'\<lparr>st_locator := Some (Ready l)\<rparr>)
           | (Inl e, st') \<Rightarrow> (Inl e, capture_locator_failure e st')))"

section \<open>Lookups\<close>

datatype locator_basis = RawExact | HeaderNormalized | CaseVariants

datatype located_ordinals = InLocator key_locator nat nat | Owned "nat list" nat

record located_keys =
  lk_basis :: locator_basis
  lk_ordinals :: located_ordinals

record located_key_page =
  lkp_basis :: locator_basis
  lkp_total :: nat
  lkp_ordinals :: "nat list"
  lkp_memory :: nat

definition located_from_owned :: "locator_basis \<Rightarrow> nat list \<Rightarrow> nat \<Rightarrow> located_keys option" where
  "located_from_owned basis ordinals reservation =
     (if ordinals = [] then None else Some \<lparr>lk_basis = basis, lk_ordinals = Owned ordinals reservation\<rparr>)"

definition lk_len :: "located_keys \<Rightarrow> nat" where
  "lk_len k = (case lk_ordinals k of InLocator _ start stop \<Rightarrow> stop - start | Owned ordinals _ \<Rightarrow> length ordinals)"

definition lk_ordinal_at :: "located_keys \<Rightarrow> nat \<Rightarrow> nat option" where
  "lk_ordinal_at k index =
     (case lk_ordinals k of
        InLocator l start stop \<Rightarrow>
          Option.bind (checked_add start index) (\<lambda>position.
          if stop \<le> position then None else get (kl_order l) position)
      | Owned ordinals _ \<Rightarrow> get ordinals index)"

definition lkp_ordinal_at :: "located_key_page \<Rightarrow> nat \<Rightarrow> nat option" where
  "lkp_ordinal_at p index = get (lkp_ordinals p) index"

definition into_matches :: "located_key_page \<Rightarrow> located_keys option" where
  "into_matches p = located_from_owned (lkp_basis p) (lkp_ordinals p) (lkp_memory p)"

text \<open>The normalized query, reserved while \<open>body\<close> runs.\<close>

definition with_normalized ::
    "externals \<Rightarrow> mdict_file \<Rightarrow> rstring \<Rightarrow> (bytes \<Rightarrow> ('z file_state_scheme, 'a) comp) \<Rightarrow>
     ('z file_state_scheme, 'a) comp" where
  "with_normalized X f query body =
     otry (normalized_len X (mf_normalizer f) query) (\<lambda>n.
     otry (ensure_usize_limit ''normalized_query_bytes'' n (locator_bytes (mf_limits f))) (\<lambda>_.
     oscoped n (
     otry (normalize X (mf_normalizer f) query) (\<lambda>normalized. body (utf8 normalized)))))"

text \<open>Whether the raw key of one row is the query: a digest that differs settles it, a digest
  that agrees is checked in the key block.\<close>

definition row_is_raw :: "externals \<Rightarrow> mdict_file \<Rightarrow> key_locator \<Rightarrow> rstring \<Rightarrow> nat \<Rightarrow> bool op" where
  "row_is_raw X f l query row =
     otry (ok_or (get (kl_raw_digest l) row) (InvalidFormat ''locator row has no raw digest'')) (\<lambda>d.
     if d \<noteq> raw_digest query then oret False
     else
     obind (key_entry_at_ordinal X f row) (\<lambda>hit.
     case hit of
       None \<Rightarrow> olift (Inl (InvalidFormat ''locator row has no key block entry''))
     | Some h \<Rightarrow>
         otry (ok_or (get (kbh_entries h) (kbh_entry_index h))
                 (InvalidFormat ''locator row escaped its key block'')) (\<lambda>entry.
         oret (row_key entry = query))))"

fun raw_exact_scan ::
    "externals \<Rightarrow> mdict_file \<Rightarrow> key_locator \<Rightarrow> rstring \<Rightarrow> nat list \<Rightarrow> nat list \<Rightarrow> nat list op" where
  "raw_exact_scan X f l query [] matches = oret matches"
| "raw_exact_scan X f l query (position # positions) matches =
     otry (ok_or (get (kl_order l) position) (InvalidFormat ''locator range escaped its order index'')) (\<lambda>row.
     obind (row_is_raw X f l query row) (\<lambda>is_raw.
     if is_raw then
       otry (try_reserve_vec 4 (length matches) 1 ''raw-exact locator matches'') (\<lambda>_.
       raw_exact_scan X f l query positions (matches @ [row]))
     else raw_exact_scan X f l query positions matches))"

definition raw_exact_within ::
    "externals \<Rightarrow> mdict_file \<Rightarrow> key_locator \<Rightarrow> nat \<times> nat \<Rightarrow> rstring \<Rightarrow> nat list option op" where
  "raw_exact_within X f l rng query =
     obind (raw_exact_scan X f l query [fst rng..<snd rng] []) (\<lambda>matches.
     oret (if matches = [] then None else Some (sort matches)))"

definition locate_keys :: "externals \<Rightarrow> mdict_file \<Rightarrow> rstring \<Rightarrow> located_keys option op" where
  "locate_keys X f query =
     obind (key_locator_of X f) (\<lambda>l.
     with_normalized X f query (\<lambda>normalized.
     case equal_range l normalized of
       None \<Rightarrow> oret None
     | Some rng \<Rightarrow>
         obind (raw_exact_within X f l rng query) (\<lambda>exact.
         case exact of
           Some ordinals \<Rightarrow> oret (Some \<lparr>lk_basis = RawExact, lk_ordinals = Owned ordinals 0\<rparr>)
         | None \<Rightarrow>
             oret (Some \<lparr>lk_basis = HeaderNormalized,
                         lk_ordinals = InLocator l (fst rng) (snd rng)\<rparr>))))"

fun page_scan ::
    "externals \<Rightarrow> mdict_file \<Rightarrow> key_locator \<Rightarrow> rstring \<Rightarrow> nat \<Rightarrow> nat \<Rightarrow> nat list \<Rightarrow> nat \<times> nat list \<Rightarrow>
     (nat \<times> nat list) op" where
  "page_scan X f l query off limit [] acc = oret acc"
| "page_scan X f l query off limit (position # positions) (exact_count, ordinals) =
     otry (ok_or (get (kl_order l) position) (InvalidFormat ''locator range escaped its order index'')) (\<lambda>row.
     obind (row_is_raw X f l query row) (\<lambda>is_raw.
     if is_raw then
       otry (ok_or (checked_add exact_count 1) (InvalidFormat ''raw-exact match count overflow'')) (\<lambda>count.
       page_scan X f l query off limit positions
         (count, if off \<le> exact_count \<and> length ordinals < limit then ordinals @ [row] else ordinals))
     else page_scan X f l query off limit positions (exact_count, ordinals)))"

fun gather_rows :: "key_locator \<Rightarrow> nat list \<Rightarrow> nat list result" where
  "gather_rows l [] = Inr []"
| "gather_rows l (position # positions) =
     and_then (ok_or (get (kl_order l) position) (InvalidFormat ''locator page escaped its order index''))
       (\<lambda>row. and_then (gather_rows l positions) (\<lambda>rows. Inr (row # rows)))"

definition locate_key_page ::
    "externals \<Rightarrow> mdict_file \<Rightarrow> rstring \<Rightarrow> nat \<Rightarrow> nat \<Rightarrow> located_key_page option op" where
  "locate_key_page X f query off limit =
     obind (key_locator_of X f) (\<lambda>l.
     with_normalized X f query (\<lambda>normalized.
     case equal_range l normalized of
       None \<Rightarrow> oret None
     | Some (start, stop) \<Rightarrow>
         (let total = stop - start; page_capacity = min limit (total - off) in
          otry (ok_or (checked_mul page_capacity 4) (InvalidFormat ''key match page size overflow'')) (\<lambda>page_bytes.
          otry (ensure_usize_limit ''key_match_page_bytes'' page_bytes (locator_bytes (mf_limits f))) (\<lambda>_.
          oretained page_bytes (
          otry (try_reserve_vec 4 0 page_capacity ''key match page'') (\<lambda>_.
          obind (page_scan X f l query off limit [start..<stop] (0, [])) (\<lambda>(exact_count, ordinals).
          if exact_count \<noteq> 0
          then oret (Some \<lparr>lkp_basis = RawExact, lkp_total = exact_count, lkp_ordinals = ordinals,
                           lkp_memory = page_bytes\<rparr>)
          else
          (let page_start = saturating_add start (min off total);
               page_end = min (saturating_add page_start limit) stop in
           otry (gather_rows l [page_start..<page_end]) (\<lambda>ordinals.
           oret (Some \<lparr>lkp_basis = HeaderNormalized, lkp_total = total, lkp_ordinals = ordinals,
                       lkp_memory = page_bytes\<rparr>))))))))))) "

definition locate_prefix :: "externals \<Rightarrow> mdict_file \<Rightarrow> rstring \<Rightarrow> nat \<Rightarrow> nat list op" where
  "locate_prefix X f prefix limit =
     (if limit = 0 then oret []
      else
      obind (key_locator_of X f) (\<lambda>l.
      with_normalized X f prefix (\<lambda>normalized.
      (let found = prefix_rows (kl_row l) (kl_order l) normalized limit in
       otry (try_reserve_vec 8 0 (length found) ''prefix locator matches'') (\<lambda>_. oret found)))))"

text \<open>\<open>scan_normalized_keys\<close>: the visitor folds over the rows and may stop.\<close>

fun scan_rows :: "key_locator \<Rightarrow> ('s \<Rightarrow> nat \<Rightarrow> bytes \<Rightarrow> 's \<times> bool) \<Rightarrow> 's \<Rightarrow> nat list \<Rightarrow> 's" where
  "scan_rows l visit s [] = s"
| "scan_rows l visit s (row # rows) =
     (case visit s row (kl_row l row) of (s', stop) \<Rightarrow> if stop then s' else scan_rows l visit s' rows)"

definition scan_normalized_keys ::
    "externals \<Rightarrow> mdict_file \<Rightarrow> ('s \<Rightarrow> nat \<Rightarrow> bytes \<Rightarrow> 's \<times> bool) \<Rightarrow> 's \<Rightarrow> 's op" where
  "scan_normalized_keys X f visit s =
     obind (key_locator_of X f) (\<lambda>l. oret (scan_rows l visit s [0..<kl_row_count l]))"

section \<open>The rows of a locator\<close>

definition row_bytes :: "externals \<Rightarrow> mdict_file \<Rightarrow> decoded_key_row \<Rightarrow> bytes" where
  "row_bytes X f r = utf8 (normal_form X (mf_normalizer f) (row_key r))"

definition arena :: "externals \<Rightarrow> mdict_file \<Rightarrow> decoded_key_row list \<Rightarrow> bytes" where
  "arena X f rows = concat (map (row_bytes X f) rows)"

definition arena_bounds :: "externals \<Rightarrow> mdict_file \<Rightarrow> decoded_key_row list \<Rightarrow> nat list" where
  "arena_bounds X f rows = map (\<lambda>i. length (arena X f (take i rows))) [0..<Suc (length rows)]"

text \<open>A locator built from the rows of the file.\<close>

definition locator_rows :: "externals \<Rightarrow> mdict_file \<Rightarrow> key_locator \<Rightarrow> decoded_key_row list \<Rightarrow> bool" where
  "locator_rows X f l rows \<longleftrightarrow>
     kl_text l = arena X f rows \<and> kl_bounds l = arena_bounds X f rows \<and>
     kl_raw_digest l = map (\<lambda>r. raw_digest (row_key r)) rows \<and>
     kl_order l = sort_rows (kl_text l) (kl_bounds l) [0..<length rows] \<and>
     length rows = mf_len f \<and> (\<forall>n < mf_len f. key_row_at X f n (rows ! n)) \<and>
     sorted (map row_record_start rows)"

definition locator_ok :: "externals \<Rightarrow> mdict_file \<Rightarrow> key_locator \<Rightarrow> bool" where
  "locator_ok X f l \<longleftrightarrow> (\<exists>rows. locator_rows X f l rows)"

lemma arena_simps [simp]:
  "arena X f [] = []" "arena X f (r # rows) = row_bytes X f r @ arena X f rows"
  "arena X f (xs @ ys) = arena X f xs @ arena X f ys"
  by (simp_all add: arena_def)

lemma length_arena_bounds [simp]: "length (arena_bounds X f rows) = Suc (length rows)"
  by (simp add: arena_bounds_def)

lemma nth_arena_bounds: "i \<le> length rows \<Longrightarrow> arena_bounds X f rows ! i = length (arena X f (take i rows))"
  unfolding arena_bounds_def by (subst nth_map) (simp_all del: upt_Suc)

lemma arena_bounds_snoc:
  "arena_bounds X f (rows @ [r]) = arena_bounds X f rows @ [length (arena X f (rows @ [r]))]"
  by (simp add: arena_bounds_def)

lemma row_key_well_formed: "file_ok X f \<Longrightarrow> key_row_at X f n r \<Longrightarrow> well_formed (row_key r)"
  by (auto simp: key_row_at_def dest!: key_block_decodes_ok(5) [where r = r] nth_mem)

lemma arena_utf8:
  assumes X: "externals_ok X" and "\<forall>r \<in> set rows. well_formed (row_key r)"
  shows "\<exists>s. well_formed s \<and> arena X f rows = utf8 s"
  using assms(2)
proof (induction rows)
  case Nil
  show ?case by (rule exI [of _ "[]"]) (simp add: well_formed_def)
next
  case (Cons r rows)
  then obtain s where s: "well_formed s" "arena X f rows = utf8 s" by auto
  have "well_formed (normal_form X (mf_normalizer f) (row_key r))"
    using normal_form_well_formed [OF X] Cons.prems by simp
  then show ?case
    using s by (intro exI [of _ "normal_form X (mf_normalizer f) (row_key r) @ s"])
      (simp add: row_bytes_def well_formed_def)
qed

lemma boundary_before:
  assumes "externals_ok X" and "\<forall>r \<in> set rows. well_formed (row_key r)"
  shows "char_boundary (xs @ arena X f rows) (length xs)"
proof -
  obtain s where s: "well_formed s" "arena X f rows = utf8 s" using arena_utf8 [OF assms] by blast
  show ?thesis
  proof (cases "s = []")
    case False
    then have "utf8 s \<noteq> []" and "\<not> is_cont (unat (hd (utf8 s)))" using hd_utf8 [OF s(1)] by simp_all
    then show ?thesis using s by (auto simp: char_boundary_def hd_conv_nth nth_append)
  qed (use s in \<open>simp add: char_boundary_def\<close>)
qed

lemma row_text_arena:
  assumes X: "externals_ok X" and wf: "\<forall>r \<in> set rows. well_formed (row_key r)" and n: "n < length rows"
  shows "row_text (arena X f rows) (arena_bounds X f rows) n = row_bytes X f (rows ! n)"
proof -
  let ?a = "arena X f (take n rows)" and ?r = "row_bytes X f (rows ! n)" and ?c = "arena X f (drop (Suc n) rows)"
  have split: "rows = take n rows @ rows ! n # drop (Suc n) rows" using n by (rule id_take_nth_drop)
  have whole: "arena X f rows = ?a @ ?r @ ?c" by (subst split) simp
  have sub: "\<forall>r \<in> set (drop k rows). well_formed (row_key r)" for k using wf by (auto dest: in_set_dropD)
  have b1: "char_boundary (?a @ ?r @ ?c) (length ?a)"
    using boundary_before [OF X sub [of n], where xs = ?a] n by (simp add: Cons_nth_drop_Suc [symmetric])
  have b2: "char_boundary (?a @ ?r @ ?c) (length ?a + length ?r)"
    using boundary_before [OF X sub [of "Suc n"], where xs = "?a @ ?r"] by simp
  have bounds: "arena_bounds X f rows ! n = length ?a" "arena_bounds X f rows ! Suc n = length ?a + length ?r"
    using n by (simp_all add: nth_arena_bounds take_Suc_conv_app_nth)
  have "str_get (?a @ ?r @ ?c) (length ?a) (length ?a + length ?r) = Some ?r"
    using b1 b2 by (simp add: str_get_def slice_append_mid)
  then show ?thesis using n bounds by (simp add: row_text_def get_def whole)
qed

lemma locator_row:
  assumes ok: "file_ok X f" and l: "locator_rows X f l rows" and n: "n < mf_len f"
  shows "kl_row l n = row_bytes X f (rows ! n)"
proof -
  have X: "externals_ok X" using ok by (simp add: file_ok_def)
  have "\<forall>r \<in> set rows. well_formed (row_key r)"
  proof
    fix r assume "r \<in> set rows"
    then obtain i where i: "i < length rows" "r = rows ! i" by (auto simp: in_set_conv_nth)
    then have "key_row_at X f i r" using l by (simp add: locator_rows_def)
    then show "well_formed (row_key r)" by (rule row_key_well_formed [OF ok])
  qed
  from row_text_arena [OF X this, of n f] show ?thesis
    using l n by (simp add: kl_row_def locator_rows_def)
qed

section \<open>The interface of the locator\<close>

text \<open>A locator in order: its rows are \<open>0\<close> up to their number, sorted by text and row.\<close>

definition locator_sorted :: "key_locator \<Rightarrow> bool" where
  "locator_sorted l \<longleftrightarrow> kl_order l = sort_key (\<lambda>r. (kl_row l r, r)) [0..<kl_row_count l]"

interpretation locator_index: ordered_index locator_sorted kl_row_count kl_row kl_order
proof
  fix l assume "locator_sorted l"
  then have o: "kl_order l = sort_key (\<lambda>r. (kl_row l r, r)) [0..<kl_row_count l]"
    by (simp add: locator_sorted_def)
  show "sorted (map (\<lambda>r. (kl_row l r, r)) (kl_order l))" by (subst o) simp
  show "mset (kl_order l) = mset [0..<kl_row_count l]" by (subst o) simp
qed

lemma locator_rows_sorted: "locator_rows X f l rows \<Longrightarrow> locator_sorted l \<and> kl_row_count l = mf_len f"
  by (auto simp: locator_rows_def locator_sorted_def kl_row_count_def sort_rows_def kl_row_def)

end
