(* ===== verification/Opening.thy ===== *)
theory Opening
  imports Records
begin

text \<open>
  What opening a file establishes (\<open>MdictFile::open\<close>, \<^verbatim>\<open>src/src/core/mod.rs\<close>): the
  layout every later method relies on, a budget charged with the metadata only, and empty caches;
  and what \<open>memory_usage\<close> reports in any state that satisfies the invariant.
\<close>

lemma open_layout_ok:
  assumes "returns (open_layout X src kind opts) l"
  shows "layout_ok l" and "vl_wire l \<in> {v1_decode_key_rows, v2_decode_key_rows}"
    and "layout_in_file 4 src (opt_limits opts) l \<or> layout_in_file 8 src (opt_limits opts) l"
    and "b \<in> set (vl_key_blocks l) \<Longrightarrow> 0 < kb_entry_count b"
proof -
  from open_layout_run [OF assms] obtain hs v
    where hs: "returns (parse_header X src kind (opt_limits opts) (opt_checksum_policy opts)) hs"
    and l: "returns (case v of V1 \<Rightarrow> v1_parse_layout X src hs kind opts | V2 \<Rightarrow> v2_parse_layout X src hs kind opts) l"
    and ver: "verify l = Inr ()" by metis
  have sec: "hs_section hs = section_range_new 0 (hs_keyword_section_offset hs)"
    using parse_header_ok [OF hs] by (simp add: header_section_ok_def)
  show "layout_ok l" using ver by (simp add: verify_iff)
  have either: "(layout_in_file 4 src (opt_limits opts) l \<and> vl_wire l = v1_decode_key_rows) \<or>
      (layout_in_file 8 src (opt_limits opts) l \<and> vl_wire l = v2_decode_key_rows)"
    using l v1_parse_layout_ok(2,3) [OF _ sec] v2_parse_layout_ok(2,3) [OF _ sec] by (cases v) auto
  then show "vl_wire l \<in> {v1_decode_key_rows, v2_decode_key_rows}"
    and "layout_in_file 4 src (opt_limits opts) l \<or> layout_in_file 8 src (opt_limits opts) l" by auto
  show "b \<in> set (vl_key_blocks l) \<Longrightarrow> 0 < kb_entry_count b"
    using either by (auto simp: layout_in_file_def key_block_in_limits_def)
qed

lemma mdict_open_run:
  assumes "mdict_open X content kind opts = Inr (f, st)"
  obtains src l b where "source_of_file content = Inr src"
    and "open_layout X src kind opts (budget_new (working_memory_bytes (opt_limits opts))) = (Inr l, b)"
    and "f = \<lparr>mf_kind = kind, mf_source = src, mf_layout = l, mf_normalizer = from_header (vl_header l) kind,
              mf_limits = opt_limits opts, mf_checksum_policy = opt_checksum_policy opts\<rparr>"
    and "st = \<lparr>st_memory = b, st_key_cache = None, st_record_cache = None, st_locator = None\<rparr>"
proof -
  let ?m = "\<lambda>src. open_layout X src kind opts (budget_new (working_memory_bytes (opt_limits opts)))"
  obtain src where src: "source_of_file content = Inr src"
    using assms by (auto simp: mdict_open_def and_then_Inr)
  obtain r b where m: "?m src = (r, b)" by (cases "?m src")
  show ?thesis
    using assms src m by (cases r) (auto simp: mdict_open_def intro!: that [OF src])
qed

lemma mdict_open_ok:
  assumes run: "mdict_open X content kind opts = Inr (f, st)" and X: "externals_ok X"
    and lim: "working_memory_bytes (opt_limits opts) \<le> u64_max"
  shows "file_ok X f" and "LP None \<Longrightarrow> records_inv X f LP (layout_bytes (mf_layout f)) st"
    and "mb_max (st_memory st) = working_memory_bytes (opt_limits opts)"
proof -
  let ?b0 = "budget_new (working_memory_bytes (opt_limits opts))"
  from mdict_open_run [OF run] obtain src l b
    where ol: "open_layout X src kind opts ?b0 = (Inr l, b)"
    and f: "f = \<lparr>mf_kind = kind, mf_source = src, mf_layout = l, mf_normalizer = from_header (vl_header l) kind,
              mf_limits = opt_limits opts, mf_checksum_policy = opt_checksum_policy opts\<rparr>"
    and st: "st = \<lparr>st_memory = b, st_key_cache = None, st_record_cache = None, st_locator = None\<rparr>"
    by metis
  have "returns (open_layout X src kind opts) l" using ol by (rule returnsI)
  note lo = open_layout_ok [OF this]
  show "file_ok X f" using lo X by (auto simp: file_ok_def f)
  have b0: "budget_ok ?b0" using lim by (simp add: budget_ok_def budget_new_def)
  note a = accountsD [OF accounts_open_layout b0 ol]
  have used: "mb_used ?b0 = 0" and mx: "mb_max ?b0 = working_memory_bytes (opt_limits opts)"
    by (simp_all add: budget_new_def)
  show "LP None \<Longrightarrow> records_inv X f LP (layout_bytes (mf_layout f)) st"
    using a used mx
    by (simp add: f st file_inv_def state_bytes_def slot_bytes_def locator_slot_bytes_def key_cache_ok_def
        record_cache_ok_def)
  show "mb_max (st_memory st) = working_memory_bytes (opt_limits opts)" using a mx by (simp add: st)
qed

text \<open>The bytes a state holds for failures it remembers.\<close>

definition failure_bytes :: "file_state \<Rightarrow> nat" where
  "failure_bytes st =
     (case st_key_cache st of Some (_, Failed cf) \<Rightarrow> cf_memory cf | _ \<Rightarrow> 0) +
     (case st_record_cache st of Some (_, Failed cf) \<Rightarrow> cf_memory cf | _ \<Rightarrow> 0) +
     (case st_locator st of Some (Failed cf) \<Rightarrow> cf_memory cf | _ \<Rightarrow> 0)"

text \<open>\<open>held\<close> is what is reserved besides the metadata and the caches: matches that a client keeps, an
  open key index, the block of an iterator. No category of the report shows it.\<close>

lemma memory_usage_adds_up:
  assumes "file_inv E M KP RP LP (layout_bytes (mf_layout f) + held) st" and "memory_usage f st = Inr mu"
  shows "mu_current_bytes mu = mu_metadata_bytes mu + mu_locator_bytes mu + mu_key_cache_bytes mu +
    mu_record_cache_bytes mu + failure_bytes st + held"
    and "mu_current_bytes mu \<le> mu_peak_bytes mu" and "mu_peak_bytes mu \<le> M"
  using assms
  by (auto simp: memory_usage_def and_then_Inr file_inv_def metadata_bytes_def layout_bytes_def state_bytes_def
      slot_bytes_def locator_slot_bytes_def failure_bytes_def bind_eq_Some_conv budget_ok_def
      split: option.splits cached.splits)

end
