(* ===== verification/Locator_Build.thy ===== *)
theory Locator_Build
  imports Locator Opening
begin

text \<open>
  The construction of the key locator. \<open>builder_ok\<close> says what the loop has built after some
  rows; the lemmas carry it through the entries and the blocks, with the reservation growing by
  exactly the normalized text, so a finished locator describes every row of the file and owns the
  bytes it reports.
\<close>

definition builder_ok ::
    "externals \<Rightarrow> mdict_file \<Rightarrow> nat \<Rightarrow> decoded_key_row list \<Rightarrow> locator_builder \<Rightarrow> bool" where
  "builder_ok X f fixed rows b \<longleftrightarrow>
     bd_text b = arena X f rows \<and> bd_bounds b = arena_bounds X f rows \<and>
     bd_digests b = map (\<lambda>r. raw_digest (row_key r)) rows \<and>
     bd_estimated b = fixed + length (arena X f rows) \<and>
     bd_previous b = (if rows = [] then None else Some (row_record_start (last rows))) \<and>
     sorted (map row_record_start rows)"

lemma builder_ok_empty:
  "builder_ok X f fixed []
     \<lparr>bd_text = [], bd_bounds = [0], bd_digests = [], bd_estimated = fixed, bd_previous = None\<rparr>"
  by (simp add: builder_ok_def arena_bounds_def)

lemma sorted_snoc_last:
  "sorted (map g xs) \<Longrightarrow> (xs \<noteq> [] \<Longrightarrow> g (last xs) \<le> g x) \<Longrightarrow> sorted (map g (xs @ [x :: 'a]))"
  by (cases xs rule: rev_cases) (auto simp: sorted_append intro: order_trans)

lemma builder_ok_step:
  assumes b: "builder_ok X f fixed rows b" and n: "normalized_len X (mf_normalizer f) (row_key r) = Inr n"
    and p: "\<not> (case bd_previous b of None \<Rightarrow> False | Some previous \<Rightarrow> row_record_start r < previous)"
  shows "builder_ok X f fixed (rows @ [r])
    (let txt = bd_text b @ utf8 (normalize_into X (mf_normalizer f) (row_key r) []) in
       \<lparr>bd_text = txt, bd_bounds = bd_bounds b @ [length txt],
        bd_digests = bd_digests b @ [raw_digest (row_key r)], bd_estimated = bd_estimated b + n,
        bd_previous = Some (row_record_start r)\<rparr>)"
proof -
  have r: "utf8 (normalize_into X (mf_normalizer f) (row_key r) []) = row_bytes X f r"
    by (simp add: normalize_into_def row_bytes_def normal_form_def)
  have len: "n = length (row_bytes X f r)" using n by (simp add: normalized_len_Inr row_bytes_def str_len_def)
  have "sorted (map row_record_start (rows @ [r]))"
    by (rule sorted_snoc_last) (use b p in \<open>auto simp: builder_ok_def\<close>)
  then show ?thesis using b len by (simp add: builder_ok_def r arena_bounds_snoc)
qed

text \<open>\<open>grows\<close>: a computation of the locator that owns the rest of its bytes.\<close>

definition grows ::
    "(nat \<Rightarrow> file_state \<Rightarrow> bool) \<Rightarrow> nat \<Rightarrow> key_locator op \<Rightarrow> (key_locator \<Rightarrow> bool) \<Rightarrow> bool" where
  "grows I held m Q \<longleftrightarrow> runs I (\<lambda>l. kl_memory l - held) m (\<lambda>l. Q l \<and> held \<le> kl_memory l)"

lemma grows_fail: "grows I held (olift (Inl e)) Q"
  by (simp add: grows_def runs_fail)

lemma grows_if: "(c \<Longrightarrow> grows I held m Q) \<Longrightarrow> (\<not> c \<Longrightarrow> grows I held n Q) \<Longrightarrow> grows I held (if c then m else n) Q"
  by simp

lemma grows_try: "(\<And>x. r = Inr x \<Longrightarrow> grows I held (f x) Q) \<Longrightarrow> grows I held (otry r f) Q"
  unfolding grows_def by (rule runs_try)

lemma grows_bind:
  "keeps I m P \<Longrightarrow> (\<And>x. P x \<Longrightarrow> grows I held (f x) Q) \<Longrightarrow> grows I held (obind m f) Q"
  unfolding grows_def by (rule runs_bind)

lemma grows_grow:
  assumes "grows (file_inv E M KP RP LP) (held + n) body Q"
  shows "grows (file_inv E M KP RP LP) held (grow held n body) Q"
  unfolding grow_def
proof (rule grows_try)
  show "grows (file_inv E M KP RP LP) held (oretained n body) Q"
    unfolding grows_def
    by (rule runs_conseq [OF runs_retained [OF assms [unfolded grows_def]]]) auto
qed

lemma add_rows_grows:
  assumes "builder_ok X f fixed before b"
    and "\<And>b'. builder_ok X f fixed (before @ rows) b' \<Longrightarrow> grows (file_inv E M KP RP LP) (bd_estimated b') (k b') Q"
  shows "grows (file_inv E M KP RP LP) (bd_estimated b) (add_rows X f rows b k) Q"
  using assms
proof (induction rows arbitrary: before b)
  case Nil
  then show ?case by simp
next
  case (Cons r rows)
  show ?case
    unfolding add_rows.simps Let_def
  proof (intro grows_if grows_fail grows_try)
    fix n estimated u v
    assume p: "\<not> (case bd_previous b of None \<Rightarrow> False | Some previous \<Rightarrow> row_record_start r < previous)"
      and n: "normalized_len X (mf_normalizer f) (row_key r) = Inr n"
      and e: "ok_or (checked_add (bd_estimated b) n) (InvalidFormat ''key locator size overflow'') = Inr estimated"
    have est: "estimated = bd_estimated b + n" using e by simp
    note step = builder_ok_step [OF Cons.prems(1) n p, unfolded Let_def]
    show "grows (file_inv E M KP RP LP) (bd_estimated b) (grow (bd_estimated b) n (
      otry (try_reserve_vec 1 (length (bd_text b)) n ''key locator text'') (\<lambda>_.
      if u32_max < length (bd_text b @ utf8 (normalize_into X (mf_normalizer f) (row_key r) []))
      then olift (Inl (InvalidFormat ''key locator text exceeds u32''))
      else add_rows X f rows
        \<lparr>bd_text = bd_text b @ utf8 (normalize_into X (mf_normalizer f) (row_key r) []),
         bd_bounds = bd_bounds b @ [length (bd_text b @ utf8 (normalize_into X (mf_normalizer f) (row_key r) []))],
         bd_digests = bd_digests b @ [raw_digest (row_key r)], bd_estimated = estimated,
         bd_previous = Some (row_record_start r)\<rparr> k))) Q"
      unfolding est
    proof (rule grows_grow, rule grows_try, rule grows_if, rule grows_fail)
      show "grows (file_inv E M KP RP LP) (bd_estimated b + n) (add_rows X f rows
        \<lparr>bd_text = bd_text b @ utf8 (normalize_into X (mf_normalizer f) (row_key r) []),
         bd_bounds = bd_bounds b @ [length (bd_text b @ utf8 (normalize_into X (mf_normalizer f) (row_key r) []))],
         bd_digests = bd_digests b @ [raw_digest (row_key r)], bd_estimated = bd_estimated b + n,
         bd_previous = Some (row_record_start r)\<rparr> k) Q"
        using Cons.IH [OF step] Cons.prems(2) by simp
    qed
  qed
qed

text \<open>Blocks decoded so far: block \<open>i\<close> of the list is block \<open>i\<close> of the file.\<close>

definition blocks_decode :: "externals \<Rightarrow> mdict_file \<Rightarrow> decoded_key_row list list \<Rightarrow> bool" where
  "blocks_decode X f blocks \<longleftrightarrow> (\<forall>i < length blocks. key_block_decodes X f i (blocks ! i))"

lemma add_blocks_grows:
  assumes "builder_ok X f fixed (concat blocks) b" and "blocks_decode X f blocks"
    and "length blocks + n = key_block_count f"
    and "\<And>b' blocks'. builder_ok X f fixed (concat blocks') b' \<Longrightarrow> file_rows X f blocks' \<Longrightarrow>
      grows (keys_inv X f RP LP) (bd_estimated b') (k b') Q"
  shows "grows (keys_inv X f RP LP) (bd_estimated b)
    (add_blocks X f [length blocks..<length blocks + n] b k) Q"
  using assms
proof (induction n arbitrary: blocks b)
  case 0
  then have "file_rows X f blocks" by (auto simp: file_rows_def blocks_decode_def)
  then show ?case using 0 by simp
next
  case (Suc n)
  have upt: "[length blocks..<length blocks + Suc n] = length blocks # [Suc (length blocks)..<Suc (length blocks) + n]"
    by (simp add: upt_conv_Cons)
  show ?case
    unfolding upt add_blocks.simps
  proof (rule grows_try, rule grows_bind [OF decode_key_block_keeps])
    fix block e
    assume e: "key_block_decodes X f (length blocks) (dkb_entries e) \<and> boundary_ok X f (length blocks) (dkb_entries e)"
    have d: "blocks_decode X f (blocks @ [dkb_entries e])"
      using Suc.prems(2) e by (auto simp: blocks_decode_def nth_append less_Suc_eq)
    show "grows (keys_inv X f RP LP) (bd_estimated b) (add_rows X f (dkb_entries e) b (\<lambda>b.
       otry (ok_or (checked_add (kb_entry_start_index block) (kb_entry_count block))
               (InvalidFormat ''keyword entry count overflow'')) (\<lambda>expected_end.
       if usize_max < expected_end then olift (Inl (InvalidFormat ''keyword entry count exceeds usize''))
       else if length (bd_digests b) \<noteq> expected_end
       then olift (Inl (InvalidData (''locator row count mismatch after block '' @ dec (length blocks) @
            '': expected '' @ dec expected_end @ '', decoded '' @ dec (length (bd_digests b)))))
       else add_blocks X f [Suc (length blocks)..<Suc (length blocks) + n] b k))) Q"
    proof (rule add_rows_grows [OF Suc.prems(1)], rule grows_try, intro grows_if grows_fail)
      fix b' assume b': "builder_ok X f fixed (concat blocks @ dkb_entries e) b'"
      show "grows (keys_inv X f RP LP) (bd_estimated b')
          (add_blocks X f [Suc (length blocks)..<Suc (length blocks) + n] b' k) Q"
        using Suc.IH [of "blocks @ [dkb_entries e]" b', OF _ d _ Suc.prems(4)] b' Suc.prems(3)
        by (simp del: upt_Suc)
    qed
  qed
qed

lemma finish_locator_ok:
  assumes ok: "file_ok X f" and b: "builder_ok X f fixed (concat blocks) b" and rows: "file_rows X f blocks"
    and fin: "finish_locator (mf_len f) b = Inr l"
  shows "locator_rows X f l (concat blocks)" and "kl_memory l = bd_estimated b"
proof -
  note kr = key_row_at_file_rows [OF ok rows]
  show "locator_rows X f l (concat blocks)" and "kl_memory l = bd_estimated b"
    using fin b kr by (auto simp: finish_locator_def and_then_Inr builder_ok_def locator_rows_def split: if_splits)
qed

lemma build_key_locator_runs:
  assumes ok: "file_ok X f"
  shows "runs (keys_inv X f RP LP) kl_memory (build_key_locator X f) (locator_ok X f)"
  unfolding build_key_locator_def Let_def
proof (rule runs_if, rule runs_fail, rule runs_try, rule runs_try, rule runs_try)
  fix entry_count fixed u
  assume e: "checked_usize (mf_len f) ''locator entry count'' = Inr entry_count"
  have n: "entry_count = mf_len f" using e by simp
  let ?b0 = "\<lparr>bd_text = [], bd_bounds = [0], bd_digests = [], bd_estimated = fixed, bd_previous = None\<rparr>"
  have fin: "grows (keys_inv X f RP LP) (bd_estimated b) (olift (finish_locator entry_count b)) (locator_ok X f)"
    if "builder_ok X f fixed (concat blocks) b" and "file_rows X f blocks" for b blocks
  proof (cases "finish_locator entry_count b")
    case (Inl e)
    then show ?thesis by (simp add: grows_fail)
  next
    case (Inr l)
    note f = finish_locator_ok [OF ok that Inr [unfolded n]]
    have "keeps (keys_inv X f RP LP) (olift (Inr l)) (\<lambda>x. x = l)" by (rule runs_lift) simp
    then show ?thesis
      unfolding grows_def Inr
      by (rule runs_conseq) (use f in \<open>auto simp: locator_ok_def\<close>)
  qed
  have "grows (keys_inv X f RP LP) (bd_estimated ?b0)
      (add_blocks X f [length ([] :: decoded_key_row list list)..<length ([] :: decoded_key_row list list) + key_block_count f]
        ?b0 (\<lambda>b. olift (finish_locator entry_count b))) (locator_ok X f)"
    by (rule add_blocks_grows [where fixed = fixed])
      (simp_all add: builder_ok_empty blocks_decode_def fin)
  then have g: "grows (keys_inv X f RP LP) fixed
      (add_blocks X f [0..<key_block_count f] ?b0 (\<lambda>b. olift (finish_locator entry_count b))) (locator_ok X f)"
    by simp
  have "grows (keys_inv X f RP LP) fixed (
     otry (try_reserve_vec 4 0 (entry_count + 1) ''key locator bounds'') (\<lambda>_.
     otry (try_reserve_vec 4 0 entry_count ''key locator raw digests'') (\<lambda>_.
     add_blocks X f [0..<key_block_count f] ?b0 (\<lambda>b. olift (finish_locator entry_count b))))) (locator_ok X f)"
    by (intro grows_try g)
  then have "runs (keys_inv X f RP LP) (\<lambda>l. kl_memory l - fixed) (
     otry (try_reserve_vec 4 0 (entry_count + 1) ''key locator bounds'') (\<lambda>_.
     otry (try_reserve_vec 4 0 entry_count ''key locator raw digests'') (\<lambda>_.
     add_blocks X f [0..<key_block_count f] ?b0 (\<lambda>b. olift (finish_locator entry_count b)))))
     (\<lambda>l. locator_ok X f l \<and> fixed \<le> kl_memory l)" by (simp only: grows_def)
  from runs_retained [OF this, of fixed]
  show "runs (keys_inv X f RP LP) kl_memory (oretained fixed (
     otry (try_reserve_vec 4 0 (entry_count + 1) ''key locator bounds'') (\<lambda>_.
     otry (try_reserve_vec 4 0 entry_count ''key locator raw digests'') (\<lambda>_.
     add_blocks X f [0..<key_block_count f] ?b0 (\<lambda>b. olift (finish_locator entry_count b))))))
     (locator_ok X f)"
    by (rule runs_conseq) auto
qed

section \<open>The cached locator\<close>

definition locator_cache_ok :: "externals \<Rightarrow> mdict_file \<Rightarrow> key_locator cached option \<Rightarrow> bool" where
  "locator_cache_ok X f slot \<longleftrightarrow> (case slot of Some (Ready l) \<Rightarrow> locator_ok X f l | _ \<Rightarrow> True)"

text \<open>The invariant of an open file: exact accounting, and caches that hold what they say.\<close>

abbreviation open_inv where
  "open_inv X f \<equiv> records_inv X f (locator_cache_ok X f)"

lemma capture_locator_failure_inv:
  assumes i: "keys_inv X f RP (\<lambda>s. s = None) base st"
  shows "keys_inv X f RP (locator_cache_ok X f) base (capture_locator_failure e st)"
proof -
  obtain r b where c: "capture e (st_memory st) = (r, b)" by (cases "capture e (st_memory st)")
  have ok: "budget_ok (st_memory st)" using i by (simp add: file_inv_def)
  note m = capture_memory [OF ok c]
  show ?thesis
    using c m i
    by (cases r) (simp_all add: capture_locator_failure_def file_inv_def state_bytes_def locator_slot_bytes_def
        locator_cache_ok_def)
qed

lemma key_locator_keeps:
  assumes ok: "file_ok X f"
  shows "keeps (keys_inv X f RP (locator_cache_ok X f)) (key_locator_of X f) (locator_ok X f)"
proof (rule runsI)
  fix base st r st'
  let ?I = "keys_inv X f RP (locator_cache_ok X f)"
  assume i: "?I base st" and run: "key_locator_of X f st = (r, st')"
  show "case r of Inl e \<Rightarrow> ?I base st' | Inr x \<Rightarrow> ?I (base + 0) st' \<and> locator_ok X f x"
  proof (cases "st_locator st")
    case (Some v)
    then show ?thesis using i run
      by (cases v) (auto simp: key_locator_of_def file_inv_def locator_cache_ok_def)
  next
    case None
    obtain r1 st1 where b: "build_key_locator X f st = (r1, st1)" by (cases "build_key_locator X f st")
    have i0: "keys_inv X f RP (\<lambda>s. s = None) base st" using i None by (simp add: file_inv_def)
    note d = runsD [OF build_key_locator_runs [OF ok] i0 b]
    show ?thesis
    proof (cases r1)
      case (Inl e)
      then have "r = Inl e" "st' = capture_locator_failure e st1" and "keys_inv X f RP (\<lambda>s. s = None) base st1"
        using d run None b by (simp_all add: key_locator_of_def)
      then show ?thesis by (auto intro: capture_locator_failure_inv)
    next
      case (Inr l)
      then show ?thesis
        using d run None b
        by (auto simp: key_locator_of_def file_inv_def state_bytes_def locator_slot_bytes_def locator_cache_ok_def)
    qed
  qed
qed

end
