(* ===== verification/Locator_Queries.thy ===== *)
theory Locator_Queries
  imports Locator_Build
begin

text \<open>
  What the lookups of the locator answer. \<open>file_keys\<close> lists the raw keys of the file by ordinal;
  \<open>exact_ordinals\<close>, \<open>normalized_ordinals\<close> and \<open>prefix_texts\<close> are the ordinals a query means.
  Each lemma says that a lookup which returns, returns them, in whatever state the caches are.
\<close>

section \<open>The ordinals a query means\<close>

definition file_keys :: "externals \<Rightarrow> mdict_file \<Rightarrow> rstring list \<Rightarrow> bool" where
  "file_keys X f keys \<longleftrightarrow> length keys = mf_len f \<and>
     (\<forall>n < mf_len f. \<exists>row. key_row_at X f n row \<and> keys ! n = row_key row)"

definition exact_ordinals :: "rstring list \<Rightarrow> rstring \<Rightarrow> nat list" where
  "exact_ordinals keys query = filter (\<lambda>n. keys ! n = query) [0..<length keys]"

definition normalized_ordinals :: "externals \<Rightarrow> key_normalizer \<Rightarrow> rstring list \<Rightarrow> rstring \<Rightarrow> nat list" where
  "normalized_ordinals X nrm keys query =
     filter (\<lambda>n. normal_form X nrm (keys ! n) = normal_form X nrm query) [0..<length keys]"

text \<open>The reference answer: raw equality first, and only then the header's normalization.\<close>

definition reference_lookup ::
    "externals \<Rightarrow> key_normalizer \<Rightarrow> rstring list \<Rightarrow> rstring \<Rightarrow> (locator_basis \<times> nat list) option" where
  "reference_lookup X nrm keys query =
     (if normalized_ordinals X nrm keys query = [] then None
      else if exact_ordinals keys query \<noteq> [] then Some (RawExact, exact_ordinals keys query)
      else Some (HeaderNormalized, normalized_ordinals X nrm keys query))"

lemma file_keys_nth:
  assumes "file_keys X f ks" and "n < length ks"
  obtains row where "key_row_at X f n row" and "ks ! n = row_key row"
  using assms by (auto simp: file_keys_def)

lemma file_keys_unique:
  assumes ok: "file_ok X f" and a: "file_keys X f ks" and b: "file_keys X f ks'"
  shows "ks = ks'"
proof (rule nth_equalityI)
  show "length ks = length ks'" using a b by (simp add: file_keys_def)
  fix i assume i: "i < length ks"
  then have i': "i < length ks'" using a b by (simp add: file_keys_def)
  obtain r where r: "key_row_at X f i r" "ks ! i = row_key r" by (rule file_keys_nth [OF a i])
  obtain r' where r': "key_row_at X f i r'" "ks' ! i = row_key r'" by (rule file_keys_nth [OF b i'])
  show "ks ! i = ks' ! i" using r r' key_row_at_unique [OF ok r(1) r'(1)] by simp
qed

lemma locator_file_keys: "locator_rows X f l rows \<Longrightarrow> file_keys X f (map row_key rows)"
  by (auto simp: locator_rows_def file_keys_def)

lemma file_keys_well_formed:
  assumes ok: "file_ok X f" and ks: "file_keys X f ks" and n: "n < length ks"
  shows "well_formed (ks ! n)"
proof -
  obtain r where r: "key_row_at X f n r" "ks ! n = row_key r" by (rule file_keys_nth [OF ks n])
  show ?thesis unfolding r(2) by (rule row_key_well_formed [OF ok r(1)])
qed

section \<open>Raw equality\<close>

lemma row_is_raw_keeps:
  assumes ok: "file_ok X f" and l: "locator_rows X f l rows" and n: "row < mf_len f"
  shows "keeps (keys_inv X f RP LP) (row_is_raw X f l query row) (\<lambda>b. b = (row_key (rows ! row) = query))"
  unfolding row_is_raw_def
proof (rule runs_try, rule runs_if)
  fix d
  assume d: "ok_or (get (kl_raw_digest l) row) (InvalidFormat ''locator row has no raw digest'') = Inr d"
  then have d': "d = raw_digest (row_key (rows ! row))" using l n by (auto simp: locator_rows_def get_def)
  show "keeps (keys_inv X f RP LP) (oret False) (\<lambda>b. b = (row_key (rows ! row) = query))" if "d \<noteq> raw_digest query"
    by (rule runs_lift) (use that d' in auto)
  have rr: "key_row_at X f row (rows ! row)" using l n by (simp add: locator_rows_def)
  show "keeps (keys_inv X f RP LP) (obind (key_entry_at_ordinal X f row) (\<lambda>hit.
     case hit of
       None \<Rightarrow> olift (Inl (InvalidFormat ''locator row has no key block entry''))
     | Some h \<Rightarrow>
         otry (ok_or (get (kbh_entries h) (kbh_entry_index h))
                 (InvalidFormat ''locator row escaped its key block'')) (\<lambda>entry.
         oret (row_key entry = query)))) (\<lambda>b. b = (row_key (rows ! row) = query))"
  proof (rule runs_bind [OF key_entry_at_ordinal_keeps [OF ok]])
    fix hit :: "key_block_hit option"
    assume h: "case hit of None \<Rightarrow> mf_len f \<le> row
     | Some h \<Rightarrow> row < mf_len f \<and> key_block_decodes X f (kbh_block_index h) (kbh_entries h) \<and>
         boundary_ok X f (kbh_block_index h) (kbh_entries h) \<and> kbh_entry_index h < length (kbh_entries h) \<and>
         row = kb_entry_start_index (vl_key_blocks (mf_layout f) ! kbh_block_index h) + kbh_entry_index h"
    show "keeps (keys_inv X f RP LP) (case hit of
       None \<Rightarrow> olift (Inl (InvalidFormat ''locator row has no key block entry''))
     | Some h \<Rightarrow>
         otry (ok_or (get (kbh_entries h) (kbh_entry_index h))
                 (InvalidFormat ''locator row escaped its key block'')) (\<lambda>entry.
         oret (row_key entry = query))) (\<lambda>b. b = (row_key (rows ! row) = query))"
    proof (cases hit)
      case None
      then show ?thesis by (simp add: runs_fail)
    next
      case (Some x)
      then have "key_row_at X f row (kbh_entries x ! kbh_entry_index x)"
        using h hit_row [of X f x row] by (simp add: row_of_hit_def)
      then have "kbh_entries x ! kbh_entry_index x = rows ! row" using key_row_at_unique [OF ok _ rr] by blast
      then show ?thesis using Some h by (auto simp: get_def intro!: runs_lift)
    qed
  qed
qed

lemma order_row_bound:
  assumes "locator_rows X f l rows" and "p < length (kl_order l)"
  shows "kl_order l ! p < mf_len f"
proof -
  have "kl_order l ! p \<in> set (kl_order l)" using assms(2) by simp
  then show ?thesis using locator_index.order_set [of l] locator_rows_sorted [OF assms(1)] by auto
qed

lemma raw_exact_scan_keeps:
  assumes ok: "file_ok X f" and l: "locator_rows X f l rows"
  shows "\<forall>p \<in> set ps. p < length (kl_order l) \<Longrightarrow>
    keeps (keys_inv X f RP LP) (raw_exact_scan X f l query ps ms)
      (\<lambda>r. r = ms @ filter (\<lambda>n. row_key (rows ! n) = query) (map ((!) (kl_order l)) ps))"
proof (induction ps arbitrary: ms)
  case Nil
  show ?case unfolding raw_exact_scan.simps by (rule runs_lift) simp
next
  case (Cons p ps)
  have b: "kl_order l ! p < mf_len f" using order_row_bound [OF l] Cons.prems by simp
  show ?case
    unfolding raw_exact_scan.simps
  proof (rule runs_try)
    fix row assume "ok_or (get (kl_order l) p) (InvalidFormat ''locator range escaped its order index'') = Inr row"
    then have row: "row = kl_order l ! p" by (auto simp: get_def split: if_splits)
    show "keeps (keys_inv X f RP LP) (obind (row_is_raw X f l query row) (\<lambda>is_raw.
        if is_raw then otry (try_reserve_vec 4 (length ms) 1 ''raw-exact locator matches'') (\<lambda>_.
          raw_exact_scan X f l query ps (ms @ [row]))
        else raw_exact_scan X f l query ps ms))
      (\<lambda>r. r = ms @ filter (\<lambda>n. row_key (rows ! n) = query) (map ((!) (kl_order l)) (p # ps)))"
      unfolding row
    proof (rule runs_bind [OF row_is_raw_keeps [OF ok l b]], rule runs_if, rule runs_try)
      fix is_raw u assume "is_raw = (row_key (rows ! (kl_order l ! p)) = query)" "is_raw"
      then show "keeps (keys_inv X f RP LP) (raw_exact_scan X f l query ps (ms @ [kl_order l ! p]))
        (\<lambda>r. r = ms @ filter (\<lambda>n. row_key (rows ! n) = query) (map ((!) (kl_order l)) (p # ps)))"
        using Cons.IH [of "ms @ [kl_order l ! p]"] Cons.prems by simp
    next
      fix is_raw assume "is_raw = (row_key (rows ! (kl_order l ! p)) = query)" "\<not> is_raw"
      then show "keeps (keys_inv X f RP LP) (raw_exact_scan X f l query ps ms)
        (\<lambda>r. r = ms @ filter (\<lambda>n. row_key (rows ! n) = query) (map ((!) (kl_order l)) (p # ps)))"
        using Cons.IH [of ms] Cons.prems by simp
    qed
  qed
qed

lemma map_nth_slice: "b \<le> length xs \<Longrightarrow> map ((!) xs) [a..<b] = slice a b xs"
  by (rule nth_equalityI) (simp_all add: nth_slice)

section \<open>Normalized ranges\<close>

lemma with_normalized_runs:
  assumes "runs (file_inv E M KP RP LP) k (body (utf8 (normal_form X (mf_normalizer f) query))) Q"
  shows "runs (file_inv E M KP RP LP) k (with_normalized X f query body) Q"
  unfolding with_normalized_def
proof (rule runs_try, rule runs_try, rule runs_scoped, rule runs_try)
  fix n u normalized assume "normalize X (mf_normalizer f) query = Inr normalized"
  then show "runs (file_inv E M KP RP LP) k (body (utf8 normalized)) Q" using assms by (simp add: normalize_Inr)
qed

text \<open>The rows whose text is that of the query.\<close>

lemma row_matches:
  assumes ok: "file_ok X f" and l: "locator_rows X f l rows" and q: "well_formed query" and n: "n < mf_len f"
  shows "kl_row l n = utf8 (normal_form X (mf_normalizer f) query) \<longleftrightarrow>
    normal_form X (mf_normalizer f) (row_key (rows ! n)) = normal_form X (mf_normalizer f) query"
proof -
  have X: "externals_ok X" using ok by (simp add: file_ok_def)
  have "well_formed (row_key (rows ! n))"
    using file_keys_well_formed [OF ok locator_file_keys [OF l], of n] l n by (simp add: locator_rows_def)
  then show ?thesis
    using locator_row [OF ok l n] utf8_inject normal_form_well_formed [OF X] q by (simp add: row_bytes_def)
qed

lemma matching_rows:
  assumes ok: "file_ok X f" and l: "locator_rows X f l rows" and q: "well_formed query"
  shows "filter (\<lambda>n. kl_row l n = utf8 (normal_form X (mf_normalizer f) query)) [0..<kl_row_count l] =
    normalized_ordinals X (mf_normalizer f) (map row_key rows) query"
proof -
  have "length rows = mf_len f" "kl_row_count l = mf_len f"
    using l locator_rows_sorted [OF l] by (simp_all add: locator_rows_def)
  then show ?thesis
    unfolding normalized_ordinals_def using row_matches [OF ok l q] by (auto intro!: filter_cong)
qed

lemma equal_range_Some:
  assumes ok: "file_ok X f" and l: "locator_rows X f l rows" and q: "well_formed query"
    and r: "equal_range l (utf8 (normal_form X (mf_normalizer f) query)) = Some (a, b)"
  shows "a < b" and "b \<le> length (kl_order l)"
    and "slice a b (kl_order l) = normalized_ordinals X (mf_normalizer f) (map row_key rows) query"
    and "b - a = length (normalized_ordinals X (mf_normalizer f) (map row_key rows) query)"
proof -
  have s: "locator_sorted l" using locator_rows_sorted [OF l] by simp
  note rs = locator_index.range_of_Some [OF s r [unfolded equal_range_def]]
  show "a < b" and "b \<le> length (kl_order l)" by (rule rs)+
  show "slice a b (kl_order l) = normalized_ordinals X (mf_normalizer f) (map row_key rows) query"
    using rs(3) matching_rows [OF ok l q] by simp
  show "b - a = length (normalized_ordinals X (mf_normalizer f) (map row_key rows) query)"
    using rs(4) matching_rows [OF ok l q] by simp
qed

lemma equal_range_None:
  assumes ok: "file_ok X f" and l: "locator_rows X f l rows" and q: "well_formed query"
    and r: "equal_range l (utf8 (normal_form X (mf_normalizer f) query)) = None"
  shows "normalized_ordinals X (mf_normalizer f) (map row_key rows) query = []"
proof -
  have s: "locator_sorted l" using locator_rows_sorted [OF l] by simp
  note rn = locator_index.range_of_None [OF s r [unfolded equal_range_def]]
  show ?thesis unfolding matching_rows [OF ok l q, symmetric] using rn by (auto simp: filter_empty_conv)
qed

text \<open>Raw equality implies equality of the normal forms.\<close>

lemma exact_of_normalized:
  "filter (\<lambda>n. ks ! n = query) (normalized_ordinals X nrm ks query) = exact_ordinals ks query"
  by (auto simp: normalized_ordinals_def exact_ordinals_def intro!: filter_cong)

lemma exact_rows:
  assumes "length rows = mf_len f"
  shows "filter (\<lambda>n. row_key (rows ! n) = query) (normalized_ordinals X nrm (map row_key rows) query) =
    exact_ordinals (map row_key rows) query"
  unfolding exact_of_normalized [symmetric, of "map row_key rows" query X nrm]
  by (rule filter_cong) (auto simp: normalized_ordinals_def)

section \<open>Exact-first lookup\<close>

text \<open>The ordinals that located keys stand for.\<close>

definition lk_list :: "located_keys \<Rightarrow> nat list" where
  "lk_list k = (case lk_ordinals k of InLocator l a b \<Rightarrow> slice a b (kl_order l) | Owned ordinals _ \<Rightarrow> ordinals)"

definition located_ok :: "located_keys \<Rightarrow> bool" where
  "located_ok k \<longleftrightarrow> (case lk_ordinals k of InLocator l a b \<Rightarrow> a \<le> b \<and> b \<le> length (kl_order l) \<and> b \<le> u64_max | _ \<Rightarrow> True)"

lemma located_len: "located_ok k \<Longrightarrow> lk_len k = length (lk_list k)"
  by (auto simp: located_ok_def lk_len_def lk_list_def split: located_ordinals.splits)

lemma located_at: "located_ok k \<Longrightarrow> lk_ordinal_at k i = get (lk_list k) i"
  by (auto simp: located_ok_def lk_ordinal_at_def lk_list_def get_def checked_add_def nth_slice
      split: located_ordinals.splits)

text \<open>The bytes of the budget that located keys own.\<close>

definition lk_owned :: "located_keys \<Rightarrow> nat" where
  "lk_owned k = (case lk_ordinals k of InLocator _ _ _ \<Rightarrow> 0 | Owned _ reservation \<Rightarrow> reservation)"

definition locate_answer :: "externals \<Rightarrow> mdict_file \<Rightarrow> rstring \<Rightarrow> (locator_basis \<times> nat list) option \<Rightarrow> bool" where
  "locate_answer X f query r \<longleftrightarrow>
     (\<exists>keys. file_keys X f keys \<and> r = reference_lookup X (mf_normalizer f) keys query)"

lemma locate_answer_iff:
  assumes ok: "file_ok X f" and ks: "file_keys X f ks"
  shows "locate_answer X f query r \<longleftrightarrow> r = reference_lookup X (mf_normalizer f) ks query"
proof
  assume "locate_answer X f query r"
  then obtain ks' where k: "file_keys X f ks'" "r = reference_lookup X (mf_normalizer f) ks' query"
    unfolding locate_answer_def by blast
  show "r = reference_lookup X (mf_normalizer f) ks query" using k(2) file_keys_unique [OF ok ks k(1)] by simp
qed (use ks in \<open>auto simp: locate_answer_def\<close>)

definition located :: "located_keys \<Rightarrow> locator_basis \<times> nat list" where
  "located k = (lk_basis k, lk_list k)"

lemma raw_exact_within_keeps:
  assumes ok: "file_ok X f" and l: "locator_rows X f l rows" and q: "well_formed query"
    and r: "equal_range l (utf8 (normal_form X (mf_normalizer f) query)) = Some (a, b)"
  shows "keeps (keys_inv X f RP LP) (raw_exact_within X f l (a, b) query)
    (\<lambda>e. e = (if exact_ordinals (map row_key rows) query = [] then None
              else Some (exact_ordinals (map row_key rows) query)))"
proof -
  note er = equal_range_Some [OF ok l q r]
  have len: "length rows = mf_len f" using l by (simp add: locator_rows_def)
  have "sort (exact_ordinals (map row_key rows) query) = exact_ordinals (map row_key rows) query"
    unfolding exact_ordinals_def by (intro sorted_sort_id sorted_wrt_filter) simp
  then show ?thesis
    unfolding raw_exact_within_def fst_conv snd_conv
    by (intro runs_bind [OF raw_exact_scan_keeps [OF ok l]] runs_lift)
      (use er in \<open>auto simp: map_nth_slice exact_rows [OF len]\<close>)
qed

lemma locate_keys_keeps:
  assumes ok: "file_ok X f" and q: "well_formed query"
  shows "keeps (keys_inv X f RP (locator_cache_ok X f)) (locate_keys X f query)
    (\<lambda>r. locate_answer X f query (map_option located r) \<and> (case r of None \<Rightarrow> True | Some k \<Rightarrow> located_ok k \<and> lk_owned k = 0))"
  unfolding locate_keys_def
proof (rule runs_bind [OF key_locator_keeps [OF ok]], rule with_normalized_runs)
  let ?R = "\<lambda>r. locate_answer X f query (map_option located r) \<and> (case r of None \<Rightarrow> True | Some k \<Rightarrow> located_ok k \<and> lk_owned k = 0)"
  let ?q = "utf8 (normal_form X (mf_normalizer f) query)"
  fix l assume "locator_ok X f l"
  then obtain rows where l: "locator_rows X f l rows" by (auto simp: locator_ok_def)
  let ?ks = "map row_key rows"
  have ans: "locate_answer X f query r \<longleftrightarrow> r = reference_lookup X (mf_normalizer f) ?ks query" for r
    by (rule locate_answer_iff [OF ok locator_file_keys [OF l]])
  have small: "length (kl_order l) \<le> u64_max"
    using locator_rows_sorted [OF l] file_ok_layout [OF ok] by (simp add: kl_row_count_def layout_ok_def mf_len_def)
  show "keeps (keys_inv X f RP (locator_cache_ok X f)) (case equal_range l ?q of
       None \<Rightarrow> oret None
     | Some rng \<Rightarrow>
         obind (raw_exact_within X f l rng query) (\<lambda>exact.
         case exact of
           Some ordinals \<Rightarrow> oret (Some \<lparr>lk_basis = RawExact, lk_ordinals = Owned ordinals 0\<rparr>)
         | None \<Rightarrow>
             oret (Some \<lparr>lk_basis = HeaderNormalized,
                         lk_ordinals = InLocator l (fst rng) (snd rng)\<rparr>))) ?R"
  proof (cases "equal_range l ?q")
    case None
    show ?thesis
      unfolding None option.case
      by (rule runs_lift)
        (use equal_range_None [OF ok l q None] in \<open>auto simp: ans reference_lookup_def\<close>)
  next
    case (Some rng)
    obtain a b where rng: "rng = (a, b)" by (cases rng)
    have e: "equal_range l ?q = Some (a, b)" using Some rng by simp
    note er = equal_range_Some [OF ok l q e]
    have ne: "normalized_ordinals X (mf_normalizer f) ?ks query \<noteq> []" using er(1,4) by auto
    show ?thesis
      unfolding e option.case fst_conv snd_conv
      by (rule runs_bind [OF raw_exact_within_keeps [OF ok l q e]])
        (use er ne small in \<open>auto simp: ans reference_lookup_def located_def lk_list_def located_ok_def lk_owned_def
           intro!: runs_lift split: if_splits\<close>)
  qed
qed

section \<open>Pages\<close>

text \<open>The window \<open>limit\<close> wide at \<open>off\<close> of a list of ordinals.\<close>

definition window :: "nat \<Rightarrow> nat \<Rightarrow> 'a list \<Rightarrow> 'a list" where
  "window off limit xs = take limit (drop off xs)"

lemma length_window: "length (window off limit xs) = min limit (length xs - off)"
  by (simp add: window_def)

lemma window_snoc:
  "window off limit (xs @ [x]) =
     (if off \<le> length xs \<and> length (window off limit xs) < limit then window off limit xs @ [x]
      else window off limit xs)"
proof (cases "off \<le> length xs")
  case True
  then show ?thesis by (cases "length xs - off < limit") (auto simp: window_def)
qed (simp add: window_def)

text \<open>The window grown by appending the rows one by one, as the page loops do.\<close>

definition grow_window :: "nat \<Rightarrow> nat \<Rightarrow> nat \<Rightarrow> 'a list \<Rightarrow> 'a \<Rightarrow> 'a list" where
  "grow_window off limit seen page x = (if off \<le> seen \<and> length page < limit then page @ [x] else page)"

lemma grow_window: "grow_window off limit (length xs) (window off limit xs) x = window off limit (xs @ [x])"
  by (simp add: grow_window_def window_snoc)

lemma window_slice:
  assumes "b \<le> length xs" and "a \<le> b"
  shows "slice (a + min off (b - a)) (min (a + min off (b - a) + limit) b) xs = window off limit (slice a b xs)"
  using assms by (auto simp: window_def slice_def min_def take_drop add.commute intro!: arg_cong [where f = "\<lambda>ys. drop _ ys"])

lemma page_scan_keeps:
  assumes ok: "file_ok X f" and l: "locator_rows X f l rows"
  shows "\<forall>p \<in> set ps. p < length (kl_order l) \<Longrightarrow>
    keeps (keys_inv X f RP LP) (page_scan X f l query off limit ps (length found, window off limit found))
      (\<lambda>r. \<exists>all. all = found @ filter (\<lambda>n. row_key (rows ! n) = query) (map ((!) (kl_order l)) ps) \<and>
         r = (length all, window off limit all))"
proof (induction ps arbitrary: found)
  case Nil
  show ?case unfolding page_scan.simps by (rule runs_lift) simp
next
  case (Cons p ps)
  let ?row = "kl_order l ! p"
  let ?R = "\<lambda>r. \<exists>all. all = found @ filter (\<lambda>n. row_key (rows ! n) = query) (map ((!) (kl_order l)) (p # ps)) \<and>
         r = (length all, window off limit all)"
  have b: "?row < mf_len f" using order_row_bound [OF l] Cons.prems by simp
  show ?case
    unfolding page_scan.simps
  proof (rule runs_try)
    fix row assume "ok_or (get (kl_order l) p) (InvalidFormat ''locator range escaped its order index'') = Inr row"
    then have row: "row = ?row" by (auto simp: get_def split: if_splits)
    show "keeps (keys_inv X f RP LP) (obind (row_is_raw X f l query row) (\<lambda>is_raw.
     if is_raw then
       otry (ok_or (checked_add (length found) 1) (InvalidFormat ''raw-exact match count overflow'')) (\<lambda>count.
       page_scan X f l query off limit ps
         (count, if off \<le> length found \<and> length (window off limit found) < limit
                 then window off limit found @ [row] else window off limit found))
     else page_scan X f l query off limit ps (length found, window off limit found))) ?R"
      unfolding row
    proof (rule runs_bind [OF row_is_raw_keeps [OF ok l b]], rule runs_if, rule runs_try)
      fix is_raw count
      assume r: "is_raw = (row_key (rows ! ?row) = query)" "is_raw"
        and c: "ok_or (checked_add (length found) 1) (InvalidFormat ''raw-exact match count overflow'') = Inr count"
      then have "count = length (found @ [?row])" by simp
      then show "keeps (keys_inv X f RP LP) (page_scan X f l query off limit ps
         (count, if off \<le> length found \<and> length (window off limit found) < limit
                 then window off limit found @ [?row] else window off limit found)) ?R"
        using Cons.IH [of "found @ [?row]"] Cons.prems r by (simp add: window_snoc)
    next
      fix is_raw assume "is_raw = (row_key (rows ! ?row) = query)" "\<not> is_raw"
      then show "keeps (keys_inv X f RP LP)
         (page_scan X f l query off limit ps (length found, window off limit found)) ?R"
        using Cons.IH [of found] Cons.prems by simp
    qed
  qed
qed

lemma gather_rows_eq: "\<forall>p \<in> set ps. p < length (kl_order l) \<Longrightarrow> gather_rows l ps = Inr (map ((!) (kl_order l)) ps)"
  by (induction ps) (simp_all add: get_def)

text \<open>A page: what it says of the whole match list, the window it holds, and a reservation that
  covers the ordinals it stores.\<close>

definition page_ok :: "nat \<Rightarrow> nat \<Rightarrow> locator_basis \<times> nat list \<Rightarrow> located_key_page \<Rightarrow> bool" where
  "page_ok off limit full p \<longleftrightarrow>
     lkp_basis p = fst full \<and> lkp_total p = length (snd full) \<and>
     lkp_ordinals p = window off limit (snd full) \<and> 4 * length (lkp_ordinals p) \<le> lkp_memory p"

definition page_bytes :: "located_key_page option \<Rightarrow> nat" where
  "page_bytes r = (case r of None \<Rightarrow> 0 | Some p \<Rightarrow> lkp_memory p)"

lemma page_body_keeps:
  assumes ok: "file_ok X f" and l: "locator_rows X f l rows" and q: "well_formed query"
    and e: "equal_range l (utf8 (normal_form X (mf_normalizer f) query)) = Some (a, b)"
    and bytes: "bytes = min limit (b - a - off) * 4"
  shows "keeps (keys_inv X f RP LP)
     (obind (page_scan X f l query off limit [a..<b] (0, [])) (\<lambda>(exact_count, ordinals).
      if exact_count \<noteq> 0
      then oret (Some \<lparr>lkp_basis = RawExact, lkp_total = exact_count, lkp_ordinals = ordinals, lkp_memory = bytes\<rparr>)
      else
      (let page_start = saturating_add a (min off (b - a)); page_end = min (saturating_add page_start limit) b in
       otry (gather_rows l [page_start..<page_end]) (\<lambda>ordinals.
       oret (Some \<lparr>lkp_basis = HeaderNormalized, lkp_total = b - a, lkp_ordinals = ordinals, lkp_memory = bytes\<rparr>)))))
     (\<lambda>r. \<exists>p full. r = Some p \<and> reference_lookup X (mf_normalizer f) (map row_key rows) query = Some full \<and>
        page_ok off limit full p \<and> lkp_memory p = bytes)"
proof -
  note er = equal_range_Some [OF ok l q e]
  let ?norm = "normalized_ordinals X (mf_normalizer f) (map row_key rows) query"
  let ?exact = "exact_ordinals (map row_key rows) query"
  have len: "length rows = mf_len f" using l by (simp add: locator_rows_def)
  have small: "length (kl_order l) \<le> u64_max"
    using locator_rows_sorted [OF l] file_ok_layout [OF ok] by (simp add: kl_row_count_def layout_ok_def mf_len_def)
  have ne: "?norm \<noteq> []" using er(1,4) by auto
  have le: "length ?exact \<le> length ?norm"
    unfolding exact_of_normalized [symmetric, of _ _ X "mf_normalizer f"] by (rule length_filter_le)
  have scan: "keeps (keys_inv X f RP LP) (page_scan X f l query off limit [a..<b] (0, []))
      (\<lambda>r. r = (length ?exact, window off limit ?exact))"
    using page_scan_keeps [OF ok l, of "[a..<b]" RP LP query off limit "[]"] er(2,3)
    by (simp add: map_nth_slice exact_rows [OF len] window_def)
  have norm: "gather_rows l [saturating_add a (min off (b - a))..<
        min (saturating_add (saturating_add a (min off (b - a))) limit) b] = Inr (window off limit ?norm)"
  proof -
    have s: "saturating_add a (min off (b - a)) = a + min off (b - a)"
      using er(1,2) small by (simp add: saturating_add_def)
    have t: "min (saturating_add (a + min off (b - a)) limit) b = min (a + min off (b - a) + limit) b"
      using er(2) small unfolding saturating_add_def min_def by (simp split: if_split)
    have "gather_rows l [a + min off (b - a)..<min (a + min off (b - a) + limit) b] =
        Inr (slice (a + min off (b - a)) (min (a + min off (b - a) + limit) b) (kl_order l))"
      by (subst gather_rows_eq) (use er(2) in \<open>auto simp: map_nth_slice\<close>)
    then show ?thesis unfolding s t using window_slice [of b "kl_order l" a off limit] er(1-3) by simp
  qed
  show ?thesis
  proof (rule runs_bind [OF scan], clarsimp simp only: prod.case)
    show "keeps (keys_inv X f RP LP)
     (if length ?exact \<noteq> 0
      then oret (Some \<lparr>lkp_basis = RawExact, lkp_total = length ?exact, lkp_ordinals = window off limit ?exact,
                       lkp_memory = bytes\<rparr>)
      else
      (let page_start = saturating_add a (min off (b - a)); page_end = min (saturating_add page_start limit) b in
       otry (gather_rows l [page_start..<page_end]) (\<lambda>ordinals.
       oret (Some \<lparr>lkp_basis = HeaderNormalized, lkp_total = b - a, lkp_ordinals = ordinals, lkp_memory = bytes\<rparr>))))
     (\<lambda>r. \<exists>p full. r = Some p \<and> reference_lookup X (mf_normalizer f) (map row_key rows) query = Some full \<and>
        page_ok off limit full p \<and> lkp_memory p = bytes)"
    proof (rule runs_if)
      assume "length ?exact \<noteq> 0"
      then have x: "?exact \<noteq> []" by simp
      show "keeps (keys_inv X f RP LP) (oret (Some \<lparr>lkp_basis = RawExact, lkp_total = length ?exact,
          lkp_ordinals = window off limit ?exact, lkp_memory = bytes\<rparr>))
        (\<lambda>r. \<exists>p full. r = Some p \<and> reference_lookup X (mf_normalizer f) (map row_key rows) query = Some full \<and>
           page_ok off limit full p \<and> lkp_memory p = bytes)"
        by (rule runs_lift)
          (use x ne le er(4) bytes in \<open>auto simp: reference_lookup_def page_ok_def length_window\<close>)
    next
      assume "\<not> length ?exact \<noteq> 0"
      then have x: "?exact = []" by simp
      show "keeps (keys_inv X f RP LP)
        (let page_start = saturating_add a (min off (b - a)); page_end = min (saturating_add page_start limit) b in
         otry (gather_rows l [page_start..<page_end]) (\<lambda>ordinals.
         oret (Some \<lparr>lkp_basis = HeaderNormalized, lkp_total = b - a, lkp_ordinals = ordinals, lkp_memory = bytes\<rparr>)))
        (\<lambda>r. \<exists>p full. r = Some p \<and> reference_lookup X (mf_normalizer f) (map row_key rows) query = Some full \<and>
           page_ok off limit full p \<and> lkp_memory p = bytes)"
        unfolding Let_def norm op_simps
        by (rule runs_lift)
          (use x ne er(4) bytes in \<open>auto simp: reference_lookup_def page_ok_def length_window\<close>)
    qed
  qed
qed

lemma locate_key_page_runs:
  assumes ok: "file_ok X f" and q: "well_formed query"
  shows "runs (keys_inv X f RP (locator_cache_ok X f)) page_bytes (locate_key_page X f query off limit)
    (\<lambda>r. \<exists>answer. locate_answer X f query answer \<and>
       (case r of None \<Rightarrow> answer = None | Some p \<Rightarrow> \<exists>full. answer = Some full \<and> page_ok off limit full p))"
  unfolding locate_key_page_def
proof (rule runs_bind [OF key_locator_keeps [OF ok]], rule with_normalized_runs)
  let ?R = "\<lambda>r. \<exists>answer. locate_answer X f query answer \<and>
       (case r of None \<Rightarrow> answer = None | Some p \<Rightarrow> \<exists>full. answer = Some full \<and> page_ok off limit full p)"
  let ?q = "utf8 (normal_form X (mf_normalizer f) query)" and ?I = "keys_inv X f RP (locator_cache_ok X f)"
  fix l assume "locator_ok X f l"
  then obtain rows where l: "locator_rows X f l rows" by (auto simp: locator_ok_def)
  note ans = locate_answer_iff [OF ok locator_file_keys [OF l], of query]
  let ?body = "\<lambda>a b. let total = b - a; page_capacity = min limit (total - off) in
          otry (ok_or (checked_mul page_capacity 4) (InvalidFormat ''key match page size overflow'')) (\<lambda>page_bytes.
          otry (ensure_usize_limit ''key_match_page_bytes'' page_bytes (locator_bytes (mf_limits f))) (\<lambda>_.
          oretained page_bytes (
          otry (try_reserve_vec 4 0 page_capacity ''key match page'') (\<lambda>_.
          obind (page_scan X f l query off limit [a..<b] (0, [])) (\<lambda>(exact_count, ordinals).
          if exact_count \<noteq> 0
          then oret (Some \<lparr>lkp_basis = RawExact, lkp_total = exact_count, lkp_ordinals = ordinals,
                           lkp_memory = page_bytes\<rparr>)
          else
          (let page_start = saturating_add a (min off total);
               page_end = min (saturating_add page_start limit) b in
           otry (gather_rows l [page_start..<page_end]) (\<lambda>ordinals.
           oret (Some \<lparr>lkp_basis = HeaderNormalized, lkp_total = total, lkp_ordinals = ordinals,
                       lkp_memory = page_bytes\<rparr>)))))))) "
  show "runs ?I page_bytes (case equal_range l ?q of None \<Rightarrow> oret None | Some (a, b) \<Rightarrow> ?body a b) ?R"
  proof (cases "equal_range l ?q")
    case None
    have "reference_lookup X (mf_normalizer f) (map row_key rows) query = None"
      using equal_range_None [OF ok l q None] by (simp add: reference_lookup_def)
    then have "locate_answer X f query None" by (simp add: ans)
    moreover have "keeps ?I (oret None) (\<lambda>r. r = (None :: located_key_page option))" by (rule runs_lift) simp
    ultimately show ?thesis
      unfolding None option.case by (auto elim!: runs_conseq simp: page_bytes_def)
  next
    case (Some rng)
    obtain a b where rng: "rng = (a, b)" by (cases rng)
    have e: "equal_range l ?q = Some (a, b)" using Some rng by simp
    show ?thesis
      unfolding e option.case prod.case Let_def
    proof (rule runs_try, rule runs_try)
      fix bytes u assume "ok_or (checked_mul (min limit (b - a - off)) 4)
          (InvalidFormat ''key match page size overflow'') = Inr bytes"
      then have bytes: "bytes = min limit (b - a - off) * 4" by simp
      note body = page_body_keeps [OF ok l q e bytes, unfolded Let_def, where RP = RP and LP = "locator_cache_ok X f"]
      show "runs ?I page_bytes (oretained bytes (
          otry (try_reserve_vec 4 0 (min limit (b - a - off)) ''key match page'') (\<lambda>_.
          obind (page_scan X f l query off limit [a..<b] (0, [])) (\<lambda>(exact_count, ordinals).
          if exact_count \<noteq> 0
          then oret (Some \<lparr>lkp_basis = RawExact, lkp_total = exact_count, lkp_ordinals = ordinals,
                           lkp_memory = bytes\<rparr>)
          else
           otry (gather_rows l [saturating_add a (min off (b - a))..<
              min (saturating_add (saturating_add a (min off (b - a))) limit) b]) (\<lambda>ordinals.
           oret (Some \<lparr>lkp_basis = HeaderNormalized, lkp_total = b - a, lkp_ordinals = ordinals,
                       lkp_memory = bytes\<rparr>)))))) ?R"
        by (rule runs_conseq [OF runs_retained [OF runs_try [OF body]]])
          (auto simp: ans page_bytes_def)
    qed
  qed
qed

section \<open>Prefixes and scans\<close>

lemma starts_with_append: "starts_with p s \<longleftrightarrow> (\<exists>r. s = p @ r)"
proof
  assume "starts_with p s"
  then have "s = p @ drop (length p) s" by (metis append_take_drop_id starts_with_def)
  then show "\<exists>r. s = p @ r" ..
qed (auto simp: starts_with_def)

text \<open>Bytewise prefixes of well-formed UTF-8 are prefixes of the characters.\<close>

lemma starts_with_utf8: "well_formed p \<Longrightarrow> well_formed s \<Longrightarrow> starts_with (utf8 p) (utf8 s) \<longleftrightarrow> starts_with p s"
proof (induction p arbitrary: s)
  case (Cons c p)
  have c: "is_scalar c" "well_formed p" using Cons.prems(1) by (simp_all add: well_formed_def)
  show ?case
  proof (cases s)
    case Nil
    have "utf8_char c \<noteq> []" by simp
    then show ?thesis using Nil by (cases "utf8_char c") (simp_all add: starts_with_append)
  next
    case (Cons d s')
    have d: "is_scalar d" "well_formed s'" using Cons.prems Cons \<open>well_formed s\<close> by (simp_all add: well_formed_def)
    have "starts_with (utf8 (c # p)) (utf8 s) \<longleftrightarrow> c = d \<and> starts_with (utf8 p) (utf8 s')"
    proof
      assume "starts_with (utf8 (c # p)) (utf8 s)"
      then obtain r where "utf8 s = utf8 (c # p) @ r" by (auto simp only: starts_with_append)
      then have r: "utf8_char d @ utf8 s' = utf8_char c @ utf8 p @ r" using Cons by simp
      have "Some (d, utf8 s') = utf8_next (utf8_char d @ utf8 s')" by (simp only: utf8_next_complete [OF d(1)])
      also have "\<dots> = utf8_next (utf8_char c @ utf8 p @ r)" by (simp only: r)
      also have "\<dots> = Some (c, utf8 p @ r)" by (simp only: utf8_next_complete [OF c(1)])
      finally have "c = d" and "utf8 s' = utf8 p @ r" by simp_all
      then show "c = d \<and> starts_with (utf8 p) (utf8 s')" unfolding starts_with_append by blast
    next
      assume a: "c = d \<and> starts_with (utf8 p) (utf8 s')"
      then obtain r where "utf8 s' = utf8 p @ r" by (auto simp only: starts_with_append)
      then have "utf8 s = utf8 (c # p) @ r" using a Cons by simp
      then show "starts_with (utf8 (c # p)) (utf8 s)" unfolding starts_with_append by blast
    qed
    then show ?thesis using Cons.IH [OF c(2) d(2)] Cons by simp
  qed
qed simp

definition key_text :: "externals \<Rightarrow> mdict_file \<Rightarrow> rstring list \<Rightarrow> nat \<Rightarrow> bytes" where
  "key_text X f keys n = utf8 (normal_form X (mf_normalizer f) (keys ! n))"

text \<open>The ordinals whose normalized key starts with the normalized prefix, in the order of their
  normalized keys and then of the ordinals.\<close>

definition prefix_order :: "externals \<Rightarrow> mdict_file \<Rightarrow> rstring list \<Rightarrow> rstring \<Rightarrow> nat list \<Rightarrow> bool" where
  "prefix_order X f keys prefix ns \<longleftrightarrow> distinct ns \<and>
     set ns = {n. n < length keys \<and>
        starts_with (normal_form X (mf_normalizer f) prefix) (normal_form X (mf_normalizer f) (keys ! n))} \<and>
     sorted (map (\<lambda>n. (key_text X f keys n, n)) ns)"

lemma locator_key_text:
  "file_ok X f \<Longrightarrow> locator_rows X f l rows \<Longrightarrow> n < mf_len f \<Longrightarrow> kl_row l n = key_text X f (map row_key rows) n"
  using locator_row [of X f l rows n] by (simp add: key_text_def row_bytes_def locator_rows_def)

lemma prefix_rows_order:
  assumes ok: "file_ok X f" and l: "locator_rows X f l rows" and q: "well_formed prefix"
  shows "\<exists>ns. prefix_order X f (map row_key rows) prefix ns \<and>
    prefix_rows (kl_row l) (kl_order l) (utf8 (normal_form X (mf_normalizer f) prefix)) limit = take limit ns"
proof -
  let ?p = "utf8 (normal_form X (mf_normalizer f) prefix)" and ?ks = "map row_key rows"
  let ?ns = "filter (\<lambda>r. starts_with ?p (kl_row l r)) (kl_order l)"
  have s: "locator_sorted l" and c: "kl_row_count l = mf_len f" using locator_rows_sorted [OF l] by simp_all
  have len: "length ?ks = mf_len f" using l by (simp add: locator_rows_def)
  have X: "externals_ok X" using ok by (simp add: file_ok_def)
  have kt: "kl_row l n = key_text X f ?ks n" if "n < mf_len f" for n by (rule locator_key_text [OF ok l that])
  have st: "starts_with ?p (kl_row l n) \<longleftrightarrow>
      starts_with (normal_form X (mf_normalizer f) prefix) (normal_form X (mf_normalizer f) (?ks ! n))"
    if "n < mf_len f" for n
    unfolding kt [OF that] key_text_def
    by (rule starts_with_utf8)
      (use that len file_keys_well_formed [OF ok locator_file_keys [OF l], of n] q normal_form_well_formed [OF X] in auto)
  have set: "set (kl_order l) = {0..<mf_len f}" using locator_index.order_set [OF s] c by simp
  have "distinct (kl_order l)"
    using locator_index.order_rows [OF s] by (metis distinct_upt mset_eq_imp_distinct_iff)
  moreover have "set ?ns = {n. n < length ?ks \<and>
        starts_with (normal_form X (mf_normalizer f) prefix) (normal_form X (mf_normalizer f) (?ks ! n))}"
    using st len by (auto simp: set)
  moreover have "sorted (map (\<lambda>n. (key_text X f ?ks n, n)) ?ns)"
  proof -
    have "map (\<lambda>n. (key_text X f ?ks n, n)) ?ns = map (\<lambda>n. (kl_row l n, n)) ?ns"
      by (rule map_cong) (use kt set in auto)
    then show ?thesis using sorted_filter [OF locator_index.order_sorted [OF s]] by (simp only:)
  qed
  ultimately have "prefix_order X f ?ks prefix ?ns" by (simp add: prefix_order_def)
  then show ?thesis using locator_index.prefix_rows_eq [OF s] by blast
qed

lemma locate_prefix_keeps:
  assumes ok: "file_ok X f" and q: "well_formed prefix"
  shows "keeps (keys_inv X f RP (locator_cache_ok X f)) (locate_prefix X f prefix limit)
    (\<lambda>r. limit = 0 \<and> r = [] \<or>
       (\<exists>keys ns. file_keys X f keys \<and> prefix_order X f keys prefix ns \<and> r = take limit ns))"
  unfolding locate_prefix_def Let_def
proof (rule runs_if)
  assume "limit = 0"
  then show "keeps (keys_inv X f RP (locator_cache_ok X f)) (oret []) (\<lambda>r. limit = 0 \<and> r = [] \<or>
       (\<exists>keys ns. file_keys X f keys \<and> prefix_order X f keys prefix ns \<and> r = take limit ns))"
    by (intro runs_lift) simp
next
  show "keeps (keys_inv X f RP (locator_cache_ok X f)) (obind (key_locator_of X f) (\<lambda>l.
      with_normalized X f prefix (\<lambda>normalized.
       otry (try_reserve_vec 8 0 (length (prefix_rows (kl_row l) (kl_order l) normalized limit))
               ''prefix locator matches'') (\<lambda>_. oret (prefix_rows (kl_row l) (kl_order l) normalized limit)))))
    (\<lambda>r. limit = 0 \<and> r = [] \<or>
       (\<exists>keys ns. file_keys X f keys \<and> prefix_order X f keys prefix ns \<and> r = take limit ns))"
  proof (rule runs_bind [OF key_locator_keeps [OF ok]], rule with_normalized_runs, rule runs_try, rule runs_lift,
      rule disjI2)
    fix l u x assume "locator_ok X f l" and x: "(Inr (prefix_rows (kl_row l) (kl_order l)
      (utf8 (normal_form X (mf_normalizer f) prefix)) limit) :: nat list result) = Inr x"
    then obtain rows where l: "locator_rows X f l rows" by (auto simp: locator_ok_def)
    from prefix_rows_order [OF ok l q, of limit] x locator_file_keys [OF l]
    show "\<exists>keys ns. file_keys X f keys \<and> prefix_order X f keys prefix ns \<and> x = take limit ns" by auto
  qed
qed

text \<open>A visitor run over rows and their texts until it stops.\<close>

fun visit_texts :: "('s \<Rightarrow> nat \<Rightarrow> bytes \<Rightarrow> 's \<times> bool) \<Rightarrow> 's \<Rightarrow> (nat \<times> bytes) list \<Rightarrow> 's" where
  "visit_texts visit s [] = s"
| "visit_texts visit s ((n, t) # rows) =
     (case visit s n t of (s', stop) \<Rightarrow> if stop then s' else visit_texts visit s' rows)"

lemma scan_rows_texts:
  "\<forall>n \<in> set ns. kl_row l n = g n \<Longrightarrow> scan_rows l visit s ns = visit_texts visit s (map (\<lambda>n. (n, g n)) ns)"
  by (induction ns arbitrary: s) (auto split: prod.splits)

lemma scan_normalized_keys_keeps:
  assumes ok: "file_ok X f"
  shows "keeps (keys_inv X f RP (locator_cache_ok X f)) (scan_normalized_keys X f visit s)
    (\<lambda>r. \<exists>keys. file_keys X f keys \<and>
       r = visit_texts visit s (map (\<lambda>n. (n, key_text X f keys n)) [0..<length keys]))"
  unfolding scan_normalized_keys_def
proof (rule runs_bind [OF key_locator_keeps [OF ok]], rule runs_lift)
  fix l x assume "locator_ok X f l" and x: "Inr (scan_rows l visit s [0..<kl_row_count l]) = (Inr x :: 'a result)"
  then obtain rows where l: "locator_rows X f l rows" by (auto simp: locator_ok_def)
  have len: "length (map row_key rows) = mf_len f" using l by (simp add: locator_rows_def)
  have "scan_rows l visit s [0..<kl_row_count l] =
      visit_texts visit s (map (\<lambda>n. (n, key_text X f (map row_key rows) n)) [0..<length (map row_key rows)])"
    unfolding len using locator_rows_sorted [OF l] locator_key_text [OF ok l]
    by (auto intro!: scan_rows_texts)
  then show "\<exists>keys. file_keys X f keys \<and>
       x = visit_texts visit s (map (\<lambda>n. (n, key_text X f keys n)) [0..<length keys])"
    using x locator_file_keys [OF l] by auto
qed

end
