(* ===== verification/Iter.thy ===== *)
theory Iter
  imports Locator_Queries
begin

text \<open>
  The iterators of an open file (\<^verbatim>\<open>src/src/core/iter.rs\<close>): \<open>KeyIter\<close> and \<open>RecordIter\<close>
  walk the key blocks with a block index, an entry index and the current block. \<open>iter_seek\<close> is
  the part of their loops they share. \<open>iter_at\<close> says that an iterator stands before an ordinal;
  the lemmas show that each step yields that ordinal's key or record and moves to the next, so that
  draining an iterator lists the file in order. Here an iterator is used on its own, so that its
  current block is the cached one; \<open>Session\<close> interleaves it with other calls.
\<close>

record block_iter =
  it_block :: nat
  it_entry :: nat
  it_current :: "decoded_key_row list option"
  it_done :: bool

definition iter_new :: block_iter where
  "iter_new = \<lparr>it_block = 0, it_entry = 0, it_current = None, it_done = False\<rparr>"

text \<open>The loop up to the entry it yields: the end of the file, an error, or a current block that
  has an entry left.\<close>

function iter_seek ::
    "externals \<Rightarrow> mdict_file \<Rightarrow> block_iter \<Rightarrow> file_state \<Rightarrow>
     (decoded_key_row list option result \<times> block_iter) \<times> file_state" where
  "iter_seek X f it st =
     (if key_block_count f \<le> it_block it then ((Inr None, it\<lparr>it_done := True\<rparr>), st)
      else
      case it_current it of
        Some entries \<Rightarrow>
          if length entries \<le> it_entry it
          then iter_seek X f (it\<lparr>it_block := it_block it + 1, it_current := None\<rparr>) st
          else ((Inr (Some entries), it), st)
      | None \<Rightarrow>
          (case decode_key_block X f (it_block it) st of
             (Inl e, st') \<Rightarrow> ((Inl e, it\<lparr>it_done := True\<rparr>), st')
           | (Inr b, st') \<Rightarrow>
               if dkb_entries b = []
               then iter_seek X f (it\<lparr>it_block := it_block it + 1, it_entry := 0, it_current := None\<rparr>) st'
               else ((Inr (Some (dkb_entries b)), it\<lparr>it_entry := 0, it_current := Some (dkb_entries b)\<rparr>), st')))"
  by pat_completeness auto
termination
  by (relation "measure (\<lambda>(_, f, it, _). key_block_count f - it_block it)") auto

declare iter_seek.simps [simp del]

definition key_iter_next ::
    "externals \<Rightarrow> mdict_file \<Rightarrow> block_iter \<Rightarrow> file_state \<Rightarrow> (key_entry result option \<times> block_iter) \<times> file_state" where
  "key_iter_next X f it st =
     (if it_done it then ((None, it), st)
      else
      case iter_seek X f it st of
        ((Inl e, it'), st') \<Rightarrow> ((Some (Inl e), it'), st')
      | ((Inr None, it'), st') \<Rightarrow> ((None, it'), st')
      | ((Inr (Some entries), it'), st') \<Rightarrow>
          (let block = vl_key_blocks (mf_layout f) ! it_block it';
               result = and_then (ok_or (checked_add (kb_entry_start_index block) (it_entry it'))
                          (InvalidFormat ''key ordinal overflow'')) (\<lambda>ordinal.
                        Inr \<lparr>ke_ordinal = ordinal, ke_key = row_key (entries ! it_entry it')\<rparr>)
           in ((Some result, it'\<lparr>it_entry := it_entry it' + 1, it_done := (case result of Inl _ \<Rightarrow> True | _ \<Rightarrow> False)\<rparr>), st')))"

definition record_iter_next ::
    "externals \<Rightarrow> mdict_file \<Rightarrow> block_iter \<Rightarrow> file_state \<Rightarrow>
     (record_descriptor result option \<times> block_iter) \<times> file_state" where
  "record_iter_next X f it st =
     (if it_done it then ((None, it), st)
      else
      case iter_seek X f it st of
        ((Inl e, it'), st') \<Rightarrow> ((Some (Inl e), it'), st')
      | ((Inr None, it'), st') \<Rightarrow> ((None, it'), st')
      | ((Inr (Some entries), it'), st') \<Rightarrow>
          (case record_descriptor_from_hit X f
                  \<lparr>kbh_block_index = it_block it', kbh_entry_index = it_entry it', kbh_entries = entries\<rparr> st' of
             (result, st'') \<Rightarrow>
               (let moved = (if it_entry it' + 1 = length entries
                             then it'\<lparr>it_block := it_block it' + 1, it_entry := 0, it_current := None\<rparr>
                             else it'\<lparr>it_entry := it_entry it' + 1\<rparr>)
                in ((Some result, moved\<lparr>it_done := (case result of Inl _ \<Rightarrow> True | _ \<Rightarrow> False)\<rparr>), st''))))"

text \<open>\<open>collect\<close> into a \<open>Result<Vec<_>>\<close>, for at most \<open>k\<close> items.\<close>

fun collect ::
    "('i \<Rightarrow> file_state \<Rightarrow> ('a result option \<times> 'i) \<times> file_state) \<Rightarrow> nat \<Rightarrow> 'i \<Rightarrow> 'a list op" where
  "collect next 0 it st = (Inr [], st)"
| "collect next (Suc k) it st =
     (case next it st of
        ((None, _), st') \<Rightarrow> (Inr [], st')
      | ((Some (Inl e), _), st') \<Rightarrow> (Inl e, st')
      | ((Some (Inr x), it'), st') \<Rightarrow>
          (case collect next k it' st' of (Inl e, st'') \<Rightarrow> (Inl e, st'') | (Inr xs, st'') \<Rightarrow> (Inr (x # xs), st'')))"

section \<open>Positions\<close>

text \<open>Where block \<open>i\<close> of the file starts, the end of the file for \<open>i\<close> past the last block.\<close>

definition block_start :: "mdict_file \<Rightarrow> nat \<Rightarrow> nat" where
  "block_start f i = (if i < key_block_count f then kb_entry_start_index (vl_key_blocks (mf_layout f) ! i) else mf_len f)"

definition iter_at :: "externals \<Rightarrow> mdict_file \<Rightarrow> nat \<Rightarrow> block_iter \<Rightarrow> bool" where
  "iter_at X f n it \<longleftrightarrow> \<not> it_done it \<and> it_block it \<le> key_block_count f \<and>
     (case it_current it of
        None \<Rightarrow> n = block_start f (it_block it)
      | Some rows \<Rightarrow> key_block_decodes X f (it_block it) rows \<and> it_entry it \<le> length rows \<and>
          n = block_start f (it_block it) + it_entry it)"

lemma block_start_Suc:
  assumes ok: "file_ok X f" and d: "key_block_decodes X f i rows"
  shows "block_start f (Suc i) = block_start f i + length rows"
proof -
  note kb = key_block_decodes_ok [OF ok d]
  show ?thesis
  proof (cases "Suc i < key_block_count f")
    case True
    then show ?thesis using tiles_nth_Suc [OF key_tiles [OF ok], of i] kb(1,2)
      by (simp add: block_start_def key_block_count_def)
  next
    case False
    then have "Suc i = key_block_count f" using kb(1) by simp
    then show ?thesis using tiles_last [OF key_tiles [OF ok], of i] kb(1,2)
      by (simp add: block_start_def key_block_count_def)
  qed
qed

lemma iter_new_at:
  assumes ok: "file_ok X f" shows "iter_at X f 0 iter_new"
  using key_tiles [OF ok]
  by (cases "vl_key_blocks (mf_layout f)") (auto simp: iter_at_def iter_new_def block_start_def key_block_count_def)

text \<open>A position that has an entry: its ordinal is below the length of the file.\<close>

lemma iter_at_entry:
  assumes ok: "file_ok X f" and d: "key_block_decodes X f i rows" and j: "j < length rows"
  shows "block_start f i + j < mf_len f" and "hit_ok X f (block_start f i + j)
      \<lparr>kbh_block_index = i, kbh_entry_index = j, kbh_entries = rows\<rparr>"
proof -
  note kb = key_block_decodes_ok [OF ok d]
  show "block_start f i + j < mf_len f"
    using tiles_end_le(2) [OF key_tiles [OF ok], of i] kb(1,2) j by (simp add: block_start_def key_block_count_def)
  show "hit_ok X f (block_start f i + j) \<lparr>kbh_block_index = i, kbh_entry_index = j, kbh_entries = rows\<rparr>"
    using kb(1) d j by (simp add: hit_ok_def block_start_def)
qed

lemma iter_seek_keeps:
  assumes ok: "file_ok X f"
  shows "keys_inv X f RP LP base st \<Longrightarrow> iter_at X f n it \<Longrightarrow> iter_seek X f it st = ((r, it'), st') \<Longrightarrow>
    keys_inv X f RP LP base st' \<and>
    (case r of
       Inl e \<Rightarrow> it_done it'
     | Inr None \<Rightarrow> n = mf_len f \<and> it_done it'
     | Inr (Some rows) \<Rightarrow> iter_at X f n it' \<and> it_current it' = Some rows \<and> it_entry it' < length rows)"
  using ok
proof (induction X f it st rule: iter_seek.induct)
  case (1 X f it st)
  note at = "1.prems"(2)
  show ?case
  proof (cases "key_block_count f \<le> it_block it")
    case True
    then have b: "it_block it = key_block_count f" using at by (simp add: iter_at_def)
    then have "it_current it = None"
      using at key_block_decodes_ok(1) [OF "1.prems"(4)] by (cases "it_current it") (auto simp: iter_at_def)
    then show ?thesis using at True b "1.prems"(1,3)
      by (auto simp: iter_seek.simps [of X f it st] iter_at_def block_start_def)
  next
    case False
    show ?thesis
    proof (cases "it_current it")
      case (Some rows)
      have d: "key_block_decodes X f (it_block it) rows" using at Some by (simp add: iter_at_def)
      show ?thesis
      proof (cases "length rows \<le> it_entry it")
        case True
        let ?it = "it\<lparr>it_block := it_block it + 1, it_current := None\<rparr>"
        have "iter_at X f n ?it"
          using at Some True False block_start_Suc [OF "1.prems"(4) d] by (auto simp: iter_at_def)
        moreover have "iter_seek X f ?it st = ((r, it'), st')"
          using "1.prems"(3) False Some True by (simp add: iter_seek.simps [of X f it st])
        ultimately show ?thesis using "1.IH"(2) [OF False Some True "1.prems"(1)] "1.prems"(4) by blast
      next
        case no: False
        then show ?thesis using "1.prems" False Some by (auto simp: iter_seek.simps [of X f it st])
      qed
    next
      case None
      obtain r1 st1 where dk: "decode_key_block X f (it_block it) st = (r1, st1)"
        by (cases "decode_key_block X f (it_block it) st")
      note kd = runsD [OF decode_key_block_keeps "1.prems"(1) dk]
      show ?thesis
      proof (cases r1)
        case (Inl e)
        then show ?thesis using "1.prems"(3) False None dk kd by (auto simp: iter_seek.simps [of X f it st])
      next
        case (Inr b)
        then have d: "key_block_decodes X f (it_block it) (dkb_entries b)" and i: "keys_inv X f RP LP base st1"
          using kd by simp_all
        have ne: "dkb_entries b \<noteq> []" by (rule key_block_decodes_ok(3) [OF "1.prems"(4) d])
        then show ?thesis
          using "1.prems"(3) at False None dk Inr d i by (auto simp: iter_seek.simps [of X f it st] iter_at_def)
      qed
    qed
  qed
qed

section \<open>Steps\<close>

text \<open>A step from position \<open>n\<close> that yields \<open>A n\<close>.\<close>

definition steps ::
    "(nat \<Rightarrow> file_state \<Rightarrow> bool) \<Rightarrow> (nat \<Rightarrow> 'i \<Rightarrow> bool) \<Rightarrow> nat \<Rightarrow> (nat \<Rightarrow> 'a \<Rightarrow> bool) \<Rightarrow>
     ('i \<Rightarrow> file_state \<Rightarrow> ('a result option \<times> 'i) \<times> file_state) \<Rightarrow> bool" where
  "steps I at len A next \<longleftrightarrow> (\<forall>base st n it r it' st'. I base st \<longrightarrow> at n it \<longrightarrow> next it st = ((r, it'), st') \<longrightarrow>
     I base st' \<and>
     (case r of None \<Rightarrow> n = len | Some (Inl e) \<Rightarrow> True | Some (Inr x) \<Rightarrow> n < len \<and> A n x \<and> at (Suc n) it'))"

lemma stepsI:
  assumes "\<And>base st n it r it' st'. I base st \<Longrightarrow> at n it \<Longrightarrow> next it st = ((r, it'), st') \<Longrightarrow>
     I base st' \<and>
     (case r of None \<Rightarrow> n = len | Some (Inl e) \<Rightarrow> True | Some (Inr x) \<Rightarrow> n < len \<and> A n x \<and> at (Suc n) it')"
  shows "steps I at len A next"
  using assms unfolding steps_def by blast

lemma collect_steps:
  assumes s: "steps I at len A next"
  shows "I base st \<Longrightarrow> at n it \<Longrightarrow> n \<le> len \<Longrightarrow> collect next k it st = (r, st') \<Longrightarrow>
    I base st' \<and>
    (case r of Inl e \<Rightarrow> True
     | Inr xs \<Rightarrow> length xs = min k (len - n) \<and> (\<forall>i < length xs. A (n + i) (xs ! i)))"
proof (induction k arbitrary: n it st r st')
  case (Suc k)
  obtain r1 it1 st1 where c: "next it st = ((r1, it1), st1)" by (cases "next it st") auto
  have step: "I base st1 \<and> (case r1 of None \<Rightarrow> n = len | Some (Inl e) \<Rightarrow> True
      | Some (Inr x) \<Rightarrow> n < len \<and> A n x \<and> at (Suc n) it1)"
    using s Suc.prems(1,2) c unfolding steps_def by blast
  show ?case
  proof (cases r1)
    case None
    then show ?thesis using Suc.prems(4) c step by auto
  next
    case (Some q)
    show ?thesis
    proof (cases q)
      case (Inl e)
      then show ?thesis using Suc.prems(4) c step Some by auto
    next
      case (Inr x)
      obtain r2 st2 where c2: "collect next k it1 st1 = (r2, st2)" by (cases "collect next k it1 st1")
      have n: "n < len" "A n x" "at (Suc n) it1" "I base st1" using step Some Inr by simp_all
      note ih = Suc.IH [OF n(4,3) Suc_leI [OF n(1)] c2]
      show ?thesis
      proof (cases r2)
        case (Inl e)
        then have "r = Inl e" "st' = st2" using Suc.prems(4) c c2 Some Inr by simp_all
        then show ?thesis using ih by simp
      next
        case xs: (Inr xs)
        have "A (n + i) ((x # xs) ! i)" if "i < length (x # xs)" for i
          using that ih xs n(2) by (cases i) auto
        then show ?thesis using Suc.prems(4) c c2 Some Inr ih xs n(1) by auto
      qed
    qed
  qed
qed auto

lemma key_iter_steps:
  assumes ok: "file_ok X f"
  shows "steps (keys_inv X f RP LP) (iter_at X f) (mf_len f) (\<lambda>n e. key_answer X f n (Some e)) (key_iter_next X f)"
proof (rule stepsI)
  fix base st n it r it' st'
  assume i: "keys_inv X f RP LP base st" and at: "iter_at X f n it" and run: "key_iter_next X f it st = ((r, it'), st')"
  have nd: "\<not> it_done it" using at by (simp add: iter_at_def)
  obtain q it1 st1 where sk: "iter_seek X f it st = ((q, it1), st1)" by (cases "iter_seek X f it st") auto
  note seek = iter_seek_keeps [OF ok i at sk]
  have small: "mf_len f \<le> u64_max" using file_ok_layout [OF ok] by (simp add: layout_ok_def mf_len_def)
  show "keys_inv X f RP LP base st' \<and> (case r of None \<Rightarrow> n = mf_len f | Some (Inl e) \<Rightarrow> True
     | Some (Inr x) \<Rightarrow> n < mf_len f \<and> key_answer X f n (Some x) \<and> iter_at X f (Suc n) it')"
  proof (cases q)
    case (Inl e)
    then show ?thesis using run nd sk Inl seek by (auto simp: key_iter_next_def)
  next
    case (Inr p)
    show ?thesis
    proof (cases p)
      case None
      then show ?thesis using run nd sk Inr seek by (auto simp: key_iter_next_def)
    next
      case (Some rows)
      then have s: "iter_at X f n it1" "it_current it1 = Some rows" "it_entry it1 < length rows"
        "keys_inv X f RP LP base st1" using seek Inr by simp_all
      have d: "key_block_decodes X f (it_block it1) rows" and n: "n = block_start f (it_block it1) + it_entry it1"
        using s(1,2) by (simp_all add: iter_at_def)
      note e = iter_at_entry [OF ok d s(3)]
      have b: "it_block it1 < key_block_count f" by (rule key_block_decodes_ok(1) [OF ok d])
      have start: "kb_entry_start_index (vl_key_blocks (mf_layout f) ! it_block it1) = block_start f (it_block it1)"
        using b by (simp add: block_start_def)
      have row: "key_row_at X f n (rows ! it_entry it1)"
        using e(2) hit_row [of X f "\<lparr>kbh_block_index = it_block it1, kbh_entry_index = it_entry it1, kbh_entries = rows\<rparr>" n]
        by (simp add: hit_ok_def row_of_hit_def n)
      have le: "n \<le> u64_max" using e(1) n small by simp
      have "r = Some (Inr \<lparr>ke_ordinal = n, ke_key = row_key (rows ! it_entry it1)\<rparr>)"
        and "it' = it1\<lparr>it_entry := it_entry it1 + 1, it_done := False\<rparr>" and "st' = st1"
        using run nd sk Inr Some le by (auto simp: key_iter_next_def Let_def start n [symmetric] checked_add_def)
      then show ?thesis
        using s e(1) n row d b by (auto simp: key_answer_def iter_at_def)
    qed
  qed
qed


lemma record_iter_steps:
  assumes ok: "file_ok X f"
  shows "steps (keys_inv X f RP LP) (iter_at X f) (mf_len f) (record_answer X f) (record_iter_next X f)"
proof (rule stepsI)
  fix base st n it r it' st'
  assume i: "keys_inv X f RP LP base st" and at: "iter_at X f n it" and run: "record_iter_next X f it st = ((r, it'), st')"
  have nd: "\<not> it_done it" using at by (simp add: iter_at_def)
  obtain q it1 st1 where sk: "iter_seek X f it st = ((q, it1), st1)" by (cases "iter_seek X f it st") auto
  note seek = iter_seek_keeps [OF ok i at sk]
  show "keys_inv X f RP LP base st' \<and> (case r of None \<Rightarrow> n = mf_len f | Some (Inl e) \<Rightarrow> True
     | Some (Inr x) \<Rightarrow> n < mf_len f \<and> record_answer X f n x \<and> iter_at X f (Suc n) it')"
  proof (cases q)
    case (Inl e)
    then show ?thesis using run nd sk seek by (auto simp: record_iter_next_def)
  next
    case (Inr p)
    show ?thesis
    proof (cases p)
      case None
      then show ?thesis using run nd sk Inr seek by (auto simp: record_iter_next_def)
    next
      case (Some rows)
      let ?h = "\<lparr>kbh_block_index = it_block it1, kbh_entry_index = it_entry it1, kbh_entries = rows\<rparr>"
      have s: "iter_at X f n it1" "it_current it1 = Some rows" "it_entry it1 < length rows"
        "keys_inv X f RP LP base st1" using seek Inr Some by simp_all
      have d: "key_block_decodes X f (it_block it1) rows" and n: "n = block_start f (it_block it1) + it_entry it1"
        using s(1,2) by (simp_all add: iter_at_def)
      note e = iter_at_entry [OF ok d s(3)]
      have b: "it_block it1 < key_block_count f" by (rule key_block_decodes_ok(1) [OF ok d])
      obtain res st2 where rd: "record_descriptor_from_hit X f ?h st1 = (res, st2)"
        by (cases "record_descriptor_from_hit X f ?h st1")
      note kd = runsD [OF record_descriptor_keeps [OF ok e(2)] s(4) rd]
      show ?thesis
      proof (cases res)
        case (Inl x)
        then show ?thesis using run nd sk Inr Some rd kd by (auto simp: record_iter_next_def Let_def)
      next
        case ans: (Inr x)
        then have "record_answer X f n x" and "keys_inv X f RP LP base st2" using kd n by simp_all
        moreover have "iter_at X f (Suc n) it'"
          using run nd sk Inr Some rd ans s d b n block_start_Suc [OF ok d]
          by (auto simp: record_iter_next_def Let_def iter_at_def)
        moreover have "r = Some (Inr x)" and "st' = st2"
          using run nd sk Inr Some rd ans by (simp_all add: record_iter_next_def Let_def)
        ultimately show ?thesis using e(1) n by simp
      qed
    qed
  qed
qed

text \<open>Draining an iterator: what it lists is the file, in order, whole; one item more than the
  length of the file is enough for the loop to have ended.\<close>

lemma drained:
  assumes at: "at 0 it" and s: "steps I at len A next"
    and i: "I base st" and run: "collect next (Suc len) it st = (r, st')"
  shows "I base st' \<and> (case r of Inl e \<Rightarrow> True
      | Inr xs \<Rightarrow> length xs = len \<and> (\<forall>n < len. A n (xs ! n)))"
  using collect_steps [OF s i at _ run] by (auto split: sum.splits)

text \<open>After an error an iterator yields nothing more.\<close>

lemma iter_fused:
  assumes "key_iter_next X f it st = ((Some (Inl e), it'), st')"
  shows "key_iter_next X f it' st2 = ((None, it'), st2)"
proof -
  have seek: "iter_seek X f it st = ((Inl e, it'), st') \<Longrightarrow> it_done it'" for it st
  proof (induction X f it st rule: iter_seek.induct)
    case (1 X f it st)
    then show ?case
      by (subst (asm) (3) iter_seek.simps) (auto split: if_splits option.splits sum.splits prod.splits)
  qed
  show ?thesis
    using assms seek
    by (auto simp: key_iter_next_def Let_def split: if_splits option.splits sum.splits prod.splits)
qed

section \<open>Iterators of the facades\<close>

text \<open>\<open>MdxEntryIter\<close> and \<open>MddResourceIter\<close> (\<^verbatim>\<open>src/src/mdx.rs\<close>,
  \<^verbatim>\<open>src/src/mdd.rs\<close>) are the same loop: the record iterator, a flag of its own, and what is
  read of each record.\<close>

record facade_iter =
  fi_records :: block_iter
  fi_done :: bool

definition facade_iter_new :: facade_iter where
  "facade_iter_new = \<lparr>fi_records = iter_new, fi_done = False\<rparr>"

definition facade_next ::
    "externals \<Rightarrow> mdict_file \<Rightarrow> (record_descriptor \<Rightarrow> 'a op) \<Rightarrow> facade_iter \<Rightarrow> file_state \<Rightarrow>
     ('a result option \<times> facade_iter) \<times> file_state" where
  "facade_next X f read it st =
     (if fi_done it then ((None, it), st)
      else
      case record_iter_next X f (fi_records it) st of
        ((None, records), st') \<Rightarrow> ((None, it\<lparr>fi_records := records\<rparr>), st')
      | ((Some (Inl e), records), st') \<Rightarrow> ((Some (Inl e), \<lparr>fi_records = records, fi_done = True\<rparr>), st')
      | ((Some (Inr d), records), st') \<Rightarrow>
          (case read d st' of
             (Inl e, st'') \<Rightarrow> ((Some (Inl e), \<lparr>fi_records = records, fi_done = True\<rparr>), st'')
           | (Inr x, st'') \<Rightarrow> ((Some (Inr x), it\<lparr>fi_records := records\<rparr>), st'')))"

definition facade_at :: "externals \<Rightarrow> mdict_file \<Rightarrow> nat \<Rightarrow> facade_iter \<Rightarrow> bool" where
  "facade_at X f n it \<longleftrightarrow> \<not> fi_done it \<and> iter_at X f n (fi_records it)"

lemma facade_new_at: "file_ok X f \<Longrightarrow> facade_at X f 0 facade_iter_new"
  by (simp add: facade_at_def facade_iter_new_def iter_new_at)

lemma facade_steps:
  assumes ok: "file_ok X f" and rd: "\<And>d. keeps (keys_inv X f RP LP) (read d) (Q d)"
  shows "steps (keys_inv X f RP LP) (facade_at X f) (mf_len f) (\<lambda>n x. \<exists>d. record_answer X f n d \<and> Q d x)
    (facade_next X f read)"
proof (rule stepsI)
  fix base st n it r it' st'
  assume i: "keys_inv X f RP LP base st" and at: "facade_at X f n it" and run: "facade_next X f read it st = ((r, it'), st')"
  obtain q records st1 where nx: "record_iter_next X f (fi_records it) st = ((q, records), st1)"
    by (cases "record_iter_next X f (fi_records it) st") auto
  have nd: "\<not> fi_done it" and at1: "iter_at X f n (fi_records it)" using at by (simp_all add: facade_at_def)
  have s: "keys_inv X f RP LP base st1 \<and> (case q of None \<Rightarrow> n = mf_len f | Some (Inl e) \<Rightarrow> True
      | Some (Inr d) \<Rightarrow> n < mf_len f \<and> record_answer X f n d \<and> iter_at X f (Suc n) records)"
    using record_iter_steps [OF ok, of RP LP] i at1 nx unfolding steps_def by blast
  show "keys_inv X f RP LP base st' \<and> (case r of None \<Rightarrow> n = mf_len f | Some (Inl e) \<Rightarrow> True
      | Some (Inr x) \<Rightarrow> n < mf_len f \<and> (\<exists>d. record_answer X f n d \<and> Q d x) \<and> facade_at X f (Suc n) it')"
  proof (cases q)
    case None
    then show ?thesis using run nd nx s by (auto simp: facade_next_def)
  next
    case (Some p)
    show ?thesis
    proof (cases p)
      case (Inl e)
      then show ?thesis using run nd nx s Some by (auto simp: facade_next_def)
    next
      case (Inr d)
      obtain r2 st2 where c: "read d st1 = (r2, st2)" by (cases "read d st1")
      have d: "n < mf_len f" "record_answer X f n d" "iter_at X f (Suc n) records" "keys_inv X f RP LP base st1"
        using s Some Inr by simp_all
      note k = runsD [OF rd d(4) c]
      show ?thesis using run nd nx Some Inr c k d by (cases r2) (auto simp: facade_next_def facade_at_def)
    qed
  qed
qed

end
