(* ===== verification/Case_Variants.thy ===== *)
theory Case_Variants
  imports Locator_Queries
begin

text \<open>
  Case-variant selection (\<^verbatim>\<open>src/src/core/case_variants.rs\<close>): within the normalized equal
  range of a query, the keys equal to it come first and the keys that differ from it only in case
  follow. Both index backends supply the candidates of the range through \<open>source_key\<close>. The first
  scan counts both classes and collects the part of the page that is exact; the second one fills
  the rest of the page from the variants. \<open>select_page_runs\<close> says that the page is the window of
  the two classes appended.
\<close>

definition equal_ignoring_case :: "externals \<Rightarrow> rstring \<Rightarrow> rstring \<Rightarrow> bool" where
  "equal_ignoring_case X left right \<longleftrightarrow>
     (if list_all is_ascii left \<and> list_all is_ascii right
      then map to_ascii_lowercase left = map to_ascii_lowercase right
      else concat (map (ext_to_lowercase X) left) = concat (map (ext_to_lowercase X) right))"

text \<open>The first scan: how many exact keys and how many variants, and the exact part of the page.\<close>

fun classify_scan ::
    "externals \<Rightarrow> (nat \<Rightarrow> ('s, nat \<times> key_entry) comp) \<Rightarrow> rstring \<Rightarrow> nat \<Rightarrow> nat \<Rightarrow> nat list \<Rightarrow> nat \<times> nat \<times> nat list \<Rightarrow>
     ('s, nat \<times> nat \<times> nat list) comp" where
  "classify_scan X source_key query off limit [] acc = oret acc"
| "classify_scan X source_key query off limit (position # positions) (exact_count, variant_count, ordinals) =
     obind (source_key position) (\<lambda>(ordinal, key).
     classify_scan X source_key query off limit positions
       (if ke_key key = query
        then (exact_count + 1, variant_count,
              if off \<le> exact_count \<and> length ordinals < limit then ordinals @ [ordinal] else ordinals)
        else if equal_ignoring_case X (ke_key key) query
        then (exact_count, variant_count + 1, ordinals)
        else (exact_count, variant_count, ordinals)))"

text \<open>The second scan, which stops when the page is full.\<close>

fun variant_scan ::
    "externals \<Rightarrow> (nat \<Rightarrow> ('s, nat \<times> key_entry) comp) \<Rightarrow> rstring \<Rightarrow> nat \<Rightarrow> nat \<Rightarrow> nat list \<Rightarrow> nat \<Rightarrow> nat list \<Rightarrow>
     ('s, nat list) comp" where
  "variant_scan X source_key query variant_offset wanted [] variant_position ordinals = oret ordinals"
| "variant_scan X source_key query variant_offset wanted (position # positions) variant_position ordinals =
     obind (source_key position) (\<lambda>(ordinal, key).
     if ke_key key \<noteq> query \<and> equal_ignoring_case X (ke_key key) query
     then
       (if variant_offset \<le> variant_position
        then
          (if length (ordinals @ [ordinal]) = wanted then oret (ordinals @ [ordinal])
           else variant_scan X source_key query variant_offset wanted positions (variant_position + 1)
                  (ordinals @ [ordinal]))
        else variant_scan X source_key query variant_offset wanted positions (variant_position + 1) ordinals)
     else variant_scan X source_key query variant_offset wanted positions variant_position ordinals)"

text \<open>A reservation moved into the result when there is one, and released otherwise.\<close>

definition oretained_some :: "nat \<Rightarrow> ('z file_state_scheme, 'a option) comp \<Rightarrow> ('z file_state_scheme, 'a option) comp" where
  "oretained_some n body =
     obind (oretained n body) (\<lambda>r st. (Inr r, if r = None then drop_bytes n st else st))"

definition select_page ::
    "externals \<Rightarrow> mdict_file \<Rightarrow> rstring \<Rightarrow> nat \<Rightarrow> nat \<Rightarrow> nat \<Rightarrow>
     (nat \<Rightarrow> ('z file_state_scheme, nat \<times> key_entry) comp) \<Rightarrow> ('z file_state_scheme, located_key_page option) comp" where
  "select_page X f query candidate_count off limit source_key =
     (let capacity = min limit (candidate_count - off) in
      otry (ok_or (checked_mul capacity 4) (InvalidFormat ''case-variant page size overflow'')) (\<lambda>bytes.
      otry (ensure_usize_limit ''key_match_page_bytes'' bytes (locator_bytes (mf_limits f))) (\<lambda>_.
      oretained_some bytes (
      otry (try_reserve_vec 4 0 capacity ''case-variant match page'') (\<lambda>_.
      obind (classify_scan X source_key query off limit [0..<candidate_count] (0, 0, []))
        (\<lambda>(exact_count, variant_count, ordinals).
      let total = exact_count + variant_count; wanted = min limit (total - off) in
      if total = 0 then oret None
      else
        obind (if length ordinals < wanted
               then variant_scan X source_key query (off - exact_count) wanted [0..<candidate_count] 0 ordinals
               else oret ordinals) (\<lambda>ordinals.
        oret (Some \<lparr>lkp_basis = (if variant_count = 0 then RawExact else CaseVariants),
                    lkp_total = total, lkp_ordinals = ordinals, lkp_memory = bytes\<rparr>))))))))"

definition locate_case_variants ::
    "externals \<Rightarrow> mdict_file \<Rightarrow> rstring \<Rightarrow> nat \<Rightarrow> nat \<Rightarrow> located_key_page option op" where
  "locate_case_variants X f query off limit =
     obind (key_locator_of X f) (\<lambda>l.
     with_normalized X f query (\<lambda>normalized.
     case equal_range l normalized of
       None \<Rightarrow> oret None
     | Some (start, stop) \<Rightarrow>
         select_page X f query (stop - start) off limit (\<lambda>position.
           otry (ok_or (get (kl_order l) (start + position))
                   (InvalidFormat ''case-variant range escaped locator'')) (\<lambda>ordinal.
           obind (key_at_ordinal X f ordinal) (\<lambda>key.
           otry (ok_or key (InvalidFormat ''case-variant row has no source key'')) (\<lambda>key.
           oret (ordinal, key))))))) "

section \<open>The two classes\<close>

definition exact_of :: "rstring \<Rightarrow> (nat \<times> rstring) list \<Rightarrow> nat list" where
  "exact_of query rows = map fst (filter (\<lambda>(_, k). k = query) rows)"

definition variants_of :: "externals \<Rightarrow> rstring \<Rightarrow> (nat \<times> rstring) list \<Rightarrow> nat list" where
  "variants_of X query rows = map fst (filter (\<lambda>(_, k). k \<noteq> query \<and> equal_ignoring_case X k query) rows)"

lemma classes_simps [simp]:
  "exact_of query [] = []"
  "variants_of X query [] = []"
  "exact_of query ((n, k) # rows) = (if k = query then n # exact_of query rows else exact_of query rows)"
  "variants_of X query ((n, k) # rows) =
     (if k \<noteq> query \<and> equal_ignoring_case X k query then n # variants_of X query rows
      else variants_of X query rows)"
  by (simp_all add: exact_of_def variants_of_def)

text \<open>What \<open>source_key\<close> supplies: the row at each position.\<close>

definition supplies :: "(nat \<Rightarrow> 's \<Rightarrow> bool) \<Rightarrow> (nat \<Rightarrow> ('s, nat \<times> key_entry) comp) \<Rightarrow> (nat \<times> rstring) list \<Rightarrow> bool" where
  "supplies I source_key rows \<longleftrightarrow>
     (\<forall>p < length rows. keeps I (source_key p) (\<lambda>(n, key). (n, ke_key key) = rows ! p))"

lemma supplies_keeps:
  "supplies I source_key rows \<Longrightarrow> p < length rows \<Longrightarrow>
     keeps I (source_key p) (\<lambda>(n, key). (n, ke_key key) = rows ! p)"
  by (simp add: supplies_def)

lemma classify_scan_keeps:
  assumes s: "supplies I source_key rows"
  shows "\<forall>p \<in> set ps. p < length rows \<Longrightarrow>
    keeps I (classify_scan X source_key query off limit ps (length found, v, window off limit found))
      (\<lambda>r. \<exists>all. all = found @ exact_of query (map ((!) rows) ps) \<and>
         r = (length all, v + length (variants_of X query (map ((!) rows) ps)), window off limit all))"
proof (induction ps arbitrary: found v)
  case Nil
  show ?case unfolding classify_scan.simps by (rule runs_lift) simp
next
  case (Cons p ps)
  have p: "p < length rows" using Cons.prems by simp
  show ?case
    unfolding classify_scan.simps
  proof (rule runs_bind [OF supplies_keeps [OF s p]])
    fix r :: "nat \<times> key_entry" assume r: "case r of (n, key) \<Rightarrow> (n, ke_key key) = rows ! p"
    obtain n key where nk: "r = (n, key)" by (cases r)
    have row: "rows ! p = (n, ke_key key)" using r nk by simp
    show "keeps I (case r of (ordinal, key) \<Rightarrow> classify_scan X source_key query off limit ps
       (if ke_key key = query
        then (length found + 1, v, if off \<le> length found \<and> length (window off limit found) < limit
                then window off limit found @ [ordinal] else window off limit found)
        else if equal_ignoring_case X (ke_key key) query then (length found, v + 1, window off limit found)
        else (length found, v, window off limit found)))
      (\<lambda>r. \<exists>all. all = found @ exact_of query (map ((!) rows) (p # ps)) \<and>
         r = (length all, v + length (variants_of X query (map ((!) rows) (p # ps))), window off limit all))"
      using Cons.IH [of "found @ [n]" v] Cons.IH [of found v] Cons.IH [of found "Suc v"] Cons.prems
      by (simp add: nk row window_snoc)
  qed
qed

text \<open>A window that is as long as that of a longer list is that window.\<close>

lemma window_full:
  assumes "length (window off limit xs) = min limit (length (xs @ ys) - off)"
  shows "window off limit (xs @ ys) = window off limit xs"
proof -
  have "limit \<le> length xs - off \<or> length (xs @ ys) - off = length xs - off"
    using assms by (auto simp: length_window min_def split: if_splits)
  then show ?thesis by (cases "ys = []") (auto simp: window_def)
qed

lemma variant_scan_keeps:
  assumes s: "supplies I source_key rows" and wanted: "wanted \<le> limit"
  shows "\<forall>p \<in> set ps. p < length rows \<Longrightarrow>
    wanted = min limit (length (exact @ seen @ variants_of X query (map ((!) rows) ps)) - off) \<Longrightarrow>
    length (window off limit (exact @ seen)) < wanted \<or> ps = [] \<Longrightarrow>
    keeps I (variant_scan X source_key query (off - length exact) wanted ps (length seen)
        (window off limit (exact @ seen)))
      (\<lambda>r. r = window off limit (exact @ seen @ variants_of X query (map ((!) rows) ps)))"
proof (induction ps arbitrary: seen)
  case Nil
  show ?case unfolding variant_scan.simps by (rule runs_lift) simp
next
  case (Cons p ps)
  have p: "p < length rows" using Cons.prems by simp
  let ?R = "\<lambda>r. r = window off limit (exact @ seen @ variants_of X query (map ((!) rows) (p # ps)))"
  show ?case
    unfolding variant_scan.simps
  proof (rule runs_bind [OF supplies_keeps [OF s p]])
    fix r :: "nat \<times> key_entry" assume r: "case r of (n, key) \<Rightarrow> (n, ke_key key) = rows ! p"
    obtain n key where nk: "r = (n, key)" by (cases r)
    have row: "rows ! p = (n, ke_key key)" using r nk by simp
    let ?w = "window off limit (exact @ seen)"
    let ?w' = "window off limit (exact @ seen @ [n])"
    have short: "length ?w < limit" using Cons.prems(3) wanted by simp
    have w': "?w' = (if off - length exact \<le> length seen then ?w @ [n] else ?w)"
      using short window_snoc [of off limit "exact @ seen" n] by (auto simp: le_diff_conv add.commute)
    have ih: "keeps I (variant_scan X source_key query (off - length exact) wanted ps (length (seen @ [n])) ?w')
        (\<lambda>r. r = window off limit (exact @ (seen @ [n]) @ variants_of X query (map ((!) rows) ps)))"
      if "ke_key key \<noteq> query" "equal_ignoring_case X (ke_key key) query" "length ?w' < wanted"
      using Cons.IH [of "seen @ [n]"] Cons.prems that row by simp
    show "keeps I (case r of (ordinal, key) \<Rightarrow>
       if ke_key key \<noteq> query \<and> equal_ignoring_case X (ke_key key) query then
         (if off - length exact \<le> length seen then
            (if length (?w @ [ordinal]) = wanted then oret (?w @ [ordinal])
             else variant_scan X source_key query (off - length exact) wanted ps (length seen + 1) (?w @ [ordinal]))
          else variant_scan X source_key query (off - length exact) wanted ps (length seen + 1) ?w)
       else variant_scan X source_key query (off - length exact) wanted ps (length seen) ?w) ?R"
      unfolding nk prod.case
    proof (rule runs_if, rule runs_if, rule runs_if)
      assume v: "ke_key key \<noteq> query \<and> equal_ignoring_case X (ke_key key) query"
        and o: "off - length exact \<le> length seen" and full: "length (?w @ [n]) = wanted"
      have "window off limit ((exact @ seen @ [n]) @ variants_of X query (map ((!) rows) ps)) = ?w'"
        by (rule window_full) (use full w' o v Cons.prems(2) row in simp)
      then show "keeps I (oret (?w @ [n])) ?R" using w' o v row by (intro runs_lift) simp
    next
      assume v: "ke_key key \<noteq> query \<and> equal_ignoring_case X (ke_key key) query"
        and o: "off - length exact \<le> length seen" and "length (?w @ [n]) \<noteq> wanted"
      then show "keeps I (variant_scan X source_key query (off - length exact) wanted ps (length seen + 1) (?w @ [n])) ?R"
        using ih w' Cons.prems(3) row by simp
    next
      assume v: "ke_key key \<noteq> query \<and> equal_ignoring_case X (ke_key key) query"
        and "\<not> off - length exact \<le> length seen"
      then show "keeps I (variant_scan X source_key query (off - length exact) wanted ps (length seen + 1) ?w) ?R"
        using ih w' Cons.prems(3) row by simp
    next
      assume v: "\<not> (ke_key key \<noteq> query \<and> equal_ignoring_case X (ke_key key) query)"
      then show "keeps I (variant_scan X source_key query (off - length exact) wanted ps (length seen) ?w) ?R"
        using Cons.IH [of seen] Cons.prems row by auto
    qed
  qed
qed

section \<open>The page\<close>

lemma runs_retained_some:
  assumes body: "keeps (file_inv E M KP RP LP) body Q"
  shows "runs (file_inv E M KP RP LP) (\<lambda>r. if r = None then 0 else n) (oretained_some n body) Q"
proof (rule runsI)
  fix base st r st' assume i: "file_inv E M KP RP LP base st" and run: "oretained_some n body st = (r, st')"
  obtain r1 st1 where c: "oretained n body st = (r1, st1)" by (cases "oretained n body st")
  note k = runsD [OF runs_retained [OF body] i c]
  show "case r of Inl e \<Rightarrow> file_inv E M KP RP LP base st'
    | Inr x \<Rightarrow> file_inv E M KP RP LP (base + (if x = None then 0 else n)) st' \<and> Q x"
  proof (cases r1)
    case (Inl e)
    then show ?thesis using run c k by (auto simp: oretained_some_def obind_def)
  next
    case (Inr x)
    then have "r = Inr x" and "st' = (if x = None then drop_bytes n st1 else st1)"
      using run c by (auto simp: oretained_some_def obind_def)
    then show ?thesis using k Inr drop_bytes_inv [of E M KP RP LP base n st1] by simp
  qed
qed

text \<open>The full answer: exact keys, then variants; it is \<open>CaseVariants\<close> as soon as there is a variant.\<close>

definition case_answer :: "externals \<Rightarrow> rstring \<Rightarrow> (nat \<times> rstring) list \<Rightarrow> locator_basis \<times> nat list" where
  "case_answer X query rows =
     (if variants_of X query rows = [] then RawExact else CaseVariants,
      exact_of query rows @ variants_of X query rows)"

definition case_page_ok ::
    "externals \<Rightarrow> rstring \<Rightarrow> nat \<Rightarrow> nat \<Rightarrow> (nat \<times> rstring) list \<Rightarrow> located_key_page option \<Rightarrow> bool" where
  "case_page_ok X query off limit rows r \<longleftrightarrow>
     (case r of None \<Rightarrow> snd (case_answer X query rows) = []
      | Some p \<Rightarrow> snd (case_answer X query rows) \<noteq> [] \<and> page_ok off limit (case_answer X query rows) p)"

lemma classes_length: "length (exact_of query rows) + length (variants_of X query rows) \<le> length rows"
  by (induction rows) auto

lemma window_short: "length (window off limit xs) \<le> min limit (length xs - off)"
  by (simp add: length_window)

lemma select_page_runs:
  assumes s: "supplies (file_inv E M KP RP LP) source_key rows"
  shows "runs (file_inv E M KP RP LP) page_bytes (select_page X f query (length rows) off limit source_key)
    (case_page_ok X query off limit rows)"
  unfolding select_page_def Let_def
proof (rule runs_try, rule runs_try)
  let ?I = "file_inv E M KP RP LP" and ?cap = "min limit (length rows - off)"
  let ?E = "exact_of query rows" and ?V = "variants_of X query rows"
  let ?R = "\<lambda>bytes r. case_page_ok X query off limit rows r \<and> (case r of None \<Rightarrow> True | Some p \<Rightarrow> lkp_memory p = bytes)"
  fix bytes u assume "ok_or (checked_mul ?cap 4) (InvalidFormat ''case-variant page size overflow'') = Inr bytes"
  then have bytes: "bytes = ?cap * 4" by simp
  have all: "map ((!) rows) [0..<length rows] = rows" by (rule map_nth)
  have cover: "4 * length (window off limit (?E @ ?V)) \<le> bytes"
    using classes_length [of query rows X] by (simp add: bytes length_window)
  have body: "keeps ?I (otry (try_reserve_vec 4 0 ?cap ''case-variant match page'') (\<lambda>_.
      obind (classify_scan X source_key query off limit [0..<length rows] (0, 0, []))
        (\<lambda>(exact_count, variant_count, ordinals).
      if exact_count + variant_count = 0 then oret None
      else
        obind (if length ordinals < min limit (exact_count + variant_count - off)
               then variant_scan X source_key query (off - exact_count)
                      (min limit (exact_count + variant_count - off)) [0..<length rows] 0 ordinals
               else oret ordinals) (\<lambda>ordinals.
        oret (Some \<lparr>lkp_basis = (if variant_count = 0 then RawExact else CaseVariants),
                    lkp_total = exact_count + variant_count, lkp_ordinals = ordinals, lkp_memory = bytes\<rparr>)))))
    (?R bytes)"
  proof (rule runs_try)
    have scan: "keeps ?I (classify_scan X source_key query off limit [0..<length rows] (0, 0, []))
      (\<lambda>r. r = (length ?E, length ?V, window off limit ?E))"
      using classify_scan_keeps [OF s, of "[0..<length rows]" X query off limit "[]" 0] by (simp add: all window_def)
    let ?wanted = "min limit (length ?E + length ?V - off)"
    have second: "keeps ?I (if length (window off limit ?E) < ?wanted
        then variant_scan X source_key query (off - length ?E) ?wanted [0..<length rows] 0 (window off limit ?E)
        else oret (window off limit ?E)) (\<lambda>r. r = window off limit (?E @ ?V))"
    proof (rule runs_if)
      assume "length (window off limit ?E) < ?wanted"
      then have c: "length (window off limit (?E @ [])) < ?wanted \<or> [0..<length rows] = []" by simp
      have w: "?wanted \<le> limit" by (rule min.cobounded1)
      have p: "\<forall>p \<in> set [0..<length rows]. p < length rows" by simp
      have t: "?wanted = min limit (length (?E @ [] @ variants_of X query (map ((!) rows) [0..<length rows])) - off)"
        by (simp only: all append_Nil length_append)
      from variant_scan_keeps [OF s w p t c]
      show "keeps ?I (variant_scan X source_key query (off - length ?E) ?wanted [0..<length rows] 0
          (window off limit ?E)) (\<lambda>r. r = window off limit (?E @ ?V))"
        by (simp only: all append_Nil append_Nil2 list.size)
    next
      assume "\<not> length (window off limit ?E) < ?wanted"
      moreover have "length (window off limit ?E) \<le> ?wanted"
        unfolding length_window by (rule min.mono) (simp_all add: diff_le_mono)
      ultimately have "length (window off limit ?E) = min limit (length (?E @ ?V) - off)"
        by (simp only: length_append le_antisym not_less)
      then show "keeps ?I (oret (window off limit ?E)) (\<lambda>r. r = window off limit (?E @ ?V))"
        by (intro runs_lift) (simp add: window_full)
    qed
    show "keeps ?I (obind (classify_scan X source_key query off limit [0..<length rows] (0, 0, []))
        (\<lambda>(exact_count, variant_count, ordinals).
      if exact_count + variant_count = 0 then oret None
      else
        obind (if length ordinals < min limit (exact_count + variant_count - off)
               then variant_scan X source_key query (off - exact_count)
                      (min limit (exact_count + variant_count - off)) [0..<length rows] 0 ordinals
               else oret ordinals) (\<lambda>ordinals.
        oret (Some \<lparr>lkp_basis = (if variant_count = 0 then RawExact else CaseVariants),
                    lkp_total = exact_count + variant_count, lkp_ordinals = ordinals, lkp_memory = bytes\<rparr>))))
      (?R bytes)"
    proof (rule runs_bind [OF scan], simp only: prod.case, rule runs_if)
      assume "length ?E + length ?V = 0"
      then show "keeps ?I (oret None) (?R bytes)" by (intro runs_lift) (simp add: case_page_ok_def case_answer_def)
    next
      assume ne: "length ?E + length ?V \<noteq> 0"
      show "keeps ?I (obind (if length (window off limit ?E) < ?wanted
          then variant_scan X source_key query (off - length ?E) ?wanted [0..<length rows] 0 (window off limit ?E)
          else oret (window off limit ?E)) (\<lambda>ordinals.
        oret (Some \<lparr>lkp_basis = (if length ?V = 0 then RawExact else CaseVariants),
                    lkp_total = length ?E + length ?V, lkp_ordinals = ordinals, lkp_memory = bytes\<rparr>))) (?R bytes)"
        by (rule runs_bind [OF second], rule runs_lift)
          (use ne cover in \<open>auto simp: case_page_ok_def case_answer_def page_ok_def\<close>)
    qed
  qed
  show "runs ?I page_bytes (oretained_some bytes (otry (try_reserve_vec 4 0 ?cap ''case-variant match page'') (\<lambda>_.
      obind (classify_scan X source_key query off limit [0..<length rows] (0, 0, []))
        (\<lambda>(exact_count, variant_count, ordinals).
      if exact_count + variant_count = 0 then oret None
      else
        obind (if length ordinals < min limit (exact_count + variant_count - off)
               then variant_scan X source_key query (off - exact_count)
                      (min limit (exact_count + variant_count - off)) [0..<length rows] 0 ordinals
               else oret ordinals) (\<lambda>ordinals.
        oret (Some \<lparr>lkp_basis = (if variant_count = 0 then RawExact else CaseVariants),
                    lkp_total = exact_count + variant_count, lkp_ordinals = ordinals, lkp_memory = bytes\<rparr>))))))
    (case_page_ok X query off limit rows)"
    by (rule runs_conseq [OF runs_retained_some [OF body]]) (auto simp: page_bytes_def split: option.splits)
qed

section \<open>Case variants of a file\<close>

text \<open>The candidates are the keys of the normalized equal range in the order of the file.\<close>

definition case_candidates :: "externals \<Rightarrow> key_normalizer \<Rightarrow> rstring list \<Rightarrow> rstring \<Rightarrow> (nat \<times> rstring) list" where
  "case_candidates X nrm keys query = map (\<lambda>n. (n, keys ! n)) (normalized_ordinals X nrm keys query)"

lemma locate_case_variants_runs:
  assumes ok: "file_ok X f" and q: "well_formed query"
  shows "runs (keys_inv X f RP (locator_cache_ok X f)) page_bytes (locate_case_variants X f query off limit)
    (\<lambda>r. \<exists>keys. file_keys X f keys \<and>
       case_page_ok X query off limit (case_candidates X (mf_normalizer f) keys query) r)"
  unfolding locate_case_variants_def
proof (rule runs_bind [OF key_locator_keeps [OF ok]], rule with_normalized_runs)
  let ?I = "keys_inv X f RP (locator_cache_ok X f)" and ?q = "utf8 (normal_form X (mf_normalizer f) query)"
  let ?R = "\<lambda>r. \<exists>keys. file_keys X f keys \<and>
       case_page_ok X query off limit (case_candidates X (mf_normalizer f) keys query) r"
  fix l assume "locator_ok X f l"
  then obtain rows where l: "locator_rows X f l rows" by (auto simp: locator_ok_def)
  let ?ks = "map row_key rows"
  let ?source = "\<lambda>a position.
           otry (ok_or (get (kl_order l) (a + position))
                   (InvalidFormat ''case-variant range escaped locator'')) (\<lambda>ordinal.
           obind (key_at_ordinal X f ordinal) (\<lambda>key.
           otry (ok_or key (InvalidFormat ''case-variant row has no source key'')) (\<lambda>key.
           oret (ordinal, key))))"
  show "runs ?I page_bytes (case equal_range l ?q of None \<Rightarrow> oret None
     | Some (start, stop) \<Rightarrow> select_page X f query (stop - start) off limit (?source start)) ?R"
  proof (cases "equal_range l ?q")
    case None
    have "normalized_ordinals X (mf_normalizer f) ?ks query = []" by (rule equal_range_None [OF ok l q None])
    then have "?R None"
      using locator_file_keys [OF l]
      by (intro exI [of _ ?ks]) (simp add: case_candidates_def case_page_ok_def case_answer_def)
    moreover have "keeps ?I (oret None) (\<lambda>r. r = (None :: located_key_page option))" by (rule runs_lift) simp
    ultimately show ?thesis
      unfolding None option.case by (auto elim!: runs_conseq simp: page_bytes_def)
  next
    case (Some rng)
    obtain a b where rng: "rng = (a, b)" by (cases rng)
    have e: "equal_range l ?q = Some (a, b)" using Some rng by simp
    note er = equal_range_Some [OF ok l q e]
    let ?c = "case_candidates X (mf_normalizer f) ?ks query"
    have len: "length ?c = b - a" using er(4) by (simp add: case_candidates_def)
    have row: "?c ! p = (kl_order l ! (a + p), ?ks ! (kl_order l ! (a + p)))" and bound: "a + p < length (kl_order l)"
      if p: "p < length ?c" for p
    proof -
      have "p < b - a" using p len by simp
      then have "slice a b (kl_order l) ! p = kl_order l ! (a + p)" using er(2) by (simp add: nth_slice)
      then show "?c ! p = (kl_order l ! (a + p), ?ks ! (kl_order l ! (a + p)))"
        using p er(3) by (simp add: case_candidates_def)
      show "a + p < length (kl_order l)" using \<open>p < b - a\<close> er(2) by simp
    qed
    have "supplies ?I (?source a) ?c"
      unfolding supplies_def
    proof (intro allI impI, rule runs_try)
      fix p ordinal assume p: "p < length ?c"
        and o: "ok_or (get (kl_order l) (a + p)) (InvalidFormat ''case-variant range escaped locator'') = Inr ordinal"
      have ord: "ordinal = kl_order l ! (a + p)" using o by (auto simp: get_def split: if_splits)
      have lt: "ordinal < mf_len f" using order_row_bound [OF l bound [OF p]] ord by simp
      show "keeps ?I (obind (key_at_ordinal X f ordinal) (\<lambda>key.
           otry (ok_or key (InvalidFormat ''case-variant row has no source key'')) (\<lambda>key.
           oret (ordinal, key)))) (\<lambda>(n, key). (n, ke_key key) = ?c ! p)"
      proof (rule runs_bind [OF key_at_ordinal_keeps [OF ok]], rule runs_try, rule runs_lift)
        fix k :: "key_entry option" and key x
        assume k: "key_answer X f ordinal k" and "ok_or k (InvalidFormat ''case-variant row has no source key'') = Inr key"
          and x: "(Inr (ordinal, key) :: (nat \<times> key_entry) result) = Inr x"
        then have "k = Some key" by (cases k) simp_all
        then obtain r where r: "key_row_at X f ordinal r" "ke_key key = row_key r" using k by (auto simp: key_answer_def)
        have "r = rows ! ordinal" using key_row_at_unique [OF ok r(1)] l lt by (auto simp: locator_rows_def)
        then show "case x of (n, key) \<Rightarrow> (n, ke_key key) = ?c ! p"
          using r(2) x row [OF p] lt l by (auto simp: ord [symmetric] locator_rows_def)
      qed
    qed
    note page = select_page_runs [OF this, where off = off and limit = limit and query = query and X = X and f = f]
    show ?thesis
      unfolding e option.case prod.case
    proof (rule runs_conseq [OF page [unfolded len]])
      fix x assume "case_page_ok X query off limit ?c x"
      then show "?R x \<and> page_bytes x = page_bytes x" using locator_file_keys [OF l] by (intro conjI exI refl)
    qed
  qed
qed

end
