(* ===== verification/Session.thy ===== *)
theory Session
  imports Iter Case_Variants Opening
begin

text \<open>
  A client of an open file (\<^verbatim>\<open>src/src/core/\<close>): the methods of \<open>MdictFile\<close> in any order, the pages of
  matches it keeps, and its iterators, each advanced one \<open>next\<close> at a time between other calls.

  A page owns a reservation until the client drops it. A \<open>KeyIter\<close> or \<open>RecordIter\<close> keeps an
  \<open>Arc\<close> of its current key block between calls. While that is the block in the cache slot the two
  share one reservation (\<open>InSlot\<close>). A call that evicts the slot does not return the bytes of a
  shared block: the block is \<open>Detached\<close>, numbered, and charged until the last iterator that holds
  it lets go. \<open>with_arcs\<close> runs a method in this setting: the bytes of a shared block are set aside,
  since evicting it frees nothing, and are put back when the block is still in the slot at the end.
  A decoded block has at least one row, so its own reservation is never empty and a slot with none is
  the shared one (\<open>fresh_block_bytes\<close>).

  \<open>session_step\<close> has one rule per method; whether a method answers or fails, the state it leaves
  is the state the next one starts from. The invariant: the budget is charged exactly for the
  metadata of the layout, what the caches hold, the pages that are kept and the detached blocks.
  The visitors that some methods call do not call back into the file.
\<close>

section \<open>Shared blocks\<close>

datatype iter_kind = Keys | Records

datatype block_hold = InSlot | Detached nat

record iterator =
  ir_kind :: iter_kind
  ir_pos :: block_iter
  ir_hold :: "block_hold option"

record session =
  se_state :: file_state
  se_pages :: "nat list"
  se_iters :: "iterator list"
  se_detached :: "nat option list"

definition cached_bytes :: "file_state \<Rightarrow> nat option" where
  "cached_bytes st = (case st_key_cache st of Some (_, Ready b) \<Rightarrow> Some (dkb_memory b) | _ \<Rightarrow> None)"

definition set_cached_bytes :: "nat \<Rightarrow> file_state \<Rightarrow> file_state" where
  "set_cached_bytes n st =
     (case st_key_cache st of
        Some (i, Ready b) \<Rightarrow> st\<lparr>st_key_cache := Some (i, Ready (b\<lparr>dkb_memory := n\<rparr>))\<rparr>
      | _ \<Rightarrow> st)"

definition in_slot :: "session \<Rightarrow> bool" where
  "in_slot s \<longleftrightarrow> list_ex (\<lambda>i. ir_hold i = Some InSlot) (se_iters s)"

definition detach :: "nat \<Rightarrow> iterator \<Rightarrow> iterator" where
  "detach k i = (if ir_hold i = Some InSlot then i\<lparr>ir_hold := Some (Detached k)\<rparr> else i)"

definition with_arcs :: "(file_state \<Rightarrow> 'r \<times> file_state) \<Rightarrow> session \<Rightarrow> 'r \<times> session" where
  "with_arcs m s =
     (case (in_slot s, cached_bytes (se_state s)) of
        (True, Some n) \<Rightarrow>
          (case m (set_cached_bytes 0 (se_state s)) of (r, st') \<Rightarrow>
             (r, if cached_bytes st' = Some 0 then s\<lparr>se_state := set_cached_bytes n st'\<rparr>
                 else s\<lparr>se_state := st', se_detached := se_detached s @ [Some n],
                        se_iters := map (detach (length (se_detached s))) (se_iters s)\<rparr>))
      | _ \<Rightarrow> (case m (se_state s) of (r, st') \<Rightarrow> (r, s\<lparr>se_state := st'\<rparr>)))"

text \<open>An \<open>Arc\<close> is dropped; its holder is no longer among the iterators.\<close>

definition drop_hold :: "block_hold option \<Rightarrow> session \<Rightarrow> session" where
  "drop_hold h s =
     (case h of
        Some (Detached k) \<Rightarrow>
          if list_ex (\<lambda>i. ir_hold i = Some (Detached k)) (se_iters s) then s
          else
            (case get (se_detached s) k of
               Some (Some n) \<Rightarrow> s\<lparr>se_state := drop_bytes n (se_state s), se_detached := (se_detached s)[k := None]\<rparr>
             | _ \<Rightarrow> s)
      | _ \<Rightarrow> s)"

text \<open>The bytes that detached blocks still charge.\<close>

definition detached_bytes :: "session \<Rightarrow> nat" where
  "detached_bytes s = sum_list (map (\<lambda>d. case d of None \<Rightarrow> 0 | Some n \<Rightarrow> n) (se_detached s))"

section \<open>Steps\<close>

text \<open>\<open>next\<close> lets its block go before it decodes another: when the block has no entry left and, for
  records, when it hands the last entry of the block on.\<close>

definition drops_block :: "mdict_file \<Rightarrow> iterator \<Rightarrow> bool" where
  "drops_block f i \<longleftrightarrow> \<not> it_done (ir_pos i) \<and> it_block (ir_pos i) < key_block_count f \<and>
     (case it_current (ir_pos i) of
        None \<Rightarrow> False
      | Some rows \<Rightarrow> length rows \<le> it_entry (ir_pos i) \<or>
          ir_kind i = Records \<and> it_entry (ir_pos i) + 1 = length rows)"

definition advance :: "externals \<Rightarrow> mdict_file \<Rightarrow> iterator \<Rightarrow> file_state \<Rightarrow> block_iter \<times> file_state" where
  "advance X f i st =
     (case ir_kind i of
        Keys \<Rightarrow> (case key_iter_next X f (ir_pos i) st of ((_, pos), st') \<Rightarrow> (pos, st'))
      | Records \<Rightarrow> (case record_iter_next X f (ir_pos i) st of ((_, pos), st') \<Rightarrow> (pos, st')))"

definition iterator_next :: "externals \<Rightarrow> mdict_file \<Rightarrow> nat \<Rightarrow> session \<Rightarrow> session" where
  "iterator_next X f j s =
     (let i = se_iters s ! j;
          s1 = (if drops_block f i
                then drop_hold (ir_hold i) (s\<lparr>se_iters := (se_iters s)[j := i\<lparr>ir_hold := None\<rparr>]\<rparr>) else s)
      in case with_arcs (advance X f i) s1 of (pos, s2) \<Rightarrow>
         (let hold = (if it_current pos = None then None
                      else if it_current (ir_pos i) = None \<or> drops_block f i then Some InSlot
                      else ir_hold (se_iters s2 ! j))
          in s2\<lparr>se_iters := (se_iters s2)[j := \<lparr>ir_kind = ir_kind i, ir_pos = pos, ir_hold = hold\<rparr>]\<rparr>))"

inductive session_step :: "externals \<Rightarrow> mdict_file \<Rightarrow> session \<Rightarrow> session \<Rightarrow> bool" for X f where
  key: "with_arcs (key_at_ordinal X f n) s = (r, s') \<Longrightarrow> session_step X f s s'"
| keys: "with_arcs (keys_at_ordinals X f ns) s = (r1, s') \<Longrightarrow> session_step X f s s'"
| record_of: "with_arcs (record_at_ordinal X f n) s = (r2, s') \<Longrightarrow> session_step X f s s'"
| span: "with_arcs (read_record_span X f start stop) s = (r3, s') \<Longrightarrow> session_step X f s s'"
| visit: "with_arcs (visit_record_span X f start stop (visitor :: nat \<Rightarrow> bytes \<Rightarrow> nat result) v) s = (r4, s') \<Longrightarrow>
    session_step X f s s'"
| locate: "well_formed query \<Longrightarrow> with_arcs (locate_keys X f query) s = (r5, s') \<Longrightarrow> session_step X f s s'"
| prefix: "well_formed query \<Longrightarrow> with_arcs (locate_prefix X f query limit) s = (r6, s') \<Longrightarrow> session_step X f s s'"
| scan: "with_arcs (scan_normalized_keys X f (visit :: nat \<Rightarrow> nat \<Rightarrow> bytes \<Rightarrow> nat \<times> bool) v) s = (r7, s') \<Longrightarrow>
    session_step X f s s'"
| page: "well_formed query \<Longrightarrow> with_arcs (locate_key_page X f query off limit) s = (Inr p, s') \<Longrightarrow>
    session_step X f s (s'\<lparr>se_pages := page_bytes p # se_pages s'\<rparr>)"
| page_fails: "well_formed query \<Longrightarrow> with_arcs (locate_key_page X f query off limit) s = (Inl e, s') \<Longrightarrow>
    session_step X f s s'"
| variants: "well_formed query \<Longrightarrow> with_arcs (locate_case_variants X f query off limit) s = (Inr p, s') \<Longrightarrow>
    session_step X f s (s'\<lparr>se_pages := page_bytes p # se_pages s'\<rparr>)"
| variants_fail: "well_formed query \<Longrightarrow> with_arcs (locate_case_variants X f query off limit) s = (Inl e, s') \<Longrightarrow>
    session_step X f s s'"
| drop_page: "se_pages s = before @ n # after \<Longrightarrow>
    session_step X f s (s\<lparr>se_pages := before @ after, se_state := drop_bytes n (se_state s)\<rparr>)"
| open_iterator: "session_step X f s
    (s\<lparr>se_iters := \<lparr>ir_kind = kind, ir_pos = iter_new, ir_hold = None\<rparr> # se_iters s\<rparr>)"
| step_iterator: "j < length (se_iters s) \<Longrightarrow> session_step X f s (iterator_next X f j s)"
| drop_iterator: "se_iters s = before @ i # after \<Longrightarrow>
    session_step X f s (drop_hold (ir_hold i) (s\<lparr>se_iters := before @ after\<rparr>))"

section \<open>The invariant\<close>

text \<open>An iterator is finished or stands before an ordinal; a hold in the slot means that the slot has
  a block; a detached block is charged exactly while an iterator holds it.\<close>

definition iterator_ok :: "externals \<Rightarrow> mdict_file \<Rightarrow> session \<Rightarrow> iterator \<Rightarrow> bool" where
  "iterator_ok X f s i \<longleftrightarrow> (it_done (ir_pos i) \<or> (\<exists>n. iter_at X f n (ir_pos i))) \<and>
     (it_current (ir_pos i) = None \<longrightarrow> ir_hold i = None) \<and>
     (ir_hold i = Some InSlot \<longrightarrow> cached_bytes (se_state s) \<noteq> None) \<and>
     (\<forall>k. ir_hold i = Some (Detached k) \<longrightarrow> k < length (se_detached s))"

definition blocks_held :: "session \<Rightarrow> bool" where
  "blocks_held s \<longleftrightarrow> (\<forall>k < length (se_detached s). se_detached s ! k \<noteq> None \<longleftrightarrow>
     (\<exists>i \<in> set (se_iters s). ir_hold i = Some (Detached k)))"

definition charged :: "externals \<Rightarrow> mdict_file \<Rightarrow> nat \<Rightarrow> session \<Rightarrow> bool" where
  "charged X f extra s \<longleftrightarrow>
     open_inv X f (layout_bytes (mf_layout f) + sum_list (se_pages s) + detached_bytes s + extra) (se_state s)"

definition session_inv :: "externals \<Rightarrow> mdict_file \<Rightarrow> session \<Rightarrow> bool" where
  "session_inv X f s \<longleftrightarrow> charged X f 0 s \<and> blocks_held s \<and> (\<forall>i \<in> set (se_iters s). iterator_ok X f s i)"

lemma set_cached_bytes_inv:
  assumes "file_inv E M (key_cache_ok X f) RP LP (base + n) st" and "cached_bytes st = Some m"
  shows "file_inv E M (key_cache_ok X f) RP LP (base + m) (set_cached_bytes n st)"
  using assms
  by (auto simp: file_inv_def cached_bytes_def set_cached_bytes_def state_bytes_def slot_bytes_def key_cache_ok_def
      split: option.splits cached.splits)

lemma cached_set_cached [simp]:
  "cached_bytes st \<noteq> None \<Longrightarrow> cached_bytes (set_cached_bytes n st) = Some n"
  by (auto simp: cached_bytes_def set_cached_bytes_def split: option.splits cached.splits)

section \<open>Running a method\<close>

lemma fresh_block_bytes:
  assumes ok: "file_ok X f" and run: "returns (decode_key_block_uncached X f i) b"
  shows "0 < dkb_memory b"
proof -
  note kb = key_block_decodes_ok [OF ok returns_uncached [OF run]]
  have "kb_entry_count (vl_key_blocks (mf_layout f) ! i) * size_of_decoded_key_row \<le> dkb_memory b"
    using run unfolding decode_key_block_uncached_def by (auto split: if_splits)
  moreover have "0 < kb_entry_count (vl_key_blocks (mf_layout f) ! i)" using kb(2,3) by (metis length_greater_0_conv)
  moreover have "0 < size_of_decoded_key_row" by (simp add: layout_sizes)
  ultimately show ?thesis using mult_pos_pos order.strict_trans2 by blast
qed


lemma set_in_slot: "in_slot s \<longleftrightarrow> (\<exists>i \<in> set (se_iters s). ir_hold i = Some InSlot)"
  by (simp add: in_slot_def list_ex_iff)

lemma detach_simps [simp]:
  "ir_pos (detach k i) = ir_pos i" "ir_kind (detach k i) = ir_kind i"
  "ir_hold (detach k i) = Some h \<longleftrightarrow> h \<noteq> InSlot \<and> (ir_hold i = Some h \<or> ir_hold i = Some InSlot \<and> h = Detached k)"
  "ir_hold (detach k i) = None \<longleftrightarrow> ir_hold i = None"
  by (auto simp: detach_def)

text \<open>Three outcomes: no block is shared, the shared block is still in the slot, it is detached.\<close>

lemma with_arcs_cases:
  assumes "with_arcs m s = (r, s')" and "in_slot s \<longrightarrow> cached_bytes (se_state s) \<noteq> None"
  obtains st' where "\<not> in_slot s" and "m (se_state s) = (r, st')" and "s' = s\<lparr>se_state := st'\<rparr>"
  | n st' where "in_slot s" and "cached_bytes (se_state s) = Some n" and "m (set_cached_bytes 0 (se_state s)) = (r, st')"
      and "cached_bytes st' = Some 0" and "s' = s\<lparr>se_state := set_cached_bytes n st'\<rparr>"
  | n st' where "in_slot s" and "cached_bytes (se_state s) = Some n" and "m (set_cached_bytes 0 (se_state s)) = (r, st')"
      and "cached_bytes st' \<noteq> Some 0"
      and "s' = s\<lparr>se_state := st', se_detached := se_detached s @ [Some n],
            se_iters := map (detach (length (se_detached s))) (se_iters s)\<rparr>"
  using assms
  by (auto simp: with_arcs_def split: bool.splits option.splits prod.splits if_splits)

text \<open>A method that leaves \<open>k r\<close> bytes charged when it returns \<open>r\<close>.\<close>

definition op_charges :: "externals \<Rightarrow> mdict_file \<Rightarrow> ('r \<Rightarrow> nat) \<Rightarrow> (file_state \<Rightarrow> 'r \<times> file_state) \<Rightarrow> bool" where
  "op_charges X f k m \<longleftrightarrow> (\<forall>base st r st'. open_inv X f base st \<longrightarrow> m st = (r, st') \<longrightarrow> open_inv X f (base + k r) st')"

lemma op_chargesD: "op_charges X f k m \<Longrightarrow> open_inv X f base st \<Longrightarrow> m st = (r, st') \<Longrightarrow> open_inv X f (base + k r) st'"
  unfolding op_charges_def by blast

lemma with_arcs_charged:
  assumes m: "op_charges X f k m"
    and inv: "charged X f 0 s" "in_slot s \<longrightarrow> cached_bytes (se_state s) \<noteq> None" and run: "with_arcs m s = (r, s')"
  shows "charged X f (k r) s'"
proof (cases rule: with_arcs_cases [OF run inv(2)])
  case (1 st')
  then show ?thesis using op_chargesD [OF m] inv(1) by (auto simp: charged_def detached_bytes_def)
next
  let ?base = "layout_bytes (mf_layout f) + sum_list (se_pages s) + detached_bytes s"
  have z: "open_inv X f (?base + n) (set_cached_bytes 0 (se_state s))" if "cached_bytes (se_state s) = Some n" for n
    by (rule set_cached_bytes_inv [OF _ that]) (use inv(1) in \<open>simp add: charged_def\<close>)
  {
    case (2 n st')
    from op_chargesD [OF m z [OF 2(2)] 2(3)] have "open_inv X f ((?base + k r) + n) st'" by (simp add: ac_simps)
    from set_cached_bytes_inv [OF this 2(4)] show ?thesis by (simp add: 2(5) charged_def detached_bytes_def)
  next
    case (3 n st')
    from op_chargesD [OF m z [OF 3(2)] 3(3)] show ?thesis by (simp add: 3(5) charged_def detached_bytes_def ac_simps)
  }
qed

lemma with_arcs_ok:
  assumes m: "op_charges X f k m"
    and inv: "session_inv X f s" and run: "with_arcs m s = (r, s')"
  shows "charged X f (k r) s'" and "blocks_held s'" and "\<forall>i \<in> set (se_iters s'). iterator_ok X f s' i"
    and "se_pages s' = se_pages s" and "\<exists>k. se_iters s' = se_iters s \<or> se_iters s' = map (detach k) (se_iters s)"
    and "\<exists>base st st'. open_inv X f base st \<and> m st = (r, st') \<and>
      (cached_bytes st' \<noteq> None \<longrightarrow> cached_bytes (se_state s') \<noteq> None)"
proof -
  have slot: "in_slot s \<longrightarrow> cached_bytes (se_state s) \<noteq> None"
    using inv unfolding set_in_slot session_inv_def by (fastforce simp: iterator_ok_def)
  have start: "open_inv X f (layout_bytes (mf_layout f) + sum_list (se_pages s) + detached_bytes s) (se_state s)"
    using inv by (simp add: session_inv_def charged_def)
  have z: "\<exists>base. open_inv X f base (set_cached_bytes 0 (se_state s))" if "cached_bytes (se_state s) = Some n" for n
    by (rule exI, rule set_cached_bytes_inv [OF _ that]) (use start in simp)
  show "charged X f (k r) s'"
    by (rule with_arcs_charged [OF m _ slot run]) (use inv in \<open>simp_all add: session_inv_def\<close>)
  have "blocks_held s' \<and> (\<forall>i \<in> set (se_iters s'). iterator_ok X f s' i) \<and>
      se_pages s' = se_pages s \<and> (\<exists>k. se_iters s' = se_iters s \<or> se_iters s' = map (detach k) (se_iters s)) \<and>
      (\<exists>base st st'. open_inv X f base st \<and> m st = (r, st') \<and>
        (cached_bytes st' \<noteq> None \<longrightarrow> cached_bytes (se_state s') \<noteq> None))"
  proof (cases rule: with_arcs_cases [OF run slot])
    case (1 st')
    then have "\<forall>i \<in> set (se_iters s'). iterator_ok X f s' i"
      using inv by (fastforce simp: session_inv_def iterator_ok_def set_in_slot split: option.splits block_hold.splits)
    then show ?thesis using 1 inv start by (auto simp: session_inv_def blocks_held_def)
  next
    case (2 n st')
    have "cached_bytes (se_state s') = Some n" using 2(4,5) by simp
    then have "\<forall>i \<in> set (se_iters s'). iterator_ok X f s' i"
      using inv 2(5) by (fastforce simp: session_inv_def iterator_ok_def split: option.splits block_hold.splits)
    moreover have "blocks_held s'" using inv 2(5) by (simp add: session_inv_def blocks_held_def)
    ultimately show ?thesis using 2(3,5) z [OF 2(2)] \<open>cached_bytes (se_state s') = Some n\<close> by auto
  next
    case (3 n st')
    have "\<forall>i \<in> set (se_iters s'). iterator_ok X f s' i"
      using inv 3(5)
      by (fastforce simp: session_inv_def iterator_ok_def split: option.splits block_hold.splits)
    moreover have "blocks_held s'"
    proof -
      obtain i where i: "i \<in> set (se_iters s)" "ir_hold i = Some InSlot" using 3(1) set_in_slot by blast
      show ?thesis
        unfolding blocks_held_def
      proof (intro allI impI)
        fix k assume k: "k < length (se_detached s')"
        show "se_detached s' ! k \<noteq> None \<longleftrightarrow> (\<exists>i \<in> set (se_iters s'). ir_hold i = Some (Detached k))"
        proof (cases "k < length (se_detached s)")
          case True
          then have "se_detached s ! k \<noteq> None \<longleftrightarrow> (\<exists>i \<in> set (se_iters s). ir_hold i = Some (Detached k))"
            using inv by (simp add: session_inv_def blocks_held_def)
          then show ?thesis using 3(5) True by (auto simp: nth_append)
        next
          case False
          then have "k = length (se_detached s)" using k 3(5) by simp
          then show ?thesis using i 3(5) by (auto simp: nth_append)
        qed
      qed
    qed
    ultimately show ?thesis using 3(3,5) z [OF 3(2)] by auto
  qed
  then show "blocks_held s'" and "\<forall>i \<in> set (se_iters s'). iterator_ok X f s' i"
    and "se_pages s' = se_pages s" and "\<exists>k. se_iters s' = se_iters s \<or> se_iters s' = map (detach k) (se_iters s)"
    and "\<exists>base st st'. open_inv X f base st \<and> m st = (r, st') \<and>
      (cached_bytes st' \<noteq> None \<longrightarrow> cached_bytes (se_state s') \<noteq> None)"
    by blast+
qed


section \<open>Advancing an iterator\<close>

lemma decode_key_block_ready: "decode_key_block X f i st = (Inr b, st') \<Longrightarrow> cached_bytes st' \<noteq> None"
  by (auto simp: decode_key_block_def cached_bytes_def set_key_cache_def Let_def
      split: option.splits cached.splits if_splits sum.splits prod.splits)

lemma iter_seek_end:
  "iter_seek X f it st = ((r, it'), st') \<Longrightarrow> \<forall>rows. r \<noteq> Inr (Some rows) \<Longrightarrow>
     it_done it' \<and> (it_current it' \<noteq> None \<longrightarrow> key_block_count f \<le> it_block it \<and> it_current it' = it_current it)"
proof (induction X f it st rule: iter_seek.induct)
  case (1 X f it st)
  show ?case
    using "1.prems" "1.IH"
    by (subst (asm) iter_seek.simps)
       (auto split: if_splits option.splits prod.splits sum.splits)
qed

lemma iter_seek_block:
  "iter_seek X f it st = ((Inr (Some rows), it'), st') \<Longrightarrow>
     it_current it' = Some rows \<and> it_entry it' < length rows \<and> it_done it' = it_done it \<and>
     (it_current it = Some rows \<and> it' = it \<and> st' = st \<or> cached_bytes st' \<noteq> None)"
proof (induction X f it st rule: iter_seek.induct)
  case (1 X f it st)
  show ?case
    using "1.prems" "1.IH" decode_key_block_ready [of X f "it_block it" st]
    by (subst (asm) iter_seek.simps)
       (auto split: if_splits option.splits prod.splits sum.splits)
qed

lemma key_next_done:
  "key_iter_next X f it st = ((r, it'), st') \<Longrightarrow> r = None \<or> r = Some (Inl e) \<Longrightarrow> it_done it'"
  by (auto simp: key_iter_next_def Let_def dest: iter_seek_end split: if_splits prod.splits sum.splits option.splits)

lemma record_next_done:
  "record_iter_next X f it st = ((r, it'), st') \<Longrightarrow> r = None \<or> r = Some (Inl e) \<Longrightarrow> it_done it'"
  by (auto simp: record_iter_next_def Let_def dest: iter_seek_end split: if_splits prod.splits sum.splits option.splits)

lemma advance_ok:
  assumes ok: "file_ok X f" and i: "open_inv X f base st"
    and at: "it_done (ir_pos i) \<or> (\<exists>n. iter_at X f n (ir_pos i))" and run: "advance X f i st = (pos, st')"
  shows "open_inv X f base st' \<and> (it_done pos \<or> (\<exists>n. iter_at X f n pos))"
proof (cases "it_done (ir_pos i)")
  case True
  then show ?thesis using i run
    by (auto simp: advance_def key_iter_next_def record_iter_next_def split: iter_kind.splits)
next
  case False
  then obtain n where n: "iter_at X f n (ir_pos i)" using at by blast
  show ?thesis
  proof (cases "ir_kind i")
    case Keys
    then obtain r where r: "key_iter_next X f (ir_pos i) st = ((r, pos), st')"
      using run by (auto simp: advance_def split: prod.splits)
    have "open_inv X f base st' \<and> (case r of None \<Rightarrow> n = mf_len f | Some (Inl e) \<Rightarrow> True
        | Some (Inr x) \<Rightarrow> n < mf_len f \<and> key_answer X f n (Some x) \<and> iter_at X f (Suc n) pos)"
      using key_iter_steps [OF ok] i n r unfolding steps_def by blast
    then show ?thesis using key_next_done [OF r] by (auto split: option.splits sum.splits)
  next
    case Records
    then obtain r where r: "record_iter_next X f (ir_pos i) st = ((r, pos), st')"
      using run by (auto simp: advance_def split: prod.splits)
    have "open_inv X f base st' \<and> (case r of None \<Rightarrow> n = mf_len f | Some (Inl e) \<Rightarrow> True
        | Some (Inr x) \<Rightarrow> n < mf_len f \<and> record_answer X f n x \<and> iter_at X f (Suc n) pos)"
      using record_iter_steps [OF ok] i n r unfolding steps_def by blast
    then show ?thesis using record_next_done [OF r] by (auto split: option.splits sum.splits)
  qed
qed

text \<open>A row that is not the last of its block is described without another block.\<close>

lemma descriptor_in_block:
  assumes "record_descriptor_from_hit X f h st = (r, st')" and "kbh_entry_index h + 1 < length (kbh_entries h)"
  shows "st' = st"
  using assms
  by (auto simp: record_descriptor_from_hit_def obind_def olift_def get_def split: prod.splits sum.splits if_splits)

text \<open>A block that \<open>next\<close> comes to hold is the one in the slot; one that it does not drop stays.\<close>

lemma advance_block:
  assumes run: "advance X f i st = (pos, st')"
  shows "it_current (ir_pos i) = None \<or> drops_block f i \<Longrightarrow> it_current pos \<noteq> None \<Longrightarrow> cached_bytes st' \<noteq> None"
    and "it_current (ir_pos i) \<noteq> None \<Longrightarrow> \<not> drops_block f i \<Longrightarrow> it_current pos \<noteq> None"
proof -
  let ?it = "ir_pos i"
  have "(it_current ?it = None \<or> drops_block f i \<longrightarrow> it_current pos \<noteq> None \<longrightarrow> cached_bytes st' \<noteq> None) \<and>
    (it_current ?it \<noteq> None \<longrightarrow> \<not> drops_block f i \<longrightarrow> it_current pos \<noteq> None)"
  proof (cases "it_done ?it")
    case True
    then show ?thesis using run
      by (auto simp: advance_def key_iter_next_def record_iter_next_def drops_block_def split: iter_kind.splits)
  next
    case False
    obtain q it1 st1 where sk: "iter_seek X f ?it st = ((q, it1), st1)" by (cases "iter_seek X f ?it st") auto
    show ?thesis
    proof (cases "\<exists>rows. q = Inr (Some rows)")
      case no: False
      then have "pos = it1" using run False sk
        by (auto simp: advance_def key_iter_next_def record_iter_next_def split: iter_kind.splits sum.splits option.splits)
      moreover have "it_current it1 \<noteq> None \<longrightarrow> key_block_count f \<le> it_block ?it \<and> it_current it1 = it_current ?it"
        using iter_seek_end [OF sk] no by blast
      moreover have "it_current it1 \<noteq> None" if cur: "it_current ?it \<noteq> None" "\<not> drops_block f i"
      proof -
        obtain rows where rows: "it_current ?it = Some rows" using cur(1) by auto
        have "key_block_count f \<le> it_block ?it \<or> it_entry ?it < length rows"
          using cur(2) rows False by (auto simp: drops_block_def)
        then show ?thesis
        proof
          assume "key_block_count f \<le> it_block ?it"
          then have "it1 = ?it\<lparr>it_done := True\<rparr>" using sk iter_seek.simps [of X f ?it st] by simp
          then show ?thesis using rows by simp
        next
          assume e: "it_entry ?it < length rows"
          show ?thesis
          proof (cases "key_block_count f \<le> it_block ?it")
            case True
            then have "it1 = ?it\<lparr>it_done := True\<rparr>" using sk iter_seek.simps [of X f ?it st] by simp
            then show ?thesis using rows by simp
          next
            case in_file: False
            then have "q = Inr (Some rows)" using sk e rows iter_seek.simps [of X f ?it st] by simp
            then show ?thesis using no by blast
          qed
        qed
      qed
      moreover have "drops_block f i \<Longrightarrow> it_block ?it < key_block_count f" by (simp add: drops_block_def)
      ultimately show ?thesis by (metis not_le)
    next
      case True
      then obtain rows where q: "q = Inr (Some rows)" by blast
      note b = iter_seek_block [OF sk [unfolded q]]
      have nb: "\<not> key_block_count f \<le> it_block ?it"
        using sk q iter_seek.simps [of X f ?it st] by (auto split: if_splits)
      show ?thesis
      proof (cases "ir_kind i")
        case Keys
        have "it_current pos = Some rows" and "st' = st1"
          using run False sk q b by (auto simp: advance_def Keys key_iter_next_def Let_def)
        then show ?thesis using b Keys by (auto simp: drops_block_def)
      next
        case Records
        let ?hit = "\<lparr>kbh_block_index = it_block it1, kbh_entry_index = it_entry it1, kbh_entries = rows\<rparr>"
        obtain d st2 where d: "record_descriptor_from_hit X f ?hit st1 = (d, st2)"
          by (cases "record_descriptor_from_hit X f ?hit st1")
        have p: "it_current pos = (if it_entry it1 + 1 = length rows then None else Some rows)" and s2: "st' = st2"
          using run False sk q b d by (auto simp: advance_def Records record_iter_next_def Let_def)
        have "st2 = st1" if "it_entry it1 + 1 \<noteq> length rows"
          using descriptor_in_block [OF d] that b by simp
        then show ?thesis using b p s2 Records False sk nb
          by (auto simp: drops_block_def iter_seek.simps [of X f ?it st] split: if_splits)
      qed
    qed
  qed
  then show "it_current ?it = None \<or> drops_block f i \<Longrightarrow> it_current pos \<noteq> None \<Longrightarrow> cached_bytes st' \<noteq> None"
    and "it_current ?it \<noteq> None \<Longrightarrow> \<not> drops_block f i \<Longrightarrow> it_current pos \<noteq> None"
    by blast+
qed

lemma cached_drop_bytes [simp]: "cached_bytes (drop_bytes n st) = cached_bytes st"
  by (simp add: cached_bytes_def)

lemma drop_hold_cases:
  obtains "drop_hold h s = s" and "\<And>k n. h = Some (Detached k) \<Longrightarrow> k < length (se_detached s) \<Longrightarrow> se_detached s ! k = Some n \<Longrightarrow>
      list_ex (\<lambda>i. ir_hold i = Some (Detached k)) (se_iters s)"
  | k n where "h = Some (Detached k)" and "k < length (se_detached s)" and "se_detached s ! k = Some n"
      and "\<not> list_ex (\<lambda>i. ir_hold i = Some (Detached k)) (se_iters s)"
      and "drop_hold h s = s\<lparr>se_state := drop_bytes n (se_state s), se_detached := (se_detached s)[k := None]\<rparr>"
proof (cases "\<exists>k n. h = Some (Detached k) \<and> k < length (se_detached s) \<and> se_detached s ! k = Some n \<and>
    \<not> list_ex (\<lambda>i. ir_hold i = Some (Detached k)) (se_iters s)")
  case True
  then show ?thesis using that(2) by (auto simp: drop_hold_def get_def)
next
  case False
  then have "drop_hold h s = s"
    by (auto simp: drop_hold_def get_def split: option.splits block_hold.splits)
  then show ?thesis using that(1) False by blast
qed

lemma drop_hold_inv:
  assumes c: "charged X f 0 s" and ok: "\<forall>i \<in> set (se_iters s). iterator_ok X f s i"
    and held: "\<forall>k < length (se_detached s). se_detached s ! k \<noteq> None \<longleftrightarrow>
      (\<exists>i \<in> set (se_iters s). ir_hold i = Some (Detached k)) \<or> h = Some (Detached k)"
  shows "session_inv X f (drop_hold h s)" and "se_iters (drop_hold h s) = se_iters s"
proof -
  show "se_iters (drop_hold h s) = se_iters s"
    by (rule drop_hold_cases [of h s]) simp_all
  show "session_inv X f (drop_hold h s)"
  proof (rule drop_hold_cases [of h s])
    assume eq: "drop_hold h s = s" and n: "\<And>k n. h = Some (Detached k) \<Longrightarrow> k < length (se_detached s) \<Longrightarrow>
      se_detached s ! k = Some n \<Longrightarrow> list_ex (\<lambda>i. ir_hold i = Some (Detached k)) (se_iters s)"
    have "blocks_held s" unfolding blocks_held_def
    proof (intro allI impI)
      fix k assume k: "k < length (se_detached s)"
      show "se_detached s ! k \<noteq> None \<longleftrightarrow> (\<exists>i \<in> set (se_iters s). ir_hold i = Some (Detached k))"
        using held k n [OF _ k] by (auto simp: list_ex_iff)
    qed
    then show ?thesis using c ok by (simp add: session_inv_def eq)
  next
    fix k n assume k: "h = Some (Detached k)" "k < length (se_detached s)" "se_detached s ! k = Some n"
      "\<not> list_ex (\<lambda>i. ir_hold i = Some (Detached k)) (se_iters s)"
      and s': "drop_hold h s = s\<lparr>se_state := drop_bytes n (se_state s), se_detached := (se_detached s)[k := None]\<rparr>"
    let ?size = "\<lambda>d. case d of None \<Rightarrow> 0 | Some n \<Rightarrow> n"
    have "n \<in> set (map ?size (se_detached s))" using k(2,3) by (force simp: in_set_conv_nth)
    then have le: "n \<le> detached_bytes s" unfolding detached_bytes_def by (intro member_le_sum_list) simp_all
    have eq: "detached_bytes (drop_hold h s) + n = detached_bytes s"
      using k(2,3) le by (simp add: s' detached_bytes_def map_update sum_list_update)
    let ?base = "layout_bytes (mf_layout f) + sum_list (se_pages s) + detached_bytes (drop_hold h s)"
    have "open_inv X f (?base + n) (se_state s)" using c unfolding charged_def eq [symmetric] by (simp add: ac_simps)
    then have "open_inv X f ?base (drop_bytes n (se_state s))" by (rule drop_bytes_inv)
    then have "charged X f 0 (drop_hold h s)" unfolding charged_def by (simp add: s')
    moreover have "blocks_held (drop_hold h s)"
      unfolding blocks_held_def s' using held k(1,2,4) by (auto simp: nth_list_update list_ex_iff)
    moreover have "\<forall>i \<in> set (se_iters s). iterator_ok X f (drop_hold h s) i"
      using ok by (auto simp: s' iterator_ok_def)
    ultimately show ?thesis by (simp add: session_inv_def s')
  qed
qed

section \<open>Every step keeps the invariant\<close>

lemma holder_updated:
  assumes "j < length is" and "ir_hold x = None"
  shows "(\<exists>i \<in> set is. ir_hold i = Some h) \<longleftrightarrow>
    (\<exists>i \<in> set (is[j := x]). ir_hold i = Some h) \<or> ir_hold (is ! j) = Some h"
  unfolding Bex_def in_set_conv_nth using assms
  by (auto simp: nth_list_update split: if_splits)

lemma holder_replaced:
  assumes "j < length is" and "ir_hold x = Some h \<longleftrightarrow> ir_hold (is ! j) = Some h"
  shows "(\<exists>i \<in> set (is[j := x]). ir_hold i = Some h) \<longleftrightarrow> (\<exists>i \<in> set is. ir_hold i = Some h)"
  unfolding Bex_def in_set_conv_nth using assms
  by (auto simp: nth_list_update split: if_splits)

lemma iterator_next_inv:
  assumes ok: "file_ok X f" and inv: "session_inv X f s" and j: "j < length (se_iters s)"
  shows "session_inv X f (iterator_next X f j s)"
proof -
  define i where "i = se_iters s ! j"
  have i: "i \<in> set (se_iters s)" using j by (simp add: i_def)
  then have i_ok: "iterator_ok X f s i" using inv by (simp add: session_inv_def)
  define s0 where "s0 = s\<lparr>se_iters := (se_iters s)[j := i\<lparr>ir_hold := None\<rparr>]\<rparr>"
  define s1 where "s1 = (if drops_block f i then drop_hold (ir_hold i) s0 else s)"
  obtain pos s2 where s2: "with_arcs (advance X f i) s1 = (pos, s2)" by (cases "with_arcs (advance X f i) s1")
  define new where "new = \<lparr>ir_kind = ir_kind i, ir_pos = pos, ir_hold = (if it_current pos = None then None
      else if it_current (ir_pos i) = None \<or> drops_block f i then Some InSlot else ir_hold (se_iters s2 ! j))\<rparr>"
  have run: "iterator_next X f j s = s2\<lparr>se_iters := (se_iters s2)[j := new]\<rparr>"
    unfolding iterator_next_def Let_def i_def [symmetric] s0_def [symmetric] s1_def [symmetric] s2 prod.case new_def ..
  have "charged X f 0 s0" using inv by (simp add: s0_def session_inv_def charged_def detached_bytes_def)
  moreover have "\<forall>x \<in> set (se_iters s0). iterator_ok X f s0 x"
  proof
    fix x assume "x \<in> set (se_iters s0)"
    then consider "x = i\<lparr>ir_hold := None\<rparr>" | "x \<in> set (se_iters s)"
      using set_update_subset_insert [of "se_iters s" j "i\<lparr>ir_hold := None\<rparr>"] by (auto simp: s0_def)
    then have "iterator_ok X f s x"
      by cases (use i_ok inv in \<open>auto simp: iterator_ok_def session_inv_def\<close>)
    then show "iterator_ok X f s0 x" by (simp add: iterator_ok_def s0_def)
  qed
  moreover have "\<forall>k < length (se_detached s0). se_detached s0 ! k \<noteq> None \<longleftrightarrow>
      (\<exists>x \<in> set (se_iters s0). ir_hold x = Some (Detached k)) \<or> ir_hold i = Some (Detached k)"
  proof (intro allI impI)
    fix k assume "k < length (se_detached s0)"
    then have "se_detached s0 ! k \<noteq> None \<longleftrightarrow> (\<exists>x \<in> set (se_iters s). ir_hold x = Some (Detached k))"
      using inv by (simp add: s0_def session_inv_def blocks_held_def)
    also have "\<dots> \<longleftrightarrow> (\<exists>x \<in> set (se_iters s0). ir_hold x = Some (Detached k)) \<or> ir_hold i = Some (Detached k)"
      unfolding s0_def i_def using j by (simp add: holder_updated)
    finally show "se_detached s0 ! k \<noteq> None \<longleftrightarrow>
      (\<exists>x \<in> set (se_iters s0). ir_hold x = Some (Detached k)) \<or> ir_hold i = Some (Detached k)" .
  qed
  ultimately have s1: "session_inv X f s1" and iters1: "se_iters s1 = (if drops_block f i then se_iters s0 else se_iters s)"
    using drop_hold_inv [of X f s0 "ir_hold i"] inv by (simp_all add: s1_def)
  have at: "it_done (ir_pos i) \<or> (\<exists>n. iter_at X f n (ir_pos i))" using i_ok by (simp add: iterator_ok_def)
  have m: "op_charges X f (\<lambda>_. 0) (advance X f i)" using advance_ok [OF ok _ at] by (auto simp: op_charges_def)
  note arcs = with_arcs_ok [OF m s1 s2]
  have len: "length (se_iters s2) = length (se_iters s)" using arcs(5) iters1 by (auto simp: s0_def split: if_splits)
  then have old_ok: "iterator_ok X f s2 (se_iters s2 ! j)" using arcs(3) j by simp
  obtain base st st' where st: "open_inv X f base st" "advance X f i st = (pos, st')"
    "cached_bytes st' \<noteq> None \<longrightarrow> cached_bytes (se_state s2) \<noteq> None" using arcs(6) by blast
  have slot: "cached_bytes (se_state s2) \<noteq> None"
    if "it_current (ir_pos i) = None \<or> drops_block f i" "it_current pos \<noteq> None"
    using advance_block(1) [OF st(2)] that st(3) by blast
  have "iterator_ok X f s2 new"
    using advance_ok [OF ok st(1) at st(2)] slot old_ok
    by (auto simp: iterator_ok_def new_def split: option.splits block_hold.splits)
  then have its: "\<forall>x \<in> set ((se_iters s2)[j := new]). iterator_ok X f s2 x"
    using arcs(3) set_update_subset_insert [of "se_iters s2" j new] by blast
  have same: "ir_hold new = Some (Detached k) \<longleftrightarrow> ir_hold (se_iters s2 ! j) = Some (Detached k)" for k
  proof
    assume "ir_hold new = Some (Detached k)"
    then show "ir_hold (se_iters s2 ! j) = Some (Detached k)" by (auto simp: new_def split: if_splits)
  next
    assume h: "ir_hold (se_iters s2 ! j) = Some (Detached k)"
    have "ir_hold (se_iters s1 ! j) \<noteq> None"
      using arcs(5) h len j by (auto simp: nth_map iters1 s0_def split: if_splits)
    then have d: "\<not> drops_block f i" and "ir_hold i \<noteq> None" using iters1 j by (auto simp: s0_def i_def split: if_splits)
    then have c: "it_current (ir_pos i) \<noteq> None" using i_ok by (auto simp: iterator_ok_def)
    then show "ir_hold new = Some (Detached k)" using advance_block(2) [OF st(2) c d] d h by (auto simp: new_def)
  qed
  have "blocks_held (s2\<lparr>se_iters := (se_iters s2)[j := new]\<rparr>)"
    using arcs(2) holder_replaced [of j "se_iters s2" new] same len j by (auto simp: blocks_held_def)
  moreover have "charged X f 0 (s2\<lparr>se_iters := (se_iters s2)[j := new]\<rparr>)" using arcs(1) by (simp add: charged_def detached_bytes_def)
  moreover have "iterator_ok X f (s2\<lparr>se_iters := (se_iters s2)[j := new]\<rparr>) x" if "iterator_ok X f s2 x" for x
    using that by (simp add: iterator_ok_def)
  ultimately show ?thesis unfolding run session_inv_def using its by simp
qed

lemma with_arcs_keeps:
  assumes "session_inv X f s" and "with_arcs m s = (r, s')" and k: "keeps (open_inv X f) m Q"
  shows "session_inv X f s'"
proof -
  have "op_charges X f (\<lambda>_. 0) m" using runsD [OF k] unfolding op_charges_def by (fastforce split: sum.splits)
  from with_arcs_ok [OF this assms(1,2)] show ?thesis by (simp add: session_inv_def)
qed

lemma with_arcs_page:
  assumes "session_inv X f s" and "with_arcs m s = (r, s')" and m: "runs (open_inv X f) page_bytes m Q"
  shows "case r of Inl e \<Rightarrow> session_inv X f s'
    | Inr p \<Rightarrow> session_inv X f (s'\<lparr>se_pages := page_bytes p # se_pages s'\<rparr>)"
proof -
  have "op_charges X f (\<lambda>r. case r of Inl e \<Rightarrow> 0 | Inr p \<Rightarrow> page_bytes p) m"
    using runsD [OF m] unfolding op_charges_def by (fastforce split: sum.splits)
  note w = with_arcs_ok [OF this assms(1,2)]
  have "blocks_held (s'\<lparr>se_pages := ps\<rparr>) = blocks_held s'"
    "iterator_ok X f (s'\<lparr>se_pages := ps\<rparr>) i = iterator_ok X f s' i" for ps i
    by (simp_all add: blocks_held_def iterator_ok_def)
  then show ?thesis using w by (auto simp: session_inv_def charged_def detached_bytes_def ac_simps split: sum.splits)
qed

lemma session_step_inv:
  assumes step: "session_step X f s s'" and ok: "file_ok X f" and inv: "session_inv X f s"
  shows "session_inv X f s'"
  using step
proof cases
  case (key n r)
  show ?thesis by (rule with_arcs_keeps [OF inv key key_at_ordinal_keeps [OF ok]])
next
  case (keys ns r)
  show ?thesis by (rule with_arcs_keeps [OF inv keys keys_at_ordinals_keeps [OF ok]])
next
  case (record_of n r)
  show ?thesis by (rule with_arcs_keeps [OF inv record_of record_at_ordinal_keeps [OF ok]])
next
  case (span start stop r)
  show ?thesis by (rule with_arcs_keeps [OF inv span read_record_span_keeps [OF file_ok_layout [OF ok]]])
next
  case (visit start stop visitor v r)
  show ?thesis by (rule with_arcs_keeps [OF inv visit visit_record_span_keeps [OF file_ok_layout [OF ok]]])
next
  case (locate query r)
  show ?thesis by (rule with_arcs_keeps [OF inv locate(2) locate_keys_keeps [OF ok locate(1)]])
next
  case (prefix query limit r)
  show ?thesis by (rule with_arcs_keeps [OF inv prefix(2) locate_prefix_keeps [OF ok prefix(1)]])
next
  case (scan visit v r)
  show ?thesis by (rule with_arcs_keeps [OF inv scan scan_normalized_keys_keeps [OF ok]])
next
  case (page query off limit p s1)
  show ?thesis using with_arcs_page [OF inv page(3) locate_key_page_runs [OF ok page(2)]] by (simp add: page(1))
next
  case (page_fails query off limit e)
  show ?thesis using with_arcs_page [OF inv page_fails(2) locate_key_page_runs [OF ok page_fails(1)]] by simp
next
  case (variants query off limit p s1)
  show ?thesis using with_arcs_page [OF inv variants(3) locate_case_variants_runs [OF ok variants(2)]] by (simp add: variants(1))
next
  case (variants_fail query off limit e)
  show ?thesis using with_arcs_page [OF inv variants_fail(2) locate_case_variants_runs [OF ok variants_fail(1)]] by simp
next
  case (drop_page before n after)
  have "open_inv X f (layout_bytes (mf_layout f) + sum_list (before @ after) + detached_bytes s + n) (se_state s)"
    using inv drop_page(2) by (simp add: session_inv_def charged_def ac_simps)
  from drop_bytes_inv [OF this] show ?thesis
    using inv by (auto simp: drop_page(1) session_inv_def charged_def detached_bytes_def blocks_held_def iterator_ok_def
        split: option.splits block_hold.splits)
next
  case (open_iterator kind)
  have "iterator_ok X f s \<lparr>ir_kind = kind, ir_pos = iter_new, ir_hold = None\<rparr>"
    using iter_new_at [OF ok] by (auto simp: iterator_ok_def)
  moreover have "iterator_ok X f (s\<lparr>se_iters := xs\<rparr>) = iterator_ok X f s" for xs
    by (rule ext) (simp add: iterator_ok_def)
  ultimately show ?thesis using inv by (auto simp: open_iterator session_inv_def charged_def detached_bytes_def blocks_held_def)
next
  case (step_iterator j)
  then show ?thesis using iterator_next_inv [OF ok inv] by simp
next
  case (drop_iterator before i after)
  have [simp]: "iterator_ok X f (s\<lparr>se_iters := xs\<rparr>) = iterator_ok X f s" for xs
    by (rule ext) (simp add: iterator_ok_def)
  show ?thesis
    unfolding drop_iterator(1)
    by (rule drop_hold_inv(1)) (use inv drop_iterator(2) in \<open>auto simp: session_inv_def charged_def detached_bytes_def blocks_held_def\<close>)
qed

text \<open>The sessions of a file that opens.\<close>

definition session_new :: "file_state \<Rightarrow> session" where
  "session_new st = \<lparr>se_state = st, se_pages = [], se_iters = [], se_detached = []\<rparr>"

definition session_reachable ::
    "externals \<Rightarrow> bytes \<Rightarrow> container_kind \<Rightarrow> open_options \<Rightarrow> mdict_file \<Rightarrow> session \<Rightarrow> bool" where
  "session_reachable X content kind opts f s \<longleftrightarrow>
     (\<exists>st. mdict_open X content kind opts = Inr (f, st) \<and> (session_step X f)\<^sup>*\<^sup>* (session_new st) s)"

lemma session_reachable_inv:
  assumes r: "session_reachable X content kind opts f s" and X: "externals_ok X"
    and lim: "working_memory_bytes (opt_limits opts) \<le> u64_max"
  shows "file_ok X f" and "session_inv X f s" and "mf_limits f = opt_limits opts"
proof -
  obtain st where o: "mdict_open X content kind opts = Inr (f, st)" and steps: "(session_step X f)\<^sup>*\<^sup>* (session_new st) s"
    using r by (auto simp: session_reachable_def)
  note ok = mdict_open_ok [OF o X lim]
  show "file_ok X f" by (rule ok)
  show "mf_limits f = opt_limits opts" by (rule mdict_open_run [OF o]) simp
  have start: "session_inv X f (session_new st)"
    using ok(2) by (simp add: session_inv_def session_new_def charged_def detached_bytes_def blocks_held_def locator_cache_ok_def)
  from steps show "session_inv X f s"
    by (induction rule: rtranclp_induct) (simp_all add: start session_step_inv [OF _ ok(1)])
qed

end
