(* ===== verification/Sample.thy ===== *)
theory Sample
  imports Session "HOL-Library.Code_Target_Numeral"
begin

text \<open>
  A small open dictionary on which the properties are exercised: the three keys \<^verbatim>\<open>Ab\<close>,
  \<^verbatim>\<open>ab\<close> and \<^verbatim>\<open>b\<close> in two version 1 key blocks, and the records
  \<^verbatim>\<open>one\<close>, \<^verbatim>\<open>two\<close> and \<^verbatim>\<open>three\<close> in two record blocks whose border falls
  inside the second record. Its source holds the four blocks; its normalizer folds case.
\<close>

definition sample_externals :: externals where
  "sample_externals =
     \<lparr>ext_max_utf8_len = (\<lambda>_ n. Some (3 * n)), ext_decode = (\<lambda>_ bs. (InputEmpty, length bs, [])),
      ext_inflate = (\<lambda>_ bs n. (''Done'', length bs, n, replicate n 0)), ext_lzo = None,
      ext_to_lowercase = (\<lambda>c. [c])\<rparr>"

definition sample_source :: file_source where
  "sample_source =
     \<lparr>fs_len = 63, fs_bytes =
        [0, 0, 0, 0, 7, 253, 1, 106, 0, 0, 0, 0, 65, 98, 0, 0, 0, 0, 3, 97, 98, 0,
         0, 0, 0, 0, 0, 220, 0, 105, 0, 0, 0, 6, 98, 0,
         0, 0, 0, 0, 4, 72, 1, 183, 111, 110, 101, 116,
         0, 0, 0, 0, 12, 75, 2, 255, 119, 111, 116, 104, 114, 101, 101]\<rparr>"

definition sample_header :: header where
  "sample_header =
     \<lparr>raw_xml = [], tag_name = [], attributes = [], generated_by_engine_version = ascii ''1.2'',
      required_engine_version = ascii ''1.2'', encoding_label = None, hdr_format = None,
      key_case_sensitive = False, strip_key = False, encrypted = 0, register_by = None,
      reg_code = None, description = None, title = None, creation_date = None\<rparr>"

definition sample_layout :: validated_layout where
  "sample_layout =
     \<lparr>vl_header = sample_header, vl_key_encoding = Utf8, vl_record_encoding = Some Utf8,
      vl_sections =
        \<lparr>sec_header = section_range_new 0 0, sec_keyword_header = section_range_new 0 0,
         sec_keyword_index = section_range_new 0 0, sec_keyword_blocks = section_range_new 0 36,
         sec_record_header = section_range_new 36 0, sec_record_index = section_range_new 36 0,
         sec_record_blocks = section_range_new 36 27\<rparr>,
      vl_total_entries = 3, vl_total_decoded_record_len = 11,
      vl_key_blocks =
        [\<lparr>kb_entry_count = 2, kb_entry_start_index = 0, kb_first_key = ascii ''Ab'',
          kb_last_key = ascii ''ab'', kb_comp_offset = 0, kb_comp_size = 22, kb_decomp_size = 14\<rparr>,
         \<lparr>kb_entry_count = 1, kb_entry_start_index = 2, kb_first_key = ascii ''b'',
          kb_last_key = ascii ''b'', kb_comp_offset = 22, kb_comp_size = 14, kb_decomp_size = 6\<rparr>],
      vl_record_blocks =
        [\<lparr>rb_comp_offset = 36, rb_comp_size = 12, rb_decomp_offset = 0, rb_decomp_size = 4\<rparr>,
         \<lparr>rb_comp_offset = 48, rb_comp_size = 15, rb_decomp_offset = 4, rb_decomp_size = 7\<rparr>],
      vl_wire = v1_decode_key_rows,
      vl_retained = \<lparr>ret_header = 0, ret_key_metadata = 0, ret_record_metadata = 0\<rparr>\<rparr>"

definition sample_file :: mdict_file where
  "sample_file =
     \<lparr>mf_kind = Mdx, mf_source = sample_source, mf_layout = sample_layout,
      mf_normalizer = from_header sample_header Mdx, mf_limits = limits_new, mf_checksum_policy = Verify\<rparr>"

definition sample_state :: file_state where
  "sample_state =
     \<lparr>st_memory = budget_new (working_memory_bytes limits_new), st_key_cache = None,
      st_record_cache = None, st_locator = None\<rparr>"

lemma sample_externals_ok: "externals_ok sample_externals"
  by (auto simp: externals_ok_def sample_externals_def str_len_def well_formed_def)

lemma sample_layout_ok: "layout_ok sample_layout"
proof -
  have "verify sample_layout = Inr ()" by code_simp
  then show ?thesis by (simp only: verify_iff)
qed

lemma sample_ok: "file_ok sample_externals sample_file"
  using sample_externals_ok sample_layout_ok
  by (simp add: file_ok_def sample_file_def) (simp add: sample_layout_def)

lemma sample_inv: "open_inv sample_externals sample_file 0 sample_state"
  by (simp add: file_inv_def sample_state_def sample_file_def budget_ok_def budget_new_def limits_new_def state_bytes_def
      slot_bytes_def locator_slot_bytes_def key_cache_ok_def record_cache_ok_def locator_cache_ok_def u64_max_def)

lemma sample_metadata: "layout_bytes (mf_layout sample_file) = 0"
  by code_simp

text \<open>What the blocks of the sample decode to.\<close>

lemma returns_run: "fst (m b) = Inr x \<Longrightarrow> returns m x"
  by (cases "m b") (auto intro: returnsI)

lemma sample_records:
  "file_records sample_externals sample_file [[111, 110, 101, 116], [119, 111, 116, 104, 114, 101, 101]]"
proof -
  have "fst (decode_record_block_uncached sample_externals sample_file 0 (st_memory sample_state)) =
      Inr \<lparr>drb_bytes = [111, 110, 101, 116], drb_memory = 4\<rparr>" by code_simp
  moreover have "fst (decode_record_block_uncached sample_externals sample_file 1 (st_memory sample_state)) =
      Inr \<lparr>drb_bytes = [119, 111, 116, 104, 114, 101, 101], drb_memory = 7\<rparr>" by code_simp
  moreover have "length (vl_record_blocks (mf_layout sample_file)) = 2" by code_simp
  ultimately show ?thesis
    by (auto simp: file_records_def record_block_decodes_def less_Suc_eq numeral_2_eq_2 dest!: returns_run)
qed

definition sample_rows :: "decoded_key_row list list" where
  "sample_rows =
     [[\<lparr>row_key = ascii ''Ab'', row_record_start = 0\<rparr>, \<lparr>row_key = ascii ''ab'', row_record_start = 3\<rparr>],
      [\<lparr>row_key = ascii ''b'', row_record_start = 6\<rparr>]]"

lemma decodes_run:
  assumes "map_sum id dkb_entries (fst (decode_key_block_uncached X f i b)) = Inr rows"
  shows "key_block_decodes X f i rows"
proof -
  obtain k where "fst (decode_key_block_uncached X f i b) = Inr k" and k: "dkb_entries k = rows"
    using assms by (cases "fst (decode_key_block_uncached X f i b)") auto
  then have "returns (decode_key_block_uncached X f i) k" by (intro returns_run)
  then show ?thesis using k by (cases k) (auto simp: key_block_decodes_def)
qed

lemma sample_file_rows: "file_rows sample_externals sample_file sample_rows"
proof -
  have "map_sum id dkb_entries (fst (decode_key_block_uncached sample_externals sample_file 0 (st_memory sample_state))) =
      Inr (sample_rows ! 0)" by code_simp
  moreover have "map_sum id dkb_entries (fst (decode_key_block_uncached sample_externals sample_file 1 (st_memory sample_state))) =
      Inr (sample_rows ! 1)" by code_simp
  moreover have "key_block_count sample_file = 2" and "length sample_rows = 2" by code_simp+
  ultimately show ?thesis
    by (auto simp: file_rows_def less_Suc_eq numeral_2_eq_2 intro: decodes_run)
qed

lemma sample_keys: "file_keys sample_externals sample_file [ascii ''Ab'', ascii ''ab'', ascii ''b'']"
proof -
  have len: "mf_len sample_file = 3" by code_simp
  have "key_row_at sample_externals sample_file n (concat sample_rows ! n)" if "n < 3" for n
    using key_row_at_file_rows(2) [OF sample_ok sample_file_rows] that by (simp add: len)
  moreover have "[ascii ''Ab'', ascii ''ab'', ascii ''b''] ! n = row_key (concat sample_rows ! n)" if "n < 3" for n
    using that by (auto simp: sample_rows_def less_Suc_eq numeral_3_eq_3)
  ultimately show ?thesis unfolding file_keys_def len by auto
qed

section \<open>A file that opens\<close>

text \<open>The bytes of a whole version 1 dictionary with one key \<^verbatim>\<open>a\<close> and one record
  \<^verbatim>\<open>x\<close>, checksums included, and what opening it gives.\<close>

definition demo_content :: bytes where
  "demo_content =
     [0, 0, 0, 170, 60, 0, 68, 0, 105, 0, 99, 0, 116, 0, 105, 0, 111, 0, 110, 0, 97, 0, 114, 0,
      121, 0, 32, 0, 71, 0, 101, 0, 110, 0, 101, 0, 114, 0, 97, 0, 116, 0, 101, 0, 100, 0, 66,
      0, 121, 0, 69, 0, 110, 0, 103, 0, 105, 0, 110, 0, 101, 0, 86, 0, 101, 0, 114, 0, 115, 0,
      105, 0, 111, 0, 110, 0, 61, 0, 34, 0, 49, 0, 34, 0, 32, 0, 82, 0, 101, 0, 113, 0, 117, 0,
      105, 0, 114, 0, 101, 0, 100, 0, 69, 0, 110, 0, 103, 0, 105, 0, 110, 0, 101, 0, 86, 0, 101,
      0, 114, 0, 115, 0, 105, 0, 111, 0, 110, 0, 61, 0, 34, 0, 49, 0, 34, 0, 32, 0, 69, 0, 110,
      0, 99, 0, 111, 0, 100, 0, 105, 0, 110, 0, 103, 0, 61, 0, 34, 0, 85, 0, 84, 0, 70, 0, 45,
      0, 56, 0, 34, 0, 47, 0, 62, 0, 131, 29, 124, 117, 0, 0, 0, 1, 0, 0, 0, 1, 0, 0, 0, 16, 0,
      0, 0, 14, 0, 0, 0, 1, 1, 97, 1, 97, 0, 0, 0, 14, 0, 0, 0, 6, 0, 0, 0, 0, 0, 200, 0, 98, 0,
      0, 0, 0, 97, 0, 0, 0, 0, 1, 0, 0, 0, 1, 0, 0, 0, 8, 0, 0, 0, 9, 0, 0, 0, 9, 0, 0, 0, 1, 0,
      0, 0, 0, 0, 121, 0, 121, 120]"

definition demo_file :: mdict_file where
  "demo_file = fst (projr (mdict_open sample_externals demo_content Mdx open_options_new))"

definition demo_state :: file_state where
  "demo_state = snd (projr (mdict_open sample_externals demo_content Mdx open_options_new))"

lemma demo_opens:
  "mdict_open sample_externals demo_content Mdx open_options_new = Inr (demo_file, demo_state)"
proof -
  have "case mdict_open sample_externals demo_content Mdx open_options_new of Inr _ \<Rightarrow> True | Inl _ \<Rightarrow> False"
    by code_simp
  then show ?thesis by (simp add: demo_file_def demo_state_def split: sum.splits)
qed

lemma demo_limits: "working_memory_bytes (opt_limits open_options_new) \<le> u64_max"
  by code_simp

definition demo_source :: file_source where
  "demo_source = \<lparr>fs_len = length demo_content, fs_bytes = demo_content\<rparr>"

end
