(* ===== verification/Budget_Steps.thy ===== *)
theory Budget_Steps
  imports Limits
begin

text \<open>
  The memory budget shared by threads (\<^verbatim>\<open>src/src/limits.rs\<close>): \<open>MemoryBudget::claim\<close> is a
  compare-exchange loop on \<open>used\<close>, followed by a \<open>fetch_max\<close> on \<open>peak\<close>; a reservation dropped is
  a \<open>fetch_sub\<close>. Each atomic access is one step of \<open>budget_step\<close> and the threads interleave in any
  order; a weak compare-exchange may fail although the value it expects is there. The invariant is
  that no update is lost. \<open>claim\<close> and \<open>release\<close> of \<open>Limits\<close> are what one thread does when no
  other one moves.
\<close>

text \<open>Where a thread is: before its call, in the loop with the value it saw last, after the
  exchange and before the peak is raised, holding its reservation, or given an error.\<close>

datatype phase = Idle | Trying nat nat | Raising nat nat | Holding nat | Refused error

type_synonym budget_state = "budget \<times> phase list"

definition claim_next :: "nat \<Rightarrow> nat \<Rightarrow> nat \<Rightarrow> nat result" where
  "claim_next maximum n current =
     and_then (ok_or (checked_add current n) (LimitExceeded ''working_memory_bytes'' u64_max maximum)) (\<lambda>nxt.
     if maximum < nxt then Inl (LimitExceeded ''working_memory_bytes'' nxt maximum) else Inr nxt)"

inductive budget_step :: "budget_state \<Rightarrow> budget_state \<Rightarrow> bool" where
  load: "i < length ts \<Longrightarrow> ts ! i = Idle \<Longrightarrow> budget_step (b, ts) (b, ts[i := Trying n (mb_used b)])"
| refuse: "i < length ts \<Longrightarrow> ts ! i = Trying n current \<Longrightarrow> claim_next (mb_max b) n current = Inl e \<Longrightarrow>
    budget_step (b, ts) (b, ts[i := Refused e])"
| exchange: "i < length ts \<Longrightarrow> ts ! i = Trying n current \<Longrightarrow> claim_next (mb_max b) n current = Inr nxt \<Longrightarrow>
    mb_used b = current \<Longrightarrow> budget_step (b, ts) (b\<lparr>mb_used := nxt\<rparr>, ts[i := Raising n nxt])"
| retry: "i < length ts \<Longrightarrow> ts ! i = Trying n current \<Longrightarrow> claim_next (mb_max b) n current = Inr nxt \<Longrightarrow>
    budget_step (b, ts) (b, ts[i := Trying n (mb_used b)])"
| lift_peak: "i < length ts \<Longrightarrow> ts ! i = Raising n nxt \<Longrightarrow>
    budget_step (b, ts) (b\<lparr>mb_peak := max (mb_peak b) nxt\<rparr>, ts[i := Holding n])"
| give_back: "i < length ts \<Longrightarrow> ts ! i = Holding n \<Longrightarrow> budget_step (b, ts) (release n b, ts[i := Idle])"
| return_error: "i < length ts \<Longrightarrow> ts ! i = Refused e \<Longrightarrow> budget_step (b, ts) (b, ts[i := Idle])"

definition budget_start :: "nat \<Rightarrow> nat \<Rightarrow> budget_state" where
  "budget_start maximum threads = (budget_new maximum, replicate threads Idle)"

definition budget_reachable :: "nat \<Rightarrow> nat \<Rightarrow> budget_state \<Rightarrow> bool" where
  "budget_reachable maximum threads s \<longleftrightarrow> budget_step\<^sup>*\<^sup>* (budget_start maximum threads) s"

section \<open>No update is lost\<close>

text \<open>The bytes a thread has taken from the budget.\<close>

fun taken :: "phase \<Rightarrow> nat" where
  "taken (Raising n nxt) = n"
| "taken (Holding n) = n"
| "taken _ = 0"

definition taken_bytes :: "phase list \<Rightarrow> nat" where
  "taken_bytes ts = sum_list (map taken ts)"

lemma taken_bytes_update:
  "i < length ts \<Longrightarrow> taken_bytes (ts[i := p]) + taken (ts ! i) = taken_bytes ts + taken p"
  unfolding taken_bytes_def
proof (induction ts arbitrary: i)
  case (Cons t ts)
  then show ?case by (cases i) (auto simp: algebra_simps dest: Cons.IH)
qed simp

lemma taken_le: "i < length ts \<Longrightarrow> taken (ts ! i) \<le> taken_bytes ts"
  unfolding taken_bytes_def using elem_le_sum_list [of i "map taken ts"] by simp

text \<open>The peak covers what is in use, but for an exchange whose peak is still to be raised.\<close>

definition covered :: "nat \<Rightarrow> budget \<Rightarrow> phase list \<Rightarrow> bool" where
  "covered u b ts \<longleftrightarrow> u \<le> mb_peak b \<or> (\<exists>n nxt. Raising n nxt \<in> set ts \<and> u \<le> nxt)"

definition shared_ok :: "nat \<Rightarrow> budget_state \<Rightarrow> bool" where
  "shared_ok maximum s \<longleftrightarrow> (case s of (b, ts) \<Rightarrow>
     mb_max b = maximum \<and> mb_used b = taken_bytes ts \<and> mb_used b \<le> maximum \<and> mb_peak b \<le> maximum \<and>
     (\<forall>n nxt. Raising n nxt \<in> set ts \<longrightarrow> nxt \<le> maximum) \<and> covered (mb_used b) b ts)"

lemma claim_next_Inr [simp]:
  "claim_next maximum n current = Inr nxt \<longleftrightarrow> nxt = current + n \<and> current + n \<le> u64_max \<and> current + n \<le> maximum"
  by (auto simp: claim_next_def checked_add_def)

lemma set_updated: "i < length ts \<Longrightarrow> x \<in> set (ts[i := p]) \<Longrightarrow> x = p \<or> x \<in> set ts"
  using set_update_subset_insert by fastforce

lemma kept_in_update: "x \<in> set ts \<Longrightarrow> i < length ts \<Longrightarrow> ts ! i \<noteq> x \<Longrightarrow> x \<in> set (ts[i := p])"
  by (metis in_set_conv_nth length_list_update nth_list_update_neq)

text \<open>A phase replaced by another one that is not an exchange, the raised one covering it.\<close>

lemma covered_update:
  assumes "covered u b ts" and "u' \<le> u" and "i < length ts"
    and "mb_peak b \<le> mb_peak b'" and "\<And>n nxt. ts ! i = Raising n nxt \<Longrightarrow> nxt \<le> mb_peak b'"
  shows "covered u' b' (ts[i := p])"
proof (cases "u \<le> mb_peak b")
  case True
  then show ?thesis using assms(2,4) by (simp add: covered_def)
next
  case False
  then obtain n nxt where r: "Raising n nxt \<in> set ts" "u \<le> nxt" using assms(1) by (auto simp: covered_def)
  show ?thesis
  proof (cases "ts ! i = Raising n nxt")
    case True
    then show ?thesis using assms(2) assms(5) [OF True] r(2) by (auto simp: covered_def)
  next
    case False
    then show ?thesis using kept_in_update [OF r(1) assms(3) False, of p] r(2) assms(2)
      unfolding covered_def by (meson order_trans)
  qed
qed

lemma release_exact: "n \<le> mb_used b \<Longrightarrow> mb_used b \<le> u64_max \<Longrightarrow> mb_used (release n b) = mb_used b - n"
proof -
  assume "n \<le> mb_used b" and le: "mb_used b \<le> u64_max"
  then have "mb_used b + (u64_max + 1) - n = (mb_used b - n) + (u64_max + 1)" by simp
  then have "(mb_used b + (u64_max + 1) - n) mod (u64_max + 1) = (mb_used b - n) mod (u64_max + 1)"
    by (simp only: mod_add_self2)
  also have "\<dots> = mb_used b - n" using le by (intro mod_less) simp
  finally show ?thesis by (simp add: release_def)
qed

lemma budget_step_ok:
  assumes step: "budget_step s s'" and ok: "shared_ok maximum s" and small: "maximum \<le> u64_max"
  shows "shared_ok maximum s'"
  using step
proof cases
  case (load i ts b n)
  then show ?thesis
    using ok taken_bytes_update [of i ts "Trying n (mb_used b)"] covered_update [of "mb_used b" b ts "mb_used b" i b]
    by (auto simp: shared_ok_def dest: set_updated)
next
  case (refuse i ts n current b e)
  then show ?thesis
    using ok taken_bytes_update [of i ts "Refused e"] covered_update [of "mb_used b" b ts "mb_used b" i b]
    by (auto simp: shared_ok_def dest: set_updated)
next
  case (exchange i ts n current b nxt)
  have "covered nxt (b\<lparr>mb_used := nxt\<rparr>) (ts[i := Raising n nxt])"
    using set_update_memI [OF exchange(3)] by (auto simp: covered_def)
  then show ?thesis
    using ok exchange taken_bytes_update [of i ts "Raising n nxt"] by (auto simp: shared_ok_def dest: set_updated)
next
  case (retry i ts n current b nxt)
  then show ?thesis
    using ok taken_bytes_update [of i ts "Trying n (mb_used b)"] covered_update [of "mb_used b" b ts "mb_used b" i b]
    by (auto simp: shared_ok_def dest: set_updated)
next
  case (lift_peak i ts n nxt b)
  have "Raising n nxt \<in> set ts" using lift_peak(3,4) by (metis nth_mem)
  then show ?thesis
    using ok lift_peak taken_bytes_update [of i ts "Holding n"]
      covered_update [of "mb_used b" b ts "mb_used b" i "b\<lparr>mb_peak := max (mb_peak b) nxt\<rparr>"]
    by (auto simp: shared_ok_def dest: set_updated)
next
  case (give_back i ts n b)
  have n: "n \<le> mb_used b" "mb_used b \<le> u64_max"
    using ok small taken_le [OF give_back(3)] give_back by (auto simp: shared_ok_def)
  have "mb_peak (release n b) = mb_peak b" "mb_max (release n b) = mb_max b" by (simp_all add: release_def)
  then show ?thesis
    using ok give_back taken_bytes_update [of i ts Idle] release_exact [OF n]
      covered_update [of "mb_used b" b ts "mb_used b - n" i "release n b"]
    by (auto simp: shared_ok_def dest: set_updated)
next
  case (return_error i ts e b)
  then show ?thesis
    using ok taken_bytes_update [of i ts Idle] covered_update [of "mb_used b" b ts "mb_used b" i b]
    by (auto simp: shared_ok_def dest: set_updated)
qed

lemma budget_start_ok: "shared_ok maximum (budget_start maximum threads)"
  by (auto simp: shared_ok_def budget_start_def budget_new_def taken_bytes_def covered_def)

lemma budget_reachable_ok:
  assumes "budget_reachable maximum threads s" and small: "maximum \<le> u64_max"
  shows "shared_ok maximum s"
proof -
  have "budget_step\<^sup>*\<^sup>* (budget_start maximum threads) s" using assms(1) by (simp add: budget_reachable_def)
  then show ?thesis
    by (induction rule: rtranclp_induct) (simp_all add: budget_start_ok budget_step_ok [OF _ _ small])
qed

text \<open>When no thread is between its exchange and its \<open>fetch_max\<close>, the peak is a peak.\<close>

lemma quiet_peak:
  "shared_ok maximum (b, ts) \<Longrightarrow> (\<And>n nxt. Raising n nxt \<notin> set ts) \<Longrightarrow> budget_ok b \<longleftrightarrow> maximum \<le> u64_max"
  by (auto simp: shared_ok_def covered_def budget_ok_def)

section \<open>A thread alone\<close>

lemma claim_cases:
  "claim n b =
     (case claim_next (mb_max b) n (mb_used b) of
        Inl e \<Rightarrow> (Inl e, b)
      | Inr nxt \<Rightarrow> (Inr (), b\<lparr>mb_used := nxt, mb_peak := max (mb_peak b) nxt\<rparr>))"
  unfolding claim_def claim_next_def
  by (cases "mb_used b + n \<le> u64_max"; cases "mb_max b < mb_used b + n") (simp_all add: checked_add_def)

lemma claim_runs_alone:
  assumes i: "i < length ts" and idle: "ts ! i = Idle"
  shows "case claim n b of
      (Inl e, b') \<Rightarrow> budget_step\<^sup>*\<^sup>* (b, ts) (b', ts[i := Refused e])
    | (Inr _, b') \<Rightarrow> budget_step\<^sup>*\<^sup>* (b, ts) (b', ts[i := Holding n])"
proof -
  let ?ts = "ts[i := Trying n (mb_used b)]"
  have 1: "budget_step (b, ts) (b, ?ts)" by (rule load [OF i idle])
  have i': "i < length ?ts" and at: "?ts ! i = Trying n (mb_used b)" using i by simp_all
  show ?thesis
  proof (cases "claim_next (mb_max b) n (mb_used b)")
    case (Inl e)
    have "budget_step (b, ?ts) (b, ts[i := Refused e])" using refuse [OF i' at Inl] by simp
    then show ?thesis using 1 Inl by (simp add: claim_cases)
  next
    case (Inr nxt)
    let ?ts2 = "ts[i := Raising n nxt]" and ?b = "b\<lparr>mb_used := nxt\<rparr>"
    have 2: "budget_step (b, ?ts) (?b, ?ts2)" using exchange [OF i' at Inr refl] by simp
    have "budget_step (?b, ?ts2) (?b\<lparr>mb_peak := max (mb_peak ?b) nxt\<rparr>, ts[i := Holding n])"
      using lift_peak [of i ?ts2 n nxt ?b] i by simp
    then have "budget_step\<^sup>*\<^sup>* (b, ts) (?b\<lparr>mb_peak := max (mb_peak ?b) nxt\<rparr>, ts[i := Holding n])"
      using 1 2 by (meson converse_rtranclp_into_rtranclp r_into_rtranclp)
    then show ?thesis unfolding claim_cases Inr by simp
  qed
qed

text \<open>A refusal is honest: the value it was computed from was in use when the thread read it, so
  the request did not fit beside it.\<close>

lemma refusal: "claim_next maximum n current = Inl e \<Longrightarrow> maximum < current + n \<or> u64_max < current + n"
  by (auto simp: claim_next_def checked_add_def split: if_splits)

text \<open>A thread in the loop can always finish by itself: it refreshes the value it saw once, and then
  its exchange succeeds or its request is refused.\<close>

lemma claim_finishes:
  assumes i: "i < length ts" and at: "ts ! i = Trying n current"
  shows "(\<exists>b'. budget_step\<^sup>*\<^sup>* (b, ts) (b', ts[i := Holding n])) \<or>
    (\<exists>e. budget_step\<^sup>*\<^sup>* (b, ts) (b, ts[i := Refused e]))"
proof (cases "claim_next (mb_max b) n current")
  case (Inl e)
  then show ?thesis using refuse [OF i at] by blast
next
  case (Inr nxt)
  let ?ts = "ts[i := Trying n (mb_used b)]"
  have 1: "budget_step (b, ts) (b, ?ts)" by (rule retry [OF i at Inr])
  have i': "i < length ?ts" and at': "?ts ! i = Trying n (mb_used b)" using i by simp_all
  show ?thesis
  proof (cases "claim_next (mb_max b) n (mb_used b)")
    case (Inl e)
    have "budget_step (b, ?ts) (b, ts[i := Refused e])" using refuse [OF i' at' Inl] by simp
    then show ?thesis using 1 by (meson converse_rtranclp_into_rtranclp r_into_rtranclp)
  next
    case (Inr nxt)
    let ?b = "b\<lparr>mb_used := nxt\<rparr>" and ?ts2 = "ts[i := Raising n nxt]"
    have 2: "budget_step (b, ?ts) (?b, ?ts2)" using exchange [OF i' at' Inr refl] by simp
    have "budget_step (?b, ?ts2) (?b\<lparr>mb_peak := max (mb_peak ?b) nxt\<rparr>, ts[i := Holding n])"
      using lift_peak [of i ?ts2 n nxt ?b] i by simp
    then show ?thesis using 1 2 by (meson converse_rtranclp_into_rtranclp r_into_rtranclp)
  qed
qed

end
