(* ===== verification/Lookup_Results.thy ===== *)
theory Lookup_Results
  imports Case_Variants
begin

text \<open>
  The results of a lookup as the facades hand them out (\<^verbatim>\<open>src/src/lookup.rs\<close>): \<open>KeyMatches\<close>
  and \<open>KeyMatchPage\<close> wrap what the core located. \<open>first\<close> and the iterators \<open>expect\<close> an ordinal where
  they read one; the lemmas show that on the results of the core none of these reads fails.
\<close>

datatype match_mode = PreferExact | IncludeCaseVariants

datatype match_basis = MatchRawExact | MatchHeaderNormalized | MatchCaseVariants

definition match_basis_of :: "locator_basis \<Rightarrow> match_basis" where
  "match_basis_of b =
     (case b of RawExact \<Rightarrow> MatchRawExact | HeaderNormalized \<Rightarrow> MatchHeaderNormalized
      | CaseVariants \<Rightarrow> MatchCaseVariants)"

section \<open>Matches\<close>

type_synonym key_matches = located_keys

definition km_basis :: "key_matches \<Rightarrow> match_basis" where
  "km_basis k = match_basis_of (lk_basis k)"

definition km_len :: "key_matches \<Rightarrow> nat" where
  "km_len k = lk_len k"

definition km_is_empty :: "key_matches \<Rightarrow> bool" where
  "km_is_empty k \<longleftrightarrow> lk_len k = 0"

definition km_get :: "key_matches \<Rightarrow> nat \<Rightarrow> nat option" where
  "km_get k index = lk_ordinal_at k index"

text \<open>\<open>expect\<close> panics where \<open>the\<close> is unspecified.\<close>

definition km_first :: "key_matches \<Rightarrow> nat" where
  "km_first k = the (lk_ordinal_at k 0)"

definition km_iter :: "key_matches \<Rightarrow> nat list" where
  "km_iter k = map (\<lambda>index. the (lk_ordinal_at k index)) [0..<lk_len k]"

lemma km_iter_list: "located_ok k \<Longrightarrow> km_iter k = lk_list k"
  by (rule nth_equalityI) (simp_all add: km_iter_def located_len located_at get_def)

lemma km_first_hd: "located_ok k \<Longrightarrow> lk_list k \<noteq> [] \<Longrightarrow> lk_ordinal_at k 0 = Some (km_first k) \<and> km_first k = hd (lk_list k)"
  by (simp add: km_first_def located_at get_def hd_conv_nth)

section \<open>Pages\<close>

type_synonym key_match_page = located_key_page

definition kmp_basis :: "key_match_page \<Rightarrow> match_basis" where
  "kmp_basis p = match_basis_of (lkp_basis p)"

definition kmp_total :: "key_match_page \<Rightarrow> nat" where
  "kmp_total p = lkp_total p"

definition kmp_len :: "key_match_page \<Rightarrow> nat" where
  "kmp_len p = length (lkp_ordinals p)"

definition kmp_is_empty :: "key_match_page \<Rightarrow> bool" where
  "kmp_is_empty p \<longleftrightarrow> lkp_ordinals p = []"

definition kmp_get :: "key_match_page \<Rightarrow> nat \<Rightarrow> nat option" where
  "kmp_get p index = lkp_ordinal_at p index"

definition kmp_iter :: "key_match_page \<Rightarrow> nat list" where
  "kmp_iter p = map (\<lambda>index. the (lkp_ordinal_at p index)) [0..<kmp_len p]"

lemma kmp_iter_list: "kmp_iter p = lkp_ordinals p"
  by (rule nth_equalityI) (simp_all add: kmp_iter_def kmp_len_def lkp_ordinal_at_def get_def)

end
