(* ===== verification/Mdx.thy ===== *)
theory Mdx
  imports Lookup_Results Iter
begin

text \<open>
  The dictionary facade (\<^verbatim>\<open>src/src/mdx.rs\<close>): reading and decoding an entry under the
  reservation of its decoded text, lookup with a match mode, prefix completion, and the iterator
  over entries. \<open>entry_answer\<close> is what an entry of the file is, in terms of its key row and the
  decoded record stream; \<open>mode_answer\<close> is the complete answer of a query under a match mode.
\<close>

section \<open>Entries\<close>

record mdx_entry =
  me_key :: key_entry
  me_text :: rstring

text \<open>\<open>trim_end_matches('\0')\<close>.\<close>

definition trim_end_nul :: "rstring \<Rightarrow> rstring" where
  "trim_end_nul s = rev (dropWhile (\<lambda>c. c = 0) (rev s))"

definition decode_record_text :: "externals \<Rightarrow> text_encoding \<Rightarrow> bytes \<Rightarrow> rstring result" where
  "decode_record_text X e bs =
     and_then (decode X e bs ''mdx record'') (\<lambda>txt. Inr (trim_end_nul txt))"

definition read_entry :: "externals \<Rightarrow> mdict_file \<Rightarrow> record_descriptor \<Rightarrow> mdx_entry op" where
  "read_entry X f d =
     otry (ok_or (checked_sub (rd_end d) (rd_start d)) (InvalidFormat ''record range is inverted'')) (\<lambda>encoded_len.
     otry (decoded_record_text_bytes X f encoded_len) (\<lambda>memory.
     oscoped memory (
     obind (read_record_span X f (rd_start d) (rd_end d)) (\<lambda>bs.
     otry (record_text_encoding f) (\<lambda>e.
     otry (decode_record_text X e bs) (\<lambda>txt.
     oret \<lparr>me_key = rd_key d, me_text = txt\<rparr>))))))"

definition mdx_entry_at :: "externals \<Rightarrow> mdict_file \<Rightarrow> nat \<Rightarrow> mdx_entry option op" where
  "mdx_entry_at X f ordinal =
     obind (record_at_ordinal X f ordinal) (\<lambda>d.
     case d of None \<Rightarrow> oret None | Some d \<Rightarrow> obind (read_entry X f d) (\<lambda>e. oret (Some e)))"

section \<open>Queries\<close>

definition mdx_locate :: "externals \<Rightarrow> mdict_file \<Rightarrow> rstring \<Rightarrow> key_matches option op" where
  "mdx_locate X f query = locate_keys X f query"

definition mdx_locate_page :: "externals \<Rightarrow> mdict_file \<Rightarrow> rstring \<Rightarrow> nat \<Rightarrow> nat \<Rightarrow> key_match_page option op" where
  "mdx_locate_page X f query off limit = locate_key_page X f query off limit"

definition includes_case_variants :: "mdict_file \<Rightarrow> match_mode \<Rightarrow> bool" where
  "includes_case_variants f mode \<longleftrightarrow>
     mode = IncludeCaseVariants \<and> \<not> key_case_sensitive (vl_header (mf_layout f))"

text \<open>A page turned into matches moves its reservation along; a page without ordinals is dropped
  with it.\<close>

definition page_into_matches :: "located_key_page \<Rightarrow> ('z file_state_scheme, key_matches option) comp" where
  "page_into_matches p st =
     (case into_matches p of None \<Rightarrow> (Inr None, drop_bytes (lkp_memory p) st) | Some k \<Rightarrow> (Inr (Some k), st))"

definition locate_with_mode :: "externals \<Rightarrow> mdict_file \<Rightarrow> rstring \<Rightarrow> match_mode \<Rightarrow> key_matches option op" where
  "locate_with_mode X f query mode =
     (if includes_case_variants f mode then
        obind (locate_case_variants X f query 0 usize_max) (\<lambda>page.
        case page of Some p \<Rightarrow> page_into_matches p | None \<Rightarrow> mdx_locate X f query)
      else mdx_locate X f query)"

definition locate_page_with_mode ::
    "externals \<Rightarrow> mdict_file \<Rightarrow> rstring \<Rightarrow> nat \<Rightarrow> nat \<Rightarrow> match_mode \<Rightarrow> key_match_page option op" where
  "locate_page_with_mode X f query off limit mode =
     (if includes_case_variants f mode then
        obind (locate_case_variants X f query off limit) (\<lambda>page.
        case page of Some p \<Rightarrow> oret (Some p) | None \<Rightarrow> mdx_locate_page X f query off limit)
      else mdx_locate_page X f query off limit)"

text \<open>\<open>into_iter().flatten().collect()\<close> on optional rows.\<close>

definition flatten_rows :: "'a option list \<Rightarrow> 'a list" where
  "flatten_rows rows = concat (map (\<lambda>r. case r of None \<Rightarrow> [] | Some x \<Rightarrow> [x]) rows)"

definition prefix_keys :: "externals \<Rightarrow> mdict_file \<Rightarrow> rstring \<Rightarrow> nat \<Rightarrow> key_entry list op" where
  "prefix_keys X f prefix limit =
     obind (locate_prefix X f prefix limit) (\<lambda>ordinals.
     obind (keys_at_ordinals X f ordinals) (\<lambda>rows.
     oret (flatten_rows rows)))"

definition mdx_lookup :: "externals \<Rightarrow> mdict_file \<Rightarrow> rstring \<Rightarrow> mdx_entry option op" where
  "mdx_lookup X f query =
     obind (mdx_locate X f query) (\<lambda>matches.
     case matches of None \<Rightarrow> oret None | Some k \<Rightarrow> mdx_entry_at X f (km_first k))"

section \<open>The iterator over entries\<close>

definition mdx_entry_next ::
    "externals \<Rightarrow> mdict_file \<Rightarrow> facade_iter \<Rightarrow> file_state \<Rightarrow> (mdx_entry result option \<times> facade_iter) \<times> file_state" where
  "mdx_entry_next X f = facade_next X f (read_entry X f)"

section \<open>What an entry is\<close>

definition entry_of :: "externals \<Rightarrow> mdict_file \<Rightarrow> record_descriptor \<Rightarrow> mdx_entry \<Rightarrow> bool" where
  "entry_of X f d e \<longleftrightarrow> me_key e = rd_key d \<and>
     (\<exists>bs enc txt. span_bytes X f (rd_start d) (rd_end d) bs \<and> record_text_encoding f = Inr enc \<and>
        decode X enc bs ''mdx record'' = Inr txt \<and> me_text e = trim_end_nul txt \<and>
        length bs \<le> materialized_record_bytes (mf_limits f))"

definition entry_answer :: "externals \<Rightarrow> mdict_file \<Rightarrow> nat \<Rightarrow> mdx_entry \<Rightarrow> bool" where
  "entry_answer X f n e \<longleftrightarrow> (\<exists>d. record_answer X f n d \<and> entry_of X f d e)"

lemma trim_end_nul_split: "\<exists>k. s = trim_end_nul s @ replicate k 0"
proof -
  have "rev s = takeWhile (\<lambda>c. c = 0) (rev s) @ dropWhile (\<lambda>c. c = 0) (rev s)" by simp
  then have "s = trim_end_nul s @ rev (takeWhile (\<lambda>c. c = 0) (rev s))"
    unfolding trim_end_nul_def by (metis rev_append rev_rev_ident)
  moreover have "rev (takeWhile (\<lambda>c. c = 0) (rev s)) = replicate (length (takeWhile (\<lambda>c. c = 0) (rev s))) 0"
    by (rule replicate_eqI) (auto dest: set_takeWhileD)
  ultimately show ?thesis by metis
qed

lemma trim_end_nul_last: "trim_end_nul s = [] \<or> last (trim_end_nul s) \<noteq> 0"
proof (cases "dropWhile (\<lambda>c. c = 0) (rev s)")
  case (Cons x xs)
  then have "x \<noteq> 0" using hd_dropWhile [of "\<lambda>c. c = 0" "rev s"] by simp
  then show ?thesis using Cons by (simp add: trim_end_nul_def)
qed (simp add: trim_end_nul_def)

lemma read_entry_keeps:
  assumes ok: "file_ok X f"
  shows "keeps (records_inv X f LP) (read_entry X f d) (entry_of X f d)"
  unfolding read_entry_def decode_record_text_def
  by (intro runs_try runs_scoped runs_bind [OF read_record_span_keeps [OF file_ok_layout [OF ok]]] runs_lift)
    (auto simp: entry_of_def)

lemma mdx_entry_at_keeps:
  assumes ok: "file_ok X f"
  shows "keeps (records_inv X f LP) (mdx_entry_at X f n)
    (\<lambda>r. case r of None \<Rightarrow> mf_len f \<le> n | Some e \<Rightarrow> n < mf_len f \<and> entry_answer X f n e)"
  unfolding mdx_entry_at_def
proof (rule runs_bind [OF record_at_ordinal_keeps [OF ok]])
  let ?R = "\<lambda>r. case r of None \<Rightarrow> mf_len f \<le> n | Some e \<Rightarrow> n < mf_len f \<and> entry_answer X f n e"
  fix r assume r: "case r of None \<Rightarrow> mf_len f \<le> n | Some d \<Rightarrow> n < mf_len f \<and> record_answer X f n d"
  show "keeps (records_inv X f LP) (case r of None \<Rightarrow> oret None
     | Some d \<Rightarrow> obind (read_entry X f d) (\<lambda>e. oret (Some e))) ?R"
  proof (cases r)
    case None
    then show ?thesis using r by (auto intro: runs_lift)
  next
    case (Some d)
    show ?thesis
      unfolding Some option.case
      by (rule runs_bind [OF read_entry_keeps [OF ok]], rule runs_lift)
        (use r Some in \<open>auto simp: entry_answer_def\<close>)
  qed
qed

text \<open>The bytes of the record are the text and the NULs trimmed from it.\<close>

lemma entry_of_text:
  assumes e: "entry_of X f d e"
  obtains enc bs k where "record_text_encoding f = Inr enc" and "span_bytes X f (rd_start d) (rd_end d) bs"
    and "text_bytes X enc (me_text e @ replicate k 0) bs" and "me_text e = [] \<or> last (me_text e) \<noteq> 0"
proof -
  obtain bs enc t where b: "span_bytes X f (rd_start d) (rd_end d) bs" "decode X enc bs ''mdx record'' = Inr t"
    "me_text e = trim_end_nul t" "record_text_encoding f = Inr enc"
    using e by (auto simp: entry_of_def)
  obtain k where "t = me_text e @ replicate k 0" using trim_end_nul_split [of t] b(3) by auto
  then show ?thesis using that [of enc bs k] b(1,2,4) trim_end_nul_last [of t] unfolding decode_iff b(3) by simp
qed

section \<open>What a query answers\<close>

definition lk_bytes :: "key_matches option \<Rightarrow> nat" where
  "lk_bytes r = (case r of None \<Rightarrow> 0 | Some k \<Rightarrow> lk_owned k)"

definition mode_answer ::
    "externals \<Rightarrow> mdict_file \<Rightarrow> rstring list \<Rightarrow> rstring \<Rightarrow> match_mode \<Rightarrow> (locator_basis \<times> nat list) option" where
  "mode_answer X f keys query mode =
     (let cases = case_answer X query (case_candidates X (mf_normalizer f) keys query) in
      if includes_case_variants f mode \<and> snd cases \<noteq> [] then Some cases
      else reference_lookup X (mf_normalizer f) keys query)"

text \<open>A computation whose result owns memory, passed on to one that disposes of it.\<close>

lemma runs_bind_owned:
  assumes m: "runs I k m Q"
    and f: "\<And>x base st r st'. Q x \<Longrightarrow> I (base + k x) st \<Longrightarrow> f x st = (r, st') \<Longrightarrow>
      (case r of Inl e \<Rightarrow> I base st' | Inr y \<Rightarrow> I (base + k' y) st' \<and> R y)"
  shows "runs I k' (obind m f) R"
proof (rule runsI)
  fix base st r st' assume i: "I base st" and run: "obind m f st = (r, st')"
  obtain r1 st1 where m1: "m st = (r1, st1)" by (cases "m st")
  show "case r of Inl e \<Rightarrow> I base st' | Inr x \<Rightarrow> I (base + k' x) st' \<and> R x"
  proof (cases r1)
    case (Inl e)
    then show ?thesis using run m1 runs_error [OF m i] by (auto simp: obind_def)
  next
    case (Inr x)
    then have "f x st1 = (r, st')" using run m1 by (simp add: obind_def)
    then show ?thesis using runs_result [OF m i] m1 Inr by (blast intro: f)
  qed
qed

lemma mode_answer_plain:
  "\<not> includes_case_variants f mode \<or> snd (case_answer X query (case_candidates X (mf_normalizer f) keys query)) = [] \<Longrightarrow>
     mode_answer X f keys query mode = reference_lookup X (mf_normalizer f) keys query"
  by (auto simp: mode_answer_def Let_def)

definition matches_ok :: "externals \<Rightarrow> mdict_file \<Rightarrow> rstring \<Rightarrow> match_mode \<Rightarrow> key_matches option \<Rightarrow> bool" where
  "matches_ok X f query mode r \<longleftrightarrow>
     (\<exists>keys. file_keys X f keys \<and> mode_answer X f keys query mode = map_option located r) \<and>
     (case r of None \<Rightarrow> True | Some k \<Rightarrow> located_ok k \<and> lk_list k \<noteq> [])"

definition mode_page_ok ::
    "externals \<Rightarrow> mdict_file \<Rightarrow> rstring \<Rightarrow> nat \<Rightarrow> nat \<Rightarrow> match_mode \<Rightarrow> key_match_page option \<Rightarrow> bool" where
  "mode_page_ok X f query off limit mode r \<longleftrightarrow>
     (\<exists>keys. file_keys X f keys \<and>
        (case r of
           None \<Rightarrow> mode_answer X f keys query mode = None
         | Some p \<Rightarrow> \<exists>full. mode_answer X f keys query mode = Some full \<and> page_ok off limit full p))"

lemma reference_lookup_nonempty: "reference_lookup X nrm keys query = Some (basis, ns) \<Longrightarrow> ns \<noteq> []"
  by (auto simp: reference_lookup_def split: if_splits)

text \<open>The plain lookup, whenever the mode has nothing to add.\<close>

lemma mdx_locate_runs:
  assumes ok: "file_ok X f" and q: "well_formed query"
    and plain: "\<And>keys. file_keys X f keys \<Longrightarrow>
      \<not> includes_case_variants f mode \<or> snd (case_answer X query (case_candidates X (mf_normalizer f) keys query)) = []"
  shows "runs (open_inv X f) lk_bytes (mdx_locate X f query) (matches_ok X f query mode)"
  unfolding mdx_locate_def
proof (rule runs_conseq [OF locate_keys_keeps [OF ok q]])
  fix r assume r: "locate_answer X f query (map_option located r) \<and>
    (case r of None \<Rightarrow> True | Some k \<Rightarrow> located_ok k \<and> lk_owned k = 0)"
  then obtain keys where k: "file_keys X f keys"
    "map_option located r = reference_lookup X (mf_normalizer f) keys query"
    by (auto simp: locate_answer_def)
  have "mode_answer X f keys query mode = map_option located r"
    using mode_answer_plain [OF plain [OF k(1)]] k(2) by simp
  moreover have "lk_list k \<noteq> []" if "r = Some k" for k
    using k(2) that by (intro reference_lookup_nonempty [of X "mf_normalizer f" keys query "lk_basis k"]) (simp add: located_def)
  ultimately show "matches_ok X f query mode r \<and> lk_bytes r = 0"
    using r k(1) by (auto simp: matches_ok_def lk_bytes_def split: option.splits)
qed

lemma mdx_locate_page_runs:
  assumes ok: "file_ok X f" and q: "well_formed query"
    and plain: "\<And>keys. file_keys X f keys \<Longrightarrow>
      \<not> includes_case_variants f mode \<or> snd (case_answer X query (case_candidates X (mf_normalizer f) keys query)) = []"
  shows "runs (open_inv X f) page_bytes (mdx_locate_page X f query off limit) (mode_page_ok X f query off limit mode)"
  unfolding mdx_locate_page_def
proof (rule runs_conseq [OF locate_key_page_runs [OF ok q]])
  fix r assume "\<exists>answer. locate_answer X f query answer \<and>
    (case r of None \<Rightarrow> answer = None | Some p \<Rightarrow> \<exists>full. answer = Some full \<and> page_ok off limit full p)"
  then obtain keys where k: "file_keys X f keys" and c:
    "case r of None \<Rightarrow> reference_lookup X (mf_normalizer f) keys query = None
     | Some p \<Rightarrow> \<exists>full. reference_lookup X (mf_normalizer f) keys query = Some full \<and> page_ok off limit full p"
    unfolding locate_answer_def by blast
  show "mode_page_ok X f query off limit mode r \<and> page_bytes r = page_bytes r"
    unfolding mode_page_ok_def using k c [folded mode_answer_plain [OF plain [OF k]]] by blast
qed

lemma case_answer_length:
  assumes ok: "file_ok X f" and keys: "file_keys X f keys"
  shows "length (snd (case_answer X query (case_candidates X (mf_normalizer f) keys query))) \<le> usize_max"
proof -
  let ?c = "case_candidates X (mf_normalizer f) keys query"
  have "length ?c \<le> length keys"
    by (simp add: case_candidates_def normalized_ordinals_def le_trans [OF length_filter_le])
  moreover have "length keys \<le> u64_max"
    using keys file_ok_layout [OF ok] by (simp add: file_keys_def layout_ok_def mf_len_def)
  ultimately show ?thesis
    using classes_length [of query ?c X] by (simp add: case_answer_def width_simps)
qed

lemma locate_with_mode_runs:
  assumes ok: "file_ok X f" and q: "well_formed query"
  shows "runs (open_inv X f) lk_bytes (locate_with_mode X f query mode) (matches_ok X f query mode)"
proof (cases "includes_case_variants f mode")
  case False
  then show ?thesis using mdx_locate_runs [OF ok q, of mode] by (simp add: locate_with_mode_def)
next
  case True
  have "runs (open_inv X f) lk_bytes (obind (locate_case_variants X f query 0 usize_max) (\<lambda>page.
      case page of Some p \<Rightarrow> page_into_matches p | None \<Rightarrow> mdx_locate X f query)) (matches_ok X f query mode)"
  proof (rule runs_bind_owned [OF locate_case_variants_runs [OF ok q]], elim exE conjE)
    fix page base st r st' keys
    assume i: "open_inv X f (base + page_bytes page) st"
      and run: "(case page of Some p \<Rightarrow> page_into_matches p | None \<Rightarrow> mdx_locate X f query) st = (r, st')"
      and keys: "file_keys X f keys"
      and c: "case_page_ok X query 0 usize_max (case_candidates X (mf_normalizer f) keys query) page"
    let ?cases = "case_answer X query (case_candidates X (mf_normalizer f) keys query)"
    show "case r of Inl e \<Rightarrow> open_inv X f base st'
      | Inr y \<Rightarrow> open_inv X f (base + lk_bytes y) st' \<and> matches_ok X f query mode y"
    proof (cases page)
      case None
      then have "snd ?cases = []" using c by (simp add: case_page_ok_def)
      then have "\<not> includes_case_variants f mode \<or> snd (case_answer X query (case_candidates X (mf_normalizer f) ks query)) = []"
        if "file_keys X f ks" for ks using file_keys_unique [OF ok keys that] by simp
      from runsD [OF mdx_locate_runs [OF ok q this], of base st] i run None show ?thesis
        by (simp add: page_bytes_def)
    next
      case (Some p)
      have ne: "snd ?cases \<noteq> []" and p: "page_ok 0 usize_max ?cases p" using c Some by (auto simp: case_page_ok_def)
      have len: "length (snd ?cases) \<le> usize_max" by (rule case_answer_length [OF ok keys])
      have all: "lkp_ordinals p = snd ?cases" "lkp_basis p = fst ?cases"
        using p len by (cases ?cases, auto simp: page_ok_def window_def)
      then show ?thesis
        using i run Some ne True keys
        by (auto simp: page_into_matches_def into_matches_def located_from_owned_def matches_ok_def mode_answer_def Let_def
            located_def lk_list_def located_ok_def lk_bytes_def lk_owned_def page_bytes_def)
    qed
  qed
  then show ?thesis using True by (simp add: locate_with_mode_def)
qed

lemma locate_page_with_mode_runs:
  assumes ok: "file_ok X f" and q: "well_formed query"
  shows "runs (open_inv X f) page_bytes (locate_page_with_mode X f query off limit mode)
    (mode_page_ok X f query off limit mode)"
proof (cases "includes_case_variants f mode")
  case False
  then show ?thesis using mdx_locate_page_runs [OF ok q, of mode] by (simp add: locate_page_with_mode_def)
next
  case True
  have "runs (open_inv X f) page_bytes (obind (locate_case_variants X f query off limit) (\<lambda>page.
      case page of Some p \<Rightarrow> oret (Some p) | None \<Rightarrow> mdx_locate_page X f query off limit))
      (mode_page_ok X f query off limit mode)"
  proof (rule runs_bind_owned [OF locate_case_variants_runs [OF ok q]], elim exE conjE)
    fix page base st r st' keys
    assume i: "open_inv X f (base + page_bytes page) st"
      and run: "(case page of Some p \<Rightarrow> oret (Some p) | None \<Rightarrow> mdx_locate_page X f query off limit) st = (r, st')"
      and keys: "file_keys X f keys"
      and c: "case_page_ok X query off limit (case_candidates X (mf_normalizer f) keys query) page"
    let ?cases = "case_answer X query (case_candidates X (mf_normalizer f) keys query)"
    show "case r of Inl e \<Rightarrow> open_inv X f base st'
      | Inr y \<Rightarrow> open_inv X f (base + page_bytes y) st' \<and> mode_page_ok X f query off limit mode y"
    proof (cases page)
      case None
      then have "snd ?cases = []" using c by (simp add: case_page_ok_def)
      then have "\<not> includes_case_variants f mode \<or> snd (case_answer X query (case_candidates X (mf_normalizer f) ks query)) = []"
        if "file_keys X f ks" for ks using file_keys_unique [OF ok keys that] by simp
      from runsD [OF mdx_locate_page_runs [OF ok q this], of base st] i run None show ?thesis
        by (simp add: page_bytes_def)
    next
      case (Some p)
      then have "mode_answer X f keys query mode = Some ?cases" and "page_ok off limit ?cases p"
        using c True by (auto simp: case_page_ok_def mode_answer_def Let_def)
      then have "mode_page_ok X f query off limit mode page"
        unfolding mode_page_ok_def Some option.case using keys by blast
      then show ?thesis using i run Some by (auto simp: olift_def)
    qed
  qed
  then show ?thesis using True by (simp add: locate_page_with_mode_def)
qed

section \<open>Lookup, completion and the entries in order\<close>

definition lookup_answer :: "externals \<Rightarrow> mdict_file \<Rightarrow> rstring \<Rightarrow> (nat \<Rightarrow> 'a \<Rightarrow> bool) \<Rightarrow> 'a option \<Rightarrow> bool" where
  "lookup_answer X f query A r \<longleftrightarrow>
     (\<exists>keys. file_keys X f keys \<and>
        (case r of
           None \<Rightarrow> reference_lookup X (mf_normalizer f) keys query = None
         | Some x \<Rightarrow> \<exists>basis n ns. reference_lookup X (mf_normalizer f) keys query = Some (basis, n # ns) \<and> A n x))"

lemma reference_lookup_bound: "reference_lookup X nrm keys query = Some (basis, ns) \<Longrightarrow> set ns \<subseteq> {..<length keys}"
  by (auto simp: reference_lookup_def exact_ordinals_def normalized_ordinals_def split: if_splits)

text \<open>Taking the first match and resolving it: shared by the two facades.\<close>

lemma lookup_runs:
  assumes ok: "file_ok X f" and q: "well_formed query"
    and at: "\<And>n. keeps (open_inv X f) (m n)
      (\<lambda>r. case r of None \<Rightarrow> mf_len f \<le> n | Some x \<Rightarrow> n < mf_len f \<and> A n x)"
  shows "keeps (open_inv X f) (obind (locate_keys X f query) (\<lambda>matches.
     case matches of None \<Rightarrow> oret None | Some k \<Rightarrow> m (km_first k))) (lookup_answer X f query A)"
proof (rule runs_bind [OF locate_keys_keeps [OF ok q]])
  fix r assume r: "locate_answer X f query (map_option located r) \<and>
    (case r of None \<Rightarrow> True | Some k \<Rightarrow> located_ok k \<and> lk_owned k = 0)"
  then obtain keys where keys: "file_keys X f keys"
    and ref: "map_option located r = reference_lookup X (mf_normalizer f) keys query"
    unfolding locate_answer_def by blast
  show "keeps (open_inv X f) (case r of None \<Rightarrow> oret None | Some k \<Rightarrow> m (km_first k)) (lookup_answer X f query A)"
  proof (cases r)
    case r: None
    have "lookup_answer X f query A None"
      unfolding lookup_answer_def by (rule exI [of _ keys]) (use keys ref r in simp)
    then show ?thesis unfolding r option.case by (intro runs_lift) simp
  next
    case (Some k)
    have ref: "reference_lookup X (mf_normalizer f) keys query = Some (lk_basis k, lk_list k)"
      using ref Some by (simp add: located_def)
    then have ne: "lk_list k \<noteq> []" by (rule reference_lookup_nonempty)
    have first: "km_first k = hd (lk_list k)" using km_first_hd [OF _ ne] r Some by simp
    have "set (lk_list k) \<subseteq> {..<length keys}" using reference_lookup_bound [OF ref] .
    then have "km_first k < mf_len f" using ne keys by (cases "lk_list k") (auto simp: first file_keys_def)
    then show ?thesis
      unfolding Some option.case
      by (intro runs_conseq [OF at])
        (use keys ref ne first in \<open>auto simp: lookup_answer_def neq_Nil_conv split: option.splits\<close>)
  qed
qed

lemma mdx_lookup_keeps:
  assumes ok: "file_ok X f" and q: "well_formed query"
  shows "keeps (open_inv X f) (mdx_lookup X f query) (lookup_answer X f query (entry_answer X f))"
  unfolding mdx_lookup_def mdx_locate_def by (rule lookup_runs [OF ok q mdx_entry_at_keeps [OF ok]])

lemma flatten_rows_all: "\<forall>r \<in> set rows. r \<noteq> None \<Longrightarrow> flatten_rows rows = map the rows"
  by (induction rows) (auto simp: flatten_rows_def)

lemma lookup_answer_keys:
  assumes ok: "file_ok X f" and keys: "file_keys X f keys" and a: "lookup_answer X f query A r"
  shows "case r of None \<Rightarrow> reference_lookup X (mf_normalizer f) keys query = None
    | Some x \<Rightarrow> \<exists>basis n ns. reference_lookup X (mf_normalizer f) keys query = Some (basis, n # ns) \<and> A n x"
proof -
  obtain ks where ks: "file_keys X f ks" and r: "case r of None \<Rightarrow> reference_lookup X (mf_normalizer f) ks query = None
    | Some x \<Rightarrow> \<exists>basis n ns. reference_lookup X (mf_normalizer f) ks query = Some (basis, n # ns) \<and> A n x"
    using a unfolding lookup_answer_def by blast
  show ?thesis using r unfolding file_keys_unique [OF ok ks keys] .
qed

lemma record_answer_key:
  assumes ok: "file_ok X f" and keys: "file_keys X f keys" and d: "record_answer X f n d"
  shows "rd_key d = \<lparr>ke_ordinal = n, ke_key = keys ! n\<rparr>"
proof -
  obtain row where row: "key_row_at X f n row" "rd_key d = \<lparr>ke_ordinal = n, ke_key = row_key row\<rparr>"
    using d by (auto simp: record_answer_def)
  have "n < length keys" using key_row_at_bound [OF ok row(1)] keys by (simp add: file_keys_def)
  then obtain row' where "key_row_at X f n row'" "keys ! n = row_key row'" by (rule file_keys_nth [OF keys])
  then show ?thesis using key_row_at_unique [OF ok row(1)] row(2) by metis
qed

definition completions ::
    "externals \<Rightarrow> mdict_file \<Rightarrow> rstring \<Rightarrow> nat \<Rightarrow> key_entry list \<Rightarrow> bool" where
  "completions X f prefix limit rows \<longleftrightarrow> limit = 0 \<and> rows = [] \<or>
     (\<exists>keys ns. file_keys X f keys \<and> prefix_order X f keys prefix ns \<and>
        rows = map (\<lambda>n. \<lparr>ke_ordinal = n, ke_key = keys ! n\<rparr>) (take limit ns))"

lemma key_answer_file_keys:
  assumes ok: "file_ok X f" and keys: "file_keys X f keys" and n: "n < mf_len f" and a: "key_answer X f n r"
  shows "r = Some \<lparr>ke_ordinal = n, ke_key = keys ! n\<rparr>"
proof -
  have len: "n < length keys" using keys n by (simp add: file_keys_def)
  obtain row where row: "key_row_at X f n row" "keys ! n = row_key row" by (rule file_keys_nth [OF keys len])
  obtain k row' where k: "r = Some k" "key_row_at X f n row'" "ke_ordinal k = n" "ke_key k = row_key row'"
    using a n by (cases r) (auto simp: key_answer_def)
  have "row' = row" by (rule key_row_at_unique [OF ok k(2) row(1)])
  then show ?thesis using k row(2) by (simp add: key_entry.equality)
qed

lemma prefix_keys_keeps:
  assumes ok: "file_ok X f" and q: "well_formed prefix"
  shows "keeps (open_inv X f) (prefix_keys X f prefix limit) (completions X f prefix limit)"
  unfolding prefix_keys_def
proof (rule runs_bind [OF locate_prefix_keeps [OF ok q]], rule runs_bind [OF keys_at_ordinals_keeps [OF ok]], rule runs_lift)
  fix ordinals rows x
  assume o: "limit = 0 \<and> ordinals = [] \<or>
       (\<exists>keys ns. file_keys X f keys \<and> prefix_order X f keys prefix ns \<and> ordinals = take limit ns)"
    and rows: "length rows = length ordinals \<and> (\<forall>i < length ordinals. key_answer X f (ordinals ! i) (rows ! i))"
    and x: "(Inr (flatten_rows rows) :: key_entry list result) = Inr x"
  show "completions X f prefix limit x"
  proof (cases "limit = 0 \<and> ordinals = []")
    case True
    then show ?thesis using rows x by (simp add: completions_def flatten_rows_def)
  next
    case False
    then obtain keys ns where k: "file_keys X f keys" "prefix_order X f keys prefix ns" "ordinals = take limit ns"
      using o by blast
    have "ordinals ! i < mf_len f" if "i < length ordinals" for i
      using that k nth_mem [of i ordinals] in_set_takeD [of _ limit ns]
      by (auto simp: prefix_order_def file_keys_def)
    then have "rows = map (\<lambda>n. Some \<lparr>ke_ordinal = n, ke_key = keys ! n\<rparr>) ordinals"
      using rows key_answer_file_keys [OF ok k(1)] by (intro nth_equalityI) auto
    then have "x = map (\<lambda>n. \<lparr>ke_ordinal = n, ke_key = keys ! n\<rparr>) ordinals"
      using x flatten_rows_all [of rows] by auto
    then show ?thesis using k by (auto simp: completions_def)
  qed
qed

lemma mdx_entries_steps:
  assumes ok: "file_ok X f"
  shows "steps (records_inv X f LP) (facade_at X f) (mf_len f) (entry_answer X f) (mdx_entry_next X f)"
  unfolding mdx_entry_next_def entry_answer_def by (rule facade_steps [OF ok read_entry_keeps [OF ok]])

end
