(* ===== verification/Mdd.thy ===== *)
theory Mdd
  imports Mdx
begin

text \<open>
  The resource facade (\<^verbatim>\<open>src/src/mdd.rs\<close>): spans bound to the file they came from,
  which are read whole or streamed into a writer, and the iterator over resources. A writer is a
  state and its \<open>write_all\<close>. \<open>resource_of\<close> is what a resource of the file is; \<open>visit_records_bytes\<close>
  relates what a writer saw to the decoded record stream.
\<close>

record mdd_resource =
  mr_key :: key_entry
  mr_bytes :: bytes

record mdd_resource_span =
  ms_key :: key_entry
  ms_start :: nat
  ms_end :: nat
  ms_len :: nat

definition span_new :: "mdict_file \<Rightarrow> record_descriptor \<Rightarrow> mdd_resource_span result" where
  "span_new f d =
     and_then (validate_record_span f (rd_start d) (rd_end d)) (\<lambda>len.
     Inr \<lparr>ms_key = rd_key d, ms_start = rd_start d, ms_end = rd_end d, ms_len = len\<rparr>)"

definition span_is_empty :: "mdd_resource_span \<Rightarrow> bool" where
  "span_is_empty s \<longleftrightarrow> ms_len s = 0"

definition span_read :: "externals \<Rightarrow> mdict_file \<Rightarrow> mdd_resource_span \<Rightarrow> mdd_resource op" where
  "span_read X f s =
     obind (read_record_span X f (ms_start s) (ms_end s)) (\<lambda>bs.
     oret \<lparr>mr_key = ms_key s, mr_bytes = bs\<rparr>)"

text \<open>The closure of \<open>copy_to\<close>: the bytes written so far and the destination.\<close>

definition copy_chunk :: "'w visitor \<Rightarrow> (nat \<times> 'w) visitor" where
  "copy_chunk write_all = (\<lambda>(written, w) chunk.
     and_then (write_all w chunk) (\<lambda>w'.
     if u64_max < length chunk then Inl (InvalidFormat ''resource chunk length exceeds u64'')
     else
     and_then (ok_or (checked_add written (length chunk)) (InvalidFormat ''resource write length overflow'')) (\<lambda>written'.
     Inr (written', w'))))"

definition span_copy_to ::
    "externals \<Rightarrow> mdict_file \<Rightarrow> 'w visitor \<Rightarrow> mdd_resource_span \<Rightarrow> 'w \<Rightarrow> (nat \<times> 'w) op" where
  "span_copy_to X f write_all s w =
     visit_record_span X f (ms_start s) (ms_end s) (copy_chunk write_all) (0, w)"

definition span_at :: "externals \<Rightarrow> mdict_file \<Rightarrow> nat \<Rightarrow> mdd_resource_span option op" where
  "span_at X f ordinal =
     obind (record_at_ordinal X f ordinal) (\<lambda>d.
     case d of None \<Rightarrow> oret None | Some d \<Rightarrow> otry (span_new f d) (\<lambda>s. oret (Some s)))"

definition read_some :: "externals \<Rightarrow> mdict_file \<Rightarrow> mdd_resource_span option \<Rightarrow> mdd_resource option op" where
  "read_some X f s = (case s of None \<Rightarrow> oret None | Some s \<Rightarrow> obind (span_read X f s) (\<lambda>r. oret (Some r)))"

definition resource_at :: "externals \<Rightarrow> mdict_file \<Rightarrow> nat \<Rightarrow> mdd_resource option op" where
  "resource_at X f ordinal = obind (span_at X f ordinal) (read_some X f)"

definition mdd_locate :: "externals \<Rightarrow> mdict_file \<Rightarrow> rstring \<Rightarrow> key_matches option op" where
  "mdd_locate X f query = locate_keys X f query"

definition mdd_locate_page :: "externals \<Rightarrow> mdict_file \<Rightarrow> rstring \<Rightarrow> nat \<Rightarrow> nat \<Rightarrow> key_match_page option op" where
  "mdd_locate_page X f query off limit = locate_key_page X f query off limit"

definition lookup_span :: "externals \<Rightarrow> mdict_file \<Rightarrow> rstring \<Rightarrow> mdd_resource_span option op" where
  "lookup_span X f query =
     obind (mdd_locate X f query) (\<lambda>matches.
     case matches of None \<Rightarrow> oret None | Some k \<Rightarrow> span_at X f (km_first k))"

definition mdd_lookup :: "externals \<Rightarrow> mdict_file \<Rightarrow> rstring \<Rightarrow> mdd_resource option op" where
  "mdd_lookup X f query = obind (lookup_span X f query) (read_some X f)"

definition read_resource :: "externals \<Rightarrow> mdict_file \<Rightarrow> record_descriptor \<Rightarrow> mdd_resource op" where
  "read_resource X f d =
     obind (read_record_span X f (rd_start d) (rd_end d)) (\<lambda>bs. oret \<lparr>mr_key = rd_key d, mr_bytes = bs\<rparr>)"

definition mdd_resource_next ::
    "externals \<Rightarrow> mdict_file \<Rightarrow> facade_iter \<Rightarrow> file_state \<Rightarrow> (mdd_resource result option \<times> facade_iter) \<times> file_state" where
  "mdd_resource_next X f = facade_next X f (read_resource X f)"

section \<open>What a resource is\<close>

definition span_of :: "mdict_file \<Rightarrow> record_descriptor \<Rightarrow> mdd_resource_span \<Rightarrow> bool" where
  "span_of f d s \<longleftrightarrow> ms_key s = rd_key d \<and> ms_start s = rd_start d \<and> ms_end s = rd_end d \<and>
     ms_start s \<le> ms_end s \<and> ms_end s \<le> vl_total_decoded_record_len (mf_layout f) \<and> ms_len s = ms_end s - ms_start s"

definition span_answer :: "externals \<Rightarrow> mdict_file \<Rightarrow> nat \<Rightarrow> mdd_resource_span \<Rightarrow> bool" where
  "span_answer X f n s \<longleftrightarrow> (\<exists>d. record_answer X f n d \<and> span_of f d s)"

definition resource_of :: "externals \<Rightarrow> mdict_file \<Rightarrow> record_descriptor \<Rightarrow> mdd_resource \<Rightarrow> bool" where
  "resource_of X f d r \<longleftrightarrow> mr_key r = rd_key d \<and> span_bytes X f (rd_start d) (rd_end d) (mr_bytes r) \<and>
     length (mr_bytes r) \<le> materialized_record_bytes (mf_limits f)"

definition resource_answer :: "externals \<Rightarrow> mdict_file \<Rightarrow> nat \<Rightarrow> mdd_resource \<Rightarrow> bool" where
  "resource_answer X f n r \<longleftrightarrow> (\<exists>d. record_answer X f n d \<and> resource_of X f d r)"

lemma span_new_Inr: "span_new f d = Inr s \<longleftrightarrow>
    rd_start d \<le> rd_end d \<and> rd_end d \<le> vl_total_decoded_record_len (mf_layout f) \<and>
    s = \<lparr>ms_key = rd_key d, ms_start = rd_start d, ms_end = rd_end d, ms_len = rd_end d - rd_start d\<rparr>"
  by (auto simp: span_new_def and_then_Inr validate_record_span_Inr)

lemma span_new_total: "record_answer X f n d \<Longrightarrow> \<exists>s. span_new f d = Inr s"
  by (auto simp: record_answer_def span_new_Inr)

lemma span_at_keeps:
  assumes ok: "file_ok X f"
  shows "keeps (keys_inv X f RP LP) (span_at X f n)
    (\<lambda>r. case r of None \<Rightarrow> mf_len f \<le> n | Some s \<Rightarrow> n < mf_len f \<and> span_answer X f n s)"
  unfolding span_at_def
proof (rule runs_bind [OF record_at_ordinal_keeps [OF ok]])
  let ?R = "\<lambda>r. case r of None \<Rightarrow> mf_len f \<le> n | Some s \<Rightarrow> n < mf_len f \<and> span_answer X f n s"
  fix r assume r: "case r of None \<Rightarrow> mf_len f \<le> n | Some d \<Rightarrow> n < mf_len f \<and> record_answer X f n d"
  show "keeps (keys_inv X f RP LP) (case r of None \<Rightarrow> oret None
     | Some d \<Rightarrow> otry (span_new f d) (\<lambda>s. oret (Some s))) ?R"
  proof (cases r)
    case None
    then show ?thesis using r by (auto intro: runs_lift)
  next
    case (Some d)
    show ?thesis
      unfolding Some option.case
      by (rule runs_try, rule runs_lift)
        (use r Some in \<open>auto simp: span_new_Inr span_answer_def span_of_def\<close>)
  qed
qed

lemma span_read_keeps:
  assumes ok: "file_ok X f" and s: "span_answer X f n s"
  shows "keeps (records_inv X f LP) (span_read X f s) (resource_answer X f n)"
proof -
  obtain d where d: "record_answer X f n d" "span_of f d s" using s by (auto simp: span_answer_def)
  show ?thesis
    unfolding span_read_def
    by (rule runs_bind [OF read_record_span_keeps [OF file_ok_layout [OF ok]]], rule runs_lift)
      (use d in \<open>auto simp: resource_answer_def resource_of_def span_of_def\<close>)
qed

lemma read_some_keeps:
  assumes ok: "file_ok X f" and s: "case s of None \<Rightarrow> mf_len f \<le> n | Some s \<Rightarrow> n < mf_len f \<and> span_answer X f n s"
  shows "keeps (records_inv X f LP) (read_some X f s)
    (\<lambda>r. case r of None \<Rightarrow> mf_len f \<le> n | Some r \<Rightarrow> n < mf_len f \<and> resource_answer X f n r)"
proof (cases s)
  case None
  then show ?thesis using s by (auto simp: read_some_def intro: runs_lift)
next
  case (Some q)
  have q: "n < mf_len f" "span_answer X f n q" using s Some by simp_all
  show ?thesis
    unfolding Some read_some_def option.case
    by (rule runs_bind [OF span_read_keeps [OF ok q(2)]], rule runs_lift) (use q(1) in auto)
qed

lemma resource_at_keeps:
  assumes ok: "file_ok X f"
  shows "keeps (records_inv X f LP) (resource_at X f n)
    (\<lambda>r. case r of None \<Rightarrow> mf_len f \<le> n | Some r \<Rightarrow> n < mf_len f \<and> resource_answer X f n r)"
  unfolding resource_at_def by (rule runs_bind [OF span_at_keeps [OF ok] read_some_keeps [OF ok]])

section \<open>Streaming\<close>

lemma copy_chunk_Inr:
  "copy_chunk write_all (written, w) c = Inr r \<longleftrightarrow>
     written + length c \<le> u64_max \<and> (\<exists>w'. write_all w c = Inr w' \<and> r = (written + length c, w'))"
  by (auto simp: copy_chunk_def and_then_Inr split: if_splits)

lemma visit_all_copy:
  "visit_all (copy_chunk write_all) (written, w) cs = Inr (written', w') \<Longrightarrow>
     written' = written + length (concat cs) \<and> visit_all write_all w cs = Inr w'"
proof (induction cs arbitrary: written w)
  case (Cons c cs)
  then show ?case by (fastforce simp: copy_chunk_Inr and_then_Inr split: sum.splits)
qed simp

lemma span_copy_keeps:
  assumes ok: "file_ok X f" and s: "span_answer X f n s"
  shows "keeps (records_inv X f LP) (span_copy_to X f write_all s w)
    (\<lambda>(written, w'). written = ms_len s \<and>
       (\<exists>chunks. visit_all write_all w chunks = Inr w' \<and> span_bytes X f (ms_start s) (ms_end s) (concat chunks)))"
  unfolding span_copy_to_def
proof (rule runs_conseq [OF visit_record_span_keeps [OF file_ok_layout [OF ok]]], clarify)
  fix written w' cs
  assume v: "visit_all (copy_chunk write_all) (0, w) cs = Inr (written, w')"
    and b: "span_bytes X f (ms_start s) (ms_end s) (concat cs)"
  note c = visit_all_copy [OF v]
  have "length (concat cs) = ms_len s" using b s by (auto simp: span_bytes_def span_answer_def span_of_def)
  then show "(written = ms_len s \<and>
       (\<exists>chunks. visit_all write_all w chunks = Inr w' \<and> span_bytes X f (ms_start s) (ms_end s) (concat chunks))) \<and>
     (0 :: nat) = 0"
    using c b by auto
qed

section \<open>Lookup and the resources in order\<close>

lemma lookup_span_keeps:
  assumes ok: "file_ok X f" and q: "well_formed query"
  shows "keeps (open_inv X f) (lookup_span X f query) (lookup_answer X f query (span_answer X f))"
  unfolding lookup_span_def mdd_locate_def by (rule lookup_runs [OF ok q span_at_keeps [OF ok]])

lemma mdd_lookup_eq:
  "mdd_lookup X f query = obind (locate_keys X f query) (\<lambda>matches.
     case matches of None \<Rightarrow> oret None | Some k \<Rightarrow> resource_at X f (km_first k))"
  by (auto simp: mdd_lookup_def lookup_span_def mdd_locate_def resource_at_def obind_def olift_def read_some_def fun_eq_iff
      split: prod.splits sum.splits option.splits)

lemma mdd_lookup_keeps:
  assumes ok: "file_ok X f" and q: "well_formed query"
  shows "keeps (open_inv X f) (mdd_lookup X f query) (lookup_answer X f query (resource_answer X f))"
  unfolding mdd_lookup_eq by (rule lookup_runs [OF ok q resource_at_keeps [OF ok]])

lemma read_resource_keeps:
  assumes ok: "file_ok X f"
  shows "keeps (records_inv X f LP) (read_resource X f d) (resource_of X f d)"
  unfolding read_resource_def
  by (rule runs_bind [OF read_record_span_keeps [OF file_ok_layout [OF ok]]], rule runs_lift)
    (auto simp: resource_of_def)

lemma mdd_resources_steps:
  assumes ok: "file_ok X f"
  shows "steps (records_inv X f LP) (facade_at X f) (mf_len f) (resource_answer X f) (mdd_resource_next X f)"
  unfolding mdd_resource_next_def resource_answer_def by (rule facade_steps [OF ok read_resource_keeps [OF ok]])

end
