(* ===== verification/Index_Format.thy ===== *)
theory Index_Format
  imports Types Checksum
begin

text \<open>
  The file format of the persistent key index (\<^verbatim>\<open>src/src/core/persistent/mod.rs\<close>,
  \<^verbatim>\<open>src/src/core/persistent/format.rs\<close>, \<^verbatim>\<open>src/src/index.rs\<close>): a fixed header, a table of
  chunk checksums, and four aligned sections. The lemmas show that the header that is built for four
  sections is read back field by field, and that its layout is the one that is accepted.
\<close>

section \<open>Constants and options\<close>

definition KEY_INDEX_FORMAT_REVISION :: nat where "KEY_INDEX_FORMAT_REVISION = 3"
definition KEY_INDEX_PARSER_REVISION :: nat where "KEY_INDEX_PARSER_REVISION = 1"
definition KEY_INDEX_NORMALIZATION_REVISION :: nat where "KEY_INDEX_NORMALIZATION_REVISION = 1"

definition MAGIC :: bytes where "MAGIC = [77, 68, 75, 73, 68, 88, 48, 49]"
definition ENDIAN_MARKER :: nat where "ENDIAN_MARKER = 0x01020304"
definition SECTION_COUNT :: nat where "SECTION_COUNT = 4"
definition HEADER_FIELDS_BYTES :: nat where "HEADER_FIELDS_BYTES = 216"
definition HEADER_BYTES :: nat where "HEADER_BYTES = 224"
definition HEADER_PREFIX_BYTES :: nat where "HEADER_PREFIX_BYTES = 24"
definition HEADER_CHECKSUM_BYTES :: nat where "HEADER_CHECKSUM_BYTES = 4"
definition CHECKSUM_PAGE_BYTES :: nat where "CHECKSUM_PAGE_BYTES = 4 * 1024"
definition MIN_BUILD_MEMORY_BYTES :: nat where "MIN_BUILD_MEMORY_BYTES = 256"
definition MIN_CHUNK_BYTES :: nat where "MIN_CHUNK_BYTES = 64"

lemmas index_constants =
  KEY_INDEX_FORMAT_REVISION_def KEY_INDEX_PARSER_REVISION_def KEY_INDEX_NORMALIZATION_REVISION_def
  MAGIC_def ENDIAN_MARKER_def SECTION_COUNT_def HEADER_FIELDS_BYTES_def HEADER_BYTES_def HEADER_PREFIX_BYTES_def
  HEADER_CHECKSUM_BYTES_def CHECKSUM_PAGE_BYTES_def MIN_BUILD_MEMORY_BYTES_def MIN_CHUNK_BYTES_def

record key_index_options =
  kio_max_index_bytes :: nat
  kio_max_metadata_bytes :: nat
  kio_build_memory_bytes :: nat
  kio_chunk_bytes :: nat
  kio_scratch_directory :: "string option"
  kio_checksum_policy :: checksum_policy

definition key_index_options_new :: key_index_options where
  "key_index_options_new =
     \<lparr>kio_max_index_bytes = 64 * 1024 * 1024 * 1024, kio_max_metadata_bytes = 64 * 1024 * 1024,
      kio_build_memory_bytes = 32 * 1024 * 1024, kio_chunk_bytes = 64 * 1024,
      kio_scratch_directory = None, kio_checksum_policy = Skip\<rparr>"

record key_index_source_identity =
  ksi_source_bytes :: nat
  ksi_source_modified_unix_nanos :: int
  ksi_key_count :: nat

datatype section_kind = SecText | SecBounds | SecRaw | SecOrder

definition section_index :: "section_kind \<Rightarrow> nat" where
  "section_index k = (case k of SecText \<Rightarrow> 0 | SecBounds \<Rightarrow> 1 | SecRaw \<Rightarrow> 2 | SecOrder \<Rightarrow> 3)"

definition section_name :: "section_kind \<Rightarrow> string" where
  "section_name k =
     (case k of SecText \<Rightarrow> ''text'' | SecBounds \<Rightarrow> ''bounds'' | SecRaw \<Rightarrow> ''raw'' | SecOrder \<Rightarrow> ''order'')"

record section_descriptor =
  sd_offset :: nat
  sd_len :: nat
  sd_checksum_start :: nat
  sd_checksum_count :: nat

definition section_descriptor_empty :: section_descriptor where
  "section_descriptor_empty = \<lparr>sd_offset = 0, sd_len = 0, sd_checksum_start = 0, sd_checksum_count = 0\<rparr>"

record index_header =
  ih_header_len :: nat
  ih_total_len :: nat
  ih_chunk_bytes :: nat
  ih_source_identity :: key_index_source_identity
  ih_normalized_text_len :: nat
  ih_sections :: "section_descriptor list"
  ih_checksum_count :: nat

text \<open>A finished section: its scratch file, the length recorded while writing it, and the checksum
  of each chunk.\<close>

record section_file =
  sf_kind :: section_kind
  sf_bytes :: bytes
  sf_len :: nat
  sf_checksums :: "u32 list"

abbreviation reject :: "key_index_rejection \<Rightarrow> error" where
  "reject \<equiv> KeyIndexRejected"

abbreviation bad_layout :: "string \<Rightarrow> error" where
  "bad_layout reason \<equiv> reject (InvalidLayout reason)"

section \<open>Little-endian fields\<close>

definition nat_to_le :: "nat \<Rightarrow> nat \<Rightarrow> bytes" where
  "nat_to_le k n = rev (nat_to_be k n)"

definition nat_from_le :: "bytes \<Rightarrow> nat" where
  "nat_from_le bs = nat_from_be (rev bs)"

definition i128_to_le :: "int \<Rightarrow> bytes" where
  "i128_to_le i = nat_to_le 16 (nat (i mod 2 ^ 128))"

definition i128_from_le :: "bytes \<Rightarrow> int" where
  "i128_from_le bs = (let n = nat_from_le bs in if n < 2 ^ 127 then int n else int n - 2 ^ 128)"

lemma length_nat_to_le [simp]: "length (nat_to_le k n) = k"
  by (simp add: nat_to_le_def)

lemma nat_from_to_le [simp]: "n < 256 ^ k \<Longrightarrow> nat_from_le (nat_to_le k n) = n"
  by (simp add: nat_to_le_def nat_from_le_def nat_from_to_be)

lemma nat_to_from_le: "nat_to_le (length bs) (nat_from_le bs) = bs"
  using nat_to_from_be [of "rev bs"] by (simp add: nat_to_le_def nat_from_le_def)

lemma length_i128_to_le [simp]: "length (i128_to_le i) = 16"
  by (simp add: i128_to_le_def)

lemma i128_from_to_le:
  assumes "- (2 ^ 127) \<le> i" and "i < 2 ^ 127"
  shows "i128_from_le (i128_to_le i) = i"
proof (cases "0 \<le> i")
  case True
  then have m: "i mod 2 ^ 128 = i" using assms(2) by (intro mod_pos_pos_trivial) simp_all
  have "nat i < 256 ^ 16" using assms(2) by (simp add: nat_less_iff True)
  then show ?thesis using True assms(2) unfolding i128_from_le_def i128_to_le_def m by (simp add: Let_def)
next
  case False
  have "i mod 2 ^ 128 = (i + 2 ^ 128) mod 2 ^ 128" by simp
  also have "\<dots> = i + 2 ^ 128" using assms False by (intro mod_pos_pos_trivial) simp_all
  finally have m: "i mod 2 ^ 128 = i + 2 ^ 128" .
  have n: "nat (i + 2 ^ 128) < 256 ^ 16" using False by (simp add: nat_less_iff assms)
  have "\<not> nat (i + 2 ^ 128) < 2 ^ 127" using assms(1) by (simp add: nat_less_iff)
  then show ?thesis
    using nat_from_to_le [OF n] assms(1) unfolding i128_from_le_def i128_to_le_def m by (simp add: Let_def)
qed

section \<open>Chunks and alignment\<close>

definition chunk_count :: "nat \<Rightarrow> nat \<Rightarrow> nat result" where
  "chunk_count len chunk_bytes =
     (if chunk_bytes = 0 then Inl (bad_layout ''chunk length is zero'')
      else if len = 0 then Inr 0
      else ok_or (map_option (\<lambda>v. v div chunk_bytes) (checked_add len (chunk_bytes - 1)))
             (bad_layout ''chunk count overflow''))"

definition align8 :: "nat \<Rightarrow> nat result" where
  "align8 v = ok_or (map_option (\<lambda>v. v div 8 * 8) (checked_add v 7)) (bad_layout ''section alignment overflow'')"

fun is_power_of_two :: "nat \<Rightarrow> bool" where
  "is_power_of_two n =
     (if n = 1 then True else if n = 0 \<or> odd n then False else is_power_of_two (n div 2))"

declare is_power_of_two.simps [simp del]

definition validate_options :: "key_index_options \<Rightarrow> unit result" where
  "validate_options opts =
     (let maximum_chunk_bytes = min (kio_build_memory_bytes opts) u32_max in
      if kio_build_memory_bytes opts < MIN_BUILD_MEMORY_BYTES
      then Inl (InvalidData (''key-index build memory must be at least '' @ dec MIN_BUILD_MEMORY_BYTES @ '' bytes''))
      else if kio_chunk_bytes opts < MIN_CHUNK_BYTES \<or> maximum_chunk_bytes < kio_chunk_bytes opts \<or>
          \<not> is_power_of_two (kio_chunk_bytes opts)
      then Inl (InvalidData (''key-index chunk bytes must be a power of two from '' @ dec MIN_CHUNK_BYTES @
             '' through '' @ dec maximum_chunk_bytes))
      else if kio_max_metadata_bytes opts < HEADER_BYTES
      then Inl (InvalidData (''key-index metadata limit must be at least '' @ dec HEADER_BYTES @ '' bytes''))
      else Inr ())"

section \<open>Building the header\<close>

text \<open>The first loop over the sections: their checksums are as many as their chunks.\<close>

fun total_checksums :: "nat \<Rightarrow> nat \<Rightarrow> section_file list \<Rightarrow> nat result" where
  "total_checksums chunk_bytes acc [] = Inr acc"
| "total_checksums chunk_bytes acc (s # ss) =
     and_then (chunk_count (sf_len s) chunk_bytes) (\<lambda>expected.
     if length (sf_checksums s) \<noteq> expected
     then Inl (InvalidFormat ''key-index section checksum count mismatch'')
     else
     and_then (ok_or (checked_add acc (length (sf_checksums s))) (InvalidFormat ''key-index checksum count overflow''))
       (\<lambda>acc. total_checksums chunk_bytes acc ss))"

text \<open>The second one places them.\<close>

fun place_sections ::
    "nat \<Rightarrow> nat \<Rightarrow> section_descriptor list \<Rightarrow> section_file list \<Rightarrow> (section_descriptor list \<times> nat) result" where
  "place_sections offset checksum_start descriptors [] = Inr (descriptors, offset)"
| "place_sections offset checksum_start descriptors (s # ss) =
     and_then (align8 offset) (\<lambda>offset.
     let checksum_len = length (sf_checksums s);
         descriptors = descriptors [section_index (sf_kind s) :=
           \<lparr>sd_offset = offset, sd_len = sf_len s, sd_checksum_start = checksum_start,
            sd_checksum_count = checksum_len\<rparr>] in
     and_then (ok_or (checked_add checksum_start checksum_len) (InvalidFormat ''key-index checksum index overflow''))
       (\<lambda>checksum_start.
     and_then (ok_or (checked_add offset (sf_len s)) (InvalidFormat ''key-index section end overflow''))
       (\<lambda>offset. place_sections offset checksum_start descriptors ss)))"

definition descriptor_fields :: "section_descriptor \<Rightarrow> bytes" where
  "descriptor_fields d =
     nat_to_le 8 (sd_offset d) @ nat_to_le 8 (sd_len d) @ nat_to_le 8 (sd_checksum_start d) @
     nat_to_le 8 (sd_checksum_count d)"

definition header_fields ::
    "nat \<Rightarrow> nat \<Rightarrow> key_index_source_identity \<Rightarrow> nat \<Rightarrow> section_descriptor list \<Rightarrow> bytes" where
  "header_fields total_len chunk_bytes identity normalized_text_len descriptors =
     MAGIC @ nat_to_le 4 KEY_INDEX_FORMAT_REVISION @ nat_to_le 4 ENDIAN_MARKER @ nat_to_le 8 HEADER_BYTES @
     nat_to_le 8 total_len @ nat_to_le 4 KEY_INDEX_PARSER_REVISION @ nat_to_le 4 KEY_INDEX_NORMALIZATION_REVISION @
     nat_to_le 4 chunk_bytes @ nat_to_le 4 SECTION_COUNT @ nat_to_le 8 (ksi_source_bytes identity) @
     i128_to_le (ksi_source_modified_unix_nanos identity) @ nat_to_le 8 (ksi_key_count identity) @
     nat_to_le 8 normalized_text_len @ concat (map descriptor_fields descriptors)"

text \<open>\<open>Vec::resize\<close>.\<close>

definition resize :: "nat \<Rightarrow> 'a \<Rightarrow> 'a list \<Rightarrow> 'a list" where
  "resize n x xs = take n xs @ replicate (n - length xs) x"

definition build_header ::
    "section_file list \<Rightarrow> key_index_source_identity \<Rightarrow> nat \<Rightarrow> key_index_options \<Rightarrow>
     (bytes \<times> section_descriptor list \<times> nat) result" where
  "build_header sections identity normalized_text_len opts =
     (if u32_max < kio_chunk_bytes opts then Inl (InvalidData ''key-index chunk size exceeds u32'')
      else
      and_then (ensure_usize_limit ''key_index_header_bytes'' HEADER_BYTES (kio_max_metadata_bytes opts)) (\<lambda>_.
      and_then (total_checksums (kio_chunk_bytes opts) 0 sections) (\<lambda>checksum_count.
      and_then (ok_or (checked_mul checksum_count 4) (InvalidFormat ''key-index checksum table overflow''))
        (\<lambda>checksum_bytes.
      and_then (ok_or (checked_add HEADER_BYTES checksum_bytes) (InvalidFormat ''key-index metadata length overflow''))
        (\<lambda>metadata_bytes.
      and_then (ensure_u64_ceiling ''key_index_metadata_bytes'' metadata_bytes (kio_max_metadata_bytes opts)) (\<lambda>_.
      and_then (ok_or (checked_add HEADER_BYTES checksum_bytes) (InvalidFormat ''key-index checksum table end overflow''))
        (\<lambda>table_end.
      and_then (align8 table_end) (\<lambda>offset.
      and_then (place_sections offset 0 (replicate SECTION_COUNT section_descriptor_empty) sections)
        (\<lambda>(descriptors, total_len).
      and_then (ensure_u64_ceiling ''key_index_bytes'' total_len (kio_max_index_bytes opts)) (\<lambda>_.
      and_then (try_reserve_vec 1 0 HEADER_BYTES ''key-index header'') (\<lambda>_.
      let header = header_fields total_len (kio_chunk_bytes opts) identity normalized_text_len descriptors in
      if length header \<noteq> HEADER_FIELDS_BYTES
      then Inl (InvalidFormat ''key-index fixed header field length mismatch'')
      else
      let header = resize (HEADER_BYTES - HEADER_CHECKSUM_BYTES) 0 header;
          checksum = (if kio_checksum_policy opts = Verify then adler32 header else 0);
          header = header @ u32_to_le checksum in
      if length header \<noteq> HEADER_BYTES then Inl (InvalidFormat ''key-index header length mismatch'')
      else Inr (header, descriptors, total_len))))))))))))"

section \<open>Reading the header\<close>

text \<open>\<open>HeaderCursor\<close>: a position in the header.\<close>

definition hc_read :: "bytes \<Rightarrow> nat \<Rightarrow> nat \<Rightarrow> (bytes \<times> nat) result" where
  "hc_read bs pos n =
     and_then (ok_or (checked_add pos n) (bad_layout ''header cursor overflow'')) (\<lambda>stop.
     and_then (ok_or (get_range bs pos stop) (bad_layout ''truncated header field'')) (\<lambda>field.
     Inr (field, stop)))"

definition hc_uint :: "nat \<Rightarrow> bytes \<Rightarrow> nat \<Rightarrow> (nat \<times> nat) result" where
  "hc_uint width bs pos = and_then (hc_read bs pos width) (\<lambda>(field, pos). Inr (nat_from_le field, pos))"

definition hc_i128 :: "bytes \<Rightarrow> nat \<Rightarrow> (int \<times> nat) result" where
  "hc_i128 bs pos = and_then (hc_read bs pos 16) (\<lambda>(field, pos). Inr (i128_from_le field, pos))"

fun hc_descriptors :: "nat \<Rightarrow> bytes \<Rightarrow> nat \<Rightarrow> (section_descriptor list \<times> nat) result" where
  "hc_descriptors 0 bs pos = Inr ([], pos)"
| "hc_descriptors (Suc k) bs pos =
     and_then (hc_uint 8 bs pos) (\<lambda>(offset, pos).
     and_then (hc_uint 8 bs pos) (\<lambda>(len, pos).
     and_then (hc_uint 8 bs pos) (\<lambda>(checksum_start, pos).
     and_then (hc_uint 8 bs pos) (\<lambda>(checksum_count, pos).
     and_then (hc_descriptors k bs pos) (\<lambda>(ds, pos).
     Inr (\<lparr>sd_offset = offset, sd_len = len, sd_checksum_start = checksum_start,
           sd_checksum_count = checksum_count\<rparr> # ds, pos))))))"

fun check_descriptors :: "nat \<Rightarrow> nat \<Rightarrow> section_descriptor list \<Rightarrow> nat result" where
  "check_descriptors chunk_bytes expected_start [] = Inr expected_start"
| "check_descriptors chunk_bytes expected_start (d # ds) =
     (if sd_checksum_start d \<noteq> expected_start then Inl (bad_layout ''checksum ranges are not contiguous'')
      else
      and_then (chunk_count (sd_len d) chunk_bytes) (\<lambda>expected_count.
      if sd_checksum_count d \<noteq> expected_count then Inl (bad_layout ''section checksum count is inconsistent'')
      else
      and_then (ok_or (checked_add expected_start (sd_checksum_count d)) (bad_layout ''checksum count overflow''))
        (\<lambda>expected_start. check_descriptors chunk_bytes expected_start ds)))"

definition sections_match_counts :: "section_descriptor list \<Rightarrow> nat \<Rightarrow> nat \<Rightarrow> nat \<Rightarrow> bool" where
  "sections_match_counts ds normalized_text_len bounds_len row_array_len \<longleftrightarrow>
     sd_len (ds ! section_index SecText) = normalized_text_len \<and> sd_len (ds ! section_index SecBounds) = bounds_len \<and>
     sd_len (ds ! section_index SecRaw) = row_array_len \<and> sd_len (ds ! section_index SecOrder) = row_array_len"

definition parse_index_header :: "bytes \<Rightarrow> nat \<Rightarrow> key_index_options \<Rightarrow> index_header result" where
  "parse_index_header bs actual_len opts =
     and_then (hc_read bs 0 8) (\<lambda>(magic, pos).
     if magic \<noteq> MAGIC then Inl (reject InvalidMagic)
     else
     and_then (hc_uint 4 bs pos) (\<lambda>(format_revision, pos).
     if format_revision \<noteq> KEY_INDEX_FORMAT_REVISION then Inl (reject (UnsupportedFormatRevision format_revision))
     else
     and_then (hc_uint 4 bs pos) (\<lambda>(endian, pos).
     if endian \<noteq> ENDIAN_MARKER then Inl (reject (UnsupportedEndianMarker endian))
     else
     and_then (hc_uint 8 bs pos) (\<lambda>(header_len, pos).
     if header_len \<noteq> length bs then Inl (bad_layout ''header length changed while parsing'')
     else
     and_then (hc_uint 8 bs pos) (\<lambda>(total_len, pos).
     if total_len \<noteq> actual_len then Inl (reject (FileLengthMismatch total_len actual_len))
     else
     and_then (ensure_u64_ceiling ''key_index_bytes'' total_len (kio_max_index_bytes opts)) (\<lambda>_.
     and_then (hc_uint 4 bs pos) (\<lambda>(parser_revision, pos).
     if parser_revision \<noteq> KEY_INDEX_PARSER_REVISION then Inl (reject (IncompatibleParserRevision parser_revision))
     else
     and_then (hc_uint 4 bs pos) (\<lambda>(normalization_revision, pos).
     if normalization_revision \<noteq> KEY_INDEX_NORMALIZATION_REVISION
     then Inl (reject (IncompatibleNormalizationRevision normalization_revision))
     else
     and_then (hc_uint 4 bs pos) (\<lambda>(chunk_bytes, pos).
     if chunk_bytes < MIN_CHUNK_BYTES \<or> \<not> is_power_of_two chunk_bytes
     then Inl (bad_layout ''chunk length is not a supported power of two'')
     else if kio_chunk_bytes opts < chunk_bytes
     then Inl (LimitExceeded ''key_index_chunk_bytes'' chunk_bytes (kio_chunk_bytes opts))
     else
     and_then (hc_uint 4 bs pos) (\<lambda>(section_count, pos).
     if section_count \<noteq> SECTION_COUNT then Inl (bad_layout ''unexpected section count'')
     else
     and_then (hc_uint 8 bs pos) (\<lambda>(source_bytes, pos).
     and_then (hc_i128 bs pos) (\<lambda>(modified, pos).
     and_then (hc_uint 8 bs pos) (\<lambda>(key_count, pos).
     if u32_max < key_count then Inl (bad_layout ''key count exceeds ordinal representation'')
     else
     and_then (hc_uint 8 bs pos) (\<lambda>(normalized_text_len, pos).
     and_then (hc_descriptors SECTION_COUNT bs pos) (\<lambda>(sections, pos).
     and_then (check_descriptors chunk_bytes 0 sections) (\<lambda>checksum_count.
     and_then (ok_or (checked_mul checksum_count 4) (bad_layout ''checksum table overflow'')) (\<lambda>checksum_bytes.
     and_then (ok_or (checked_add header_len checksum_bytes) (bad_layout ''metadata length overflow''))
       (\<lambda>metadata_bytes.
     and_then (ensure_u64_ceiling ''key_index_metadata_bytes'' metadata_bytes (kio_max_metadata_bytes opts)) (\<lambda>_.
     and_then (ok_or (checked_sub (length bs) HEADER_CHECKSUM_BYTES) (bad_layout ''header checksum underflow''))
       (\<lambda>padding_end.
     if padding_end < pos \<or> (\<exists>x \<in> set (slice pos padding_end bs). x \<noteq> 0)
     then Inl (bad_layout ''header padding is not zero'')
     else
     and_then (ok_or (Option.bind (checked_add key_count 1) (\<lambda>n. checked_mul n 8)) (bad_layout ''bounds length overflow''))
       (\<lambda>bounds_len.
     and_then (ok_or (checked_mul key_count 4) (bad_layout ''row array length overflow'')) (\<lambda>row_array_len.
     if \<not> sections_match_counts sections normalized_text_len bounds_len row_array_len
     then Inl (bad_layout ''section lengths do not match header counts'')
     else
     Inr \<lparr>ih_header_len = header_len, ih_total_len = total_len, ih_chunk_bytes = chunk_bytes,
          ih_source_identity =
            \<lparr>ksi_source_bytes = source_bytes, ksi_source_modified_unix_nanos = modified, ksi_key_count = key_count\<rparr>,
          ih_normalized_text_len = normalized_text_len, ih_sections = sections,
          ih_checksum_count = checksum_count\<rparr>))))))))))))))))))))))"

text \<open>\<open>IndexSource\<close> (\<^verbatim>\<open>src/src/core/persistent/cache.rs\<close>): the length of the index file when it
  was opened and the bytes it holds.\<close>

record index_source =
  xs_len :: nat
  xs_bytes :: bytes

definition source_read :: "index_source \<Rightarrow> nat \<Rightarrow> nat \<Rightarrow> bytes result" where
  "source_read src offset len =
     and_then (ok_or (checked_add offset len) (bad_layout ''read range overflow'')) (\<lambda>stop.
     if xs_len src < stop then Inl (bad_layout ''read range exceeds file length'')
     else
     and_then (try_reserve_vec 1 0 len ''persistent key-index read'') (\<lambda>_.
     if length (xs_bytes src) < stop \<and> 0 < len then Inl (Io ''failed to fill whole buffer'')
     else Inr (slice offset stop (xs_bytes src))))"

definition read_slice :: "bytes \<Rightarrow> nat \<Rightarrow> nat \<Rightarrow> bytes result" where
  "read_slice bs offset width =
     and_then (ok_or (checked_add offset width) (bad_layout ''header offset overflow'')) (\<lambda>stop.
     ok_or (get_range bs offset stop) (bad_layout ''truncated header field''))"

definition read_u32_slice :: "bytes \<Rightarrow> nat \<Rightarrow> u32 result" where
  "read_u32_slice bs offset = and_then (read_slice bs offset 4) (\<lambda>field. Inr (u32_from_le field))"

definition read_u64_slice :: "bytes \<Rightarrow> nat \<Rightarrow> nat result" where
  "read_u64_slice bs offset = and_then (read_slice bs offset 8) (\<lambda>field. Inr (nat_from_le field))"

text \<open>The prefix is read and dropped under a reservation of its own; then the whole header.\<close>

definition read_header_prefix :: "index_source \<Rightarrow> nat mem" where
  "read_header_prefix src =
     scoped HEADER_PREFIX_BYTES (
     attempt (source_read src 0 HEADER_PREFIX_BYTES) (\<lambda>prefix.
     if get_range prefix 0 8 \<noteq> Some MAGIC then lift (Inl (reject InvalidMagic))
     else
     attempt (read_u32_slice prefix 8) (\<lambda>format_revision.
     if unat format_revision \<noteq> KEY_INDEX_FORMAT_REVISION
     then lift (Inl (reject (UnsupportedFormatRevision (unat format_revision))))
     else
     attempt (read_u32_slice prefix 12) (\<lambda>endian.
     if unat endian \<noteq> ENDIAN_MARKER then lift (Inl (reject (UnsupportedEndianMarker (unat endian))))
     else lift (read_u64_slice prefix 16)))))"

definition read_index_header ::
    "index_source \<Rightarrow> key_index_options \<Rightarrow> checksum_policy \<Rightarrow> index_header mem" where
  "read_index_header src opts policy =
     (if xs_len src < HEADER_PREFIX_BYTES then lift (Inl (bad_layout ''truncated header prefix''))
      else
      mbind (read_header_prefix src) (\<lambda>header_len.
      attempt (checked_usize header_len ''persistent key-index header length'') (\<lambda>header_len.
      attempt (ensure_usize_limit ''key_index_header_bytes'' header_len (kio_max_metadata_bytes opts)) (\<lambda>_.
      if header_len \<noteq> HEADER_BYTES \<or> xs_len src < header_len then lift (Inl (bad_layout ''invalid header length''))
      else
      scoped header_len (
      attempt (source_read src 0 header_len) (\<lambda>header_bytes.
      let checksum_at = header_len - HEADER_CHECKSUM_BYTES in
      attempt (read_u32_slice header_bytes checksum_at) (\<lambda>expected.
      let actual = adler32 (take checksum_at header_bytes) in
      if policy = Verify \<and> expected \<noteq> actual
      then lift (Inl (reject (IndexChecksumMismatch ''header'' None expected actual)))
      else lift (parse_index_header header_bytes (xs_len src) opts))))))))"

fun check_placement :: "nat \<Rightarrow> nat \<Rightarrow> section_descriptor list \<Rightarrow> nat result" where
  "check_placement source_len cursor [] = Inr cursor"
| "check_placement source_len cursor (d # ds) =
     and_then (align8 cursor) (\<lambda>aligned.
     if sd_offset d \<noteq> aligned \<or> \<not> 8 dvd sd_offset d
     then Inl (bad_layout ''sections are not ordered and aligned'')
     else
     and_then (ok_or (checked_add (sd_offset d) (sd_len d)) (bad_layout ''section end overflow'')) (\<lambda>cursor.
     if source_len < cursor then Inl (bad_layout ''section exceeds file length'')
     else check_placement source_len cursor ds))"

definition validate_section_layout :: "index_source \<Rightarrow> index_header \<Rightarrow> unit result" where
  "validate_section_layout src h =
     and_then (ok_or (checked_mul (ih_checksum_count h) 4) (bad_layout ''checksum table overflow'')) (\<lambda>checksum_bytes.
     and_then (ok_or (checked_add (ih_header_len h) checksum_bytes) (bad_layout ''checksum table end overflow''))
       (\<lambda>cursor.
     and_then (if \<not> 8 dvd cursor then align8 cursor else Inr cursor) (\<lambda>cursor.
     and_then (check_placement (xs_len src) cursor (ih_sections h)) (\<lambda>cursor.
     if cursor \<noteq> ih_total_len h then Inl (bad_layout ''last section does not end at total length'') else Inr ()))))"

section \<open>The image of a built header\<close>

lemma align8_Inr: "align8 v = Inr w \<longleftrightarrow> v + 7 \<le> u64_max \<and> w = (v + 7) div 8 * 8"
  by (auto simp: align8_def)

lemma align8_aligned: "8 dvd (v + 7) div 8 * (8 :: nat)"
  by simp

lemma align8_fixed: "8 dvd v \<Longrightarrow> (v + 7) div 8 * 8 = (v :: nat)"
  by (auto elim!: dvdE)

text \<open>The descriptors of sections that are placed from an offset on.\<close>

fun placed :: "nat \<Rightarrow> nat \<Rightarrow> section_file list \<Rightarrow> section_descriptor list" where
  "placed offset checksum_start [] = []"
| "placed offset checksum_start (s # ss) =
     (let offset = (offset + 7) div 8 * 8 in
      \<lparr>sd_offset = offset, sd_len = sf_len s, sd_checksum_start = checksum_start,
       sd_checksum_count = length (sf_checksums s)\<rparr> #
      placed (offset + sf_len s) (checksum_start + length (sf_checksums s)) ss)"

fun placed_end :: "nat \<Rightarrow> section_file list \<Rightarrow> nat" where
  "placed_end offset [] = offset"
| "placed_end offset (s # ss) = placed_end ((offset + 7) div 8 * 8 + sf_len s) ss"

lemma placed_end_mono: "offset \<le> placed_end offset ss"
proof (induction ss arbitrary: offset)
  case (Cons s ss)
  have "offset \<le> (offset + 7) div 8 * 8 + sf_len s" by linarith
  also have "\<dots> \<le> placed_end ((offset + 7) div 8 * 8 + sf_len s) ss" by (rule Cons)
  finally show ?case by simp
qed simp

lemma length_placed [simp]: "length (placed offset start ss) = length ss"
  by (induction ss arbitrary: offset start) (simp_all add: Let_def)

text \<open>The checksums of the sections are those of their chunks.\<close>

definition section_chunked :: "nat \<Rightarrow> section_file \<Rightarrow> bool" where
  "section_chunked chunk_bytes s \<longleftrightarrow> chunk_count (sf_len s) chunk_bytes = Inr (length (sf_checksums s))"

definition checksum_total :: "section_file list \<Rightarrow> nat" where
  "checksum_total ss = sum_list (map (length \<circ> sf_checksums) ss)"

lemma checksum_total_simps [simp]:
  "checksum_total [] = 0" "checksum_total (s # ss) = length (sf_checksums s) + checksum_total ss"
  by (simp_all add: checksum_total_def)

lemma total_checksums_Inr:
  "total_checksums chunk_bytes acc ss = Inr n \<Longrightarrow>
     list_all (section_chunked chunk_bytes) ss \<and> n = acc + checksum_total ss \<and> (ss \<noteq> [] \<longrightarrow> n \<le> u64_max)"
  by (induction chunk_bytes acc ss rule: total_checksums.induct) (fastforce simp: and_then_Inr section_chunked_def)+

lemma place_sections_Inr:
  assumes "place_sections offset start (before @ rest) ss = Inr (ds, stop)"
    and "map (section_index \<circ> sf_kind) ss = [length before..<length before + length ss]" and "length rest = length ss"
  shows "ds = before @ placed offset start ss \<and> stop = placed_end offset ss \<and> (ss \<noteq> [] \<longrightarrow> stop \<le> u64_max)"
  using assms
proof (induction ss arbitrary: offset start before rest)
  case (Cons s ss)
  obtain r rs where rest: "rest = r # rs" using Cons.prems(3) by (cases rest) simp_all
  let ?o = "(offset + 7) div 8 * 8"
  let ?d = "\<lparr>sd_offset = ?o, sd_len = sf_len s, sd_checksum_start = start, sd_checksum_count = length (sf_checksums s)\<rparr>"
  have u: "[length before..<length before + length (s # ss)] = length before # [Suc (length before)..<length before + length (s # ss)]"
    by (rule upt_conv_Cons) simp
  have i: "section_index (sf_kind s) = length before"
    and ks: "map (section_index \<circ> sf_kind) ss = [length (before @ [?d])..<length (before @ [?d]) + length ss]"
    using Cons.prems(2) unfolding u
    by (simp_all only: list.map list.inject length_append list.size comp_def add_Suc_right add_0_right add_Suc add_0_left)
  have nx: "place_sections (?o + sf_len s) (start + length (sf_checksums s)) ((before @ [?d]) @ rs) ss = Inr (ds, stop)"
    and le: "?o + sf_len s \<le> u64_max"
    using Cons.prems(1) by (auto simp: and_then_Inr align8_Inr Let_def i rest)
  have len: "length rs = length ss" using Cons.prems(3) rest by simp
  from Cons.IH [OF nx ks len] show ?case using le by (cases ss) (simp_all add: Let_def)
qed simp

lemma check_descriptors_placed:
  "list_all (section_chunked chunk_bytes) ss \<Longrightarrow> start + checksum_total ss \<le> u64_max \<Longrightarrow>
     check_descriptors chunk_bytes start (placed offset start ss) = Inr (start + checksum_total ss)"
proof (induction ss arbitrary: offset start)
  case (Cons s ss)
  have "checked_add start (length (sf_checksums s)) = Some (start + length (sf_checksums s))" using Cons.prems by simp
  then show ?case using Cons.IH [of "start + length (sf_checksums s)"] Cons.prems
    by (simp add: Let_def section_chunked_def add.assoc del: checked_add_Some)
qed simp

lemma check_placement_placed:
  "placed_end cursor ss \<le> source_len \<Longrightarrow> source_len \<le> u64_max - 7 \<Longrightarrow>
     check_placement source_len cursor (placed cursor start ss) = Inr (placed_end cursor ss)"
proof (induction ss arbitrary: cursor start)
  case (Cons s ss)
  let ?o = "(cursor + 7) div 8 * 8"
  have m: "?o + sf_len s \<le> placed_end (?o + sf_len s) ss" by (rule placed_end_mono)
  then have le: "?o + sf_len s \<le> source_len" and r: "placed_end (?o + sf_len s) ss \<le> source_len"
    using Cons.prems(1) by simp_all
  have "cursor \<le> ?o" by linarith
  then have "cursor + 7 \<le> u64_max" using le Cons.prems(2) by (simp add: u64_max_def)
  then have a: "align8 cursor = Inr ?o" by (simp add: align8_Inr)
  have add: "checked_add ?o (sf_len s) = Some (?o + sf_len s)" using le Cons.prems(2) by (simp add: u64_max_def)
  show ?case using Cons.IH [OF r Cons.prems(2)] le by (simp add: Let_def a add del: checked_add_Some)
qed simp

section \<open>Reading back\<close>

definition identity_ok :: "key_index_source_identity \<Rightarrow> bool" where
  "identity_ok i \<longleftrightarrow> ksi_source_bytes i \<le> u64_max \<and> - (2 ^ 127) \<le> ksi_source_modified_unix_nanos i \<and>
     ksi_source_modified_unix_nanos i < 2 ^ 127 \<and> ksi_key_count i \<le> u32_max"

text \<open>The four sections of an index of \<open>n\<close> rows.\<close>

definition index_sections :: "nat \<Rightarrow> nat \<Rightarrow> section_file list \<Rightarrow> bool" where
  "index_sections n text_len ss \<longleftrightarrow> map sf_kind ss = [SecText, SecBounds, SecRaw, SecOrder] \<and>
     map sf_len ss = [text_len, (n + 1) * 8, n * 4, n * 4]"

definition header_of ::
    "section_file list \<Rightarrow> key_index_source_identity \<Rightarrow> nat \<Rightarrow> key_index_options \<Rightarrow> index_header" where
  "header_of ss identity text_len opts =
     (let table_end = (HEADER_BYTES + checksum_total ss * 4 + 7) div 8 * 8 in
      \<lparr>ih_header_len = HEADER_BYTES, ih_total_len = placed_end table_end ss, ih_chunk_bytes = kio_chunk_bytes opts,
       ih_source_identity = identity, ih_normalized_text_len = text_len, ih_sections = placed table_end 0 ss,
       ih_checksum_count = checksum_total ss\<rparr>)"

lemma index_sections_cases:
  assumes "index_sections n text_len ss"
  obtains t b r d where "ss = [t, b, r, d]" and "map sf_kind ss = [SecText, SecBounds, SecRaw, SecOrder]"
    and "sf_len t = text_len" and "sf_len b = (n + 1) * 8" and "sf_len r = n * 4" and "sf_len d = n * 4"
  using assms by (auto simp: index_sections_def map_eq_Cons_conv)

lemma build_header_Inr:
  assumes "build_header ss identity text_len opts = Inr (hdr, ds, total_len)" and "index_sections n text_len ss"
  shows "ds = ih_sections (header_of ss identity text_len opts)" and "total_len = ih_total_len (header_of ss identity text_len opts)"
    and "list_all (section_chunked (kio_chunk_bytes opts)) ss" and "HEADER_BYTES + checksum_total ss * 4 \<le> kio_max_metadata_bytes opts"
    and "HEADER_BYTES + checksum_total ss * 4 + 7 \<le> u64_max" and "total_len \<le> kio_max_index_bytes opts" and "total_len \<le> u64_max"
    and "\<exists>checksum. (kio_checksum_policy opts = Verify \<longrightarrow>
        checksum = adler32 (header_fields total_len (kio_chunk_bytes opts) identity text_len ds @ replicate 4 0)) \<and>
      hdr = header_fields total_len (kio_chunk_bytes opts) identity text_len ds @ replicate 4 0 @ u32_to_le checksum"
    and "kio_chunk_bytes opts \<le> u32_max"
proof -
  from index_sections_cases [OF assms(2)] obtain t b r d where ss: "ss = [t, b, r, d]"
    and k: "map sf_kind ss = [SecText, SecBounds, SecRaw, SecOrder]" by metis
  obtain count where c: "total_checksums (kio_chunk_bytes opts) 0 ss = Inr count" and m: "count * 4 \<le> u64_max"
    and e: "HEADER_BYTES + count * 4 + 7 \<le> u64_max" "HEADER_BYTES + count * 4 \<le> kio_max_metadata_bytes opts"
    and p: "place_sections ((HEADER_BYTES + count * 4 + 7) div 8 * 8) 0 (replicate SECTION_COUNT section_descriptor_empty) ss =
      Inr (ds, total_len)"
    and t: "total_len \<le> kio_max_index_bytes opts" and u: "kio_chunk_bytes opts \<le> u32_max"
    and h: "length (header_fields total_len (kio_chunk_bytes opts) identity text_len ds) = HEADER_FIELDS_BYTES"
    and hdr: "hdr = resize (HEADER_BYTES - HEADER_CHECKSUM_BYTES) 0
        (header_fields total_len (kio_chunk_bytes opts) identity text_len ds) @ u32_to_le
        (if kio_checksum_policy opts = Verify
         then adler32 (resize (HEADER_BYTES - HEADER_CHECKSUM_BYTES) 0
           (header_fields total_len (kio_chunk_bytes opts) identity text_len ds)) else 0)"
    using assms(1)
    by (auto simp: build_header_def and_then_Inr align8_Inr Let_def split: if_splits)
  note tc = total_checksums_Inr [OF c]
  have kinds: "map (section_index \<circ> sf_kind) ss = [length ([] :: section_descriptor list)..<length ([] :: section_descriptor list) + length ss]"
    using k by (auto simp: ss section_index_def upt_conv_Cons)
  have len: "length (replicate SECTION_COUNT section_descriptor_empty) = length ss" and ne: "ss \<noteq> []"
    by (simp_all add: ss SECTION_COUNT_def)
  have pl: "ds = placed ((HEADER_BYTES + count * 4 + 7) div 8 * 8) 0 ss \<and>
      total_len = placed_end ((HEADER_BYTES + count * 4 + 7) div 8 * 8) ss \<and> total_len \<le> u64_max"
    using place_sections_Inr [OF _ kinds len] p ne by simp
  show "ds = ih_sections (header_of ss identity text_len opts)" "total_len = ih_total_len (header_of ss identity text_len opts)"
    "total_len \<le> u64_max"
    using pl tc by (simp_all add: header_of_def Let_def)
  show "list_all (section_chunked (kio_chunk_bytes opts)) ss" "HEADER_BYTES + checksum_total ss * 4 \<le> kio_max_metadata_bytes opts"
    "HEADER_BYTES + checksum_total ss * 4 + 7 \<le> u64_max" "total_len \<le> kio_max_index_bytes opts" "kio_chunk_bytes opts \<le> u32_max"
    using tc e t u by simp_all
  have "resize (HEADER_BYTES - HEADER_CHECKSUM_BYTES) 0 (header_fields total_len (kio_chunk_bytes opts) identity text_len ds) =
      header_fields total_len (kio_chunk_bytes opts) identity text_len ds @ replicate 4 0"
    using h by (simp add: resize_def index_constants)
  then show "\<exists>checksum. (kio_checksum_policy opts = Verify \<longrightarrow>
        checksum = adler32 (header_fields total_len (kio_chunk_bytes opts) identity text_len ds @ replicate 4 0)) \<and>
      hdr = header_fields total_len (kio_chunk_bytes opts) identity text_len ds @ replicate 4 0 @ u32_to_le checksum"
    using hdr
    by (intro exI [of _ "if kio_checksum_policy opts = Verify
        then adler32 (header_fields total_len (kio_chunk_bytes opts) identity text_len ds @ replicate 4 0) else 0"]) simp
qed

text \<open>A cursor that stands before a field reads it.\<close>

lemma hc_uint_read:
  assumes "slice pos stop bs = nat_to_le n v" and "stop = pos + n" and "stop \<le> length bs" and "length bs \<le> u64_max"
    and "v < 256 ^ n"
  shows "hc_uint n bs pos = Inr (v, stop)"
  using assms by (simp add: hc_uint_def hc_read_def get_range_def checked_add_def)

lemma hc_i128_read:
  assumes "slice pos stop bs = i128_to_le i" and "stop = pos + 16" and "stop \<le> length bs" and "length bs \<le> u64_max"
    and "- (2 ^ 127) \<le> i" and "i < 2 ^ 127"
  shows "hc_i128 bs pos = Inr (i, stop)"
  using assms i128_from_to_le [of i] by (simp add: hc_i128_def hc_read_def get_range_def checked_add_def)

definition descriptor_ok :: "section_descriptor \<Rightarrow> bool" where
  "descriptor_ok d \<longleftrightarrow> sd_offset d \<le> u64_max \<and> sd_len d \<le> u64_max \<and> sd_checksum_start d \<le> u64_max \<and>
     sd_checksum_count d \<le> u64_max"

lemma length_descriptor_fields [simp]: "length (descriptor_fields d) = 32"
  by (simp add: descriptor_fields_def)

lemma length_concat_fields [simp]: "length (concat (map descriptor_fields ds)) = 32 * length ds"
  by (induction ds) simp_all

lemma hc_descriptors_at:
  "length before = pos \<Longrightarrow> list_all descriptor_ok ds \<Longrightarrow> length (before @ concat (map descriptor_fields ds) @ rest) \<le> u64_max \<Longrightarrow>
     hc_descriptors (length ds) (before @ concat (map descriptor_fields ds) @ rest) pos = Inr (ds, pos + 32 * length ds)"
proof (induction ds arbitrary: before pos)
  case (Cons d ds)
  let ?bs = "before @ concat (map descriptor_fields (d # ds)) @ rest"
  have bs: "?bs = (before @ descriptor_fields d) @ concat (map descriptor_fields ds) @ rest" by simp
  have ih: "hc_descriptors (length ds) ?bs (pos + 32) = Inr (ds, pos + 32 + 32 * length ds)"
    unfolding bs by (rule Cons.IH) (use Cons.prems in simp_all)
  have d: "sd_offset d < 256 ^ 8" "sd_len d < 256 ^ 8" "sd_checksum_start d < 256 ^ 8" "sd_checksum_count d < 256 ^ 8"
    using Cons.prems(2) by (simp_all add: descriptor_ok_def u64_max_def)
  have len: "pos + 32 \<le> length ?bs" "length ?bs \<le> u64_max" using Cons.prems by simp_all
  have s: "slice pos (pos + 8) ?bs = nat_to_le 8 (sd_offset d)" "slice (pos + 8) (pos + 16) ?bs = nat_to_le 8 (sd_len d)"
    "slice (pos + 16) (pos + 24) ?bs = nat_to_le 8 (sd_checksum_start d)"
    "slice (pos + 24) (pos + 32) ?bs = nat_to_le 8 (sd_checksum_count d)"
    using Cons.prems(1) by (simp_all add: slice_def descriptor_fields_def)
  have r: "hc_uint 8 ?bs pos = Inr (sd_offset d, pos + 8)" "hc_uint 8 ?bs (pos + 8) = Inr (sd_len d, pos + 16)"
    "hc_uint 8 ?bs (pos + 16) = Inr (sd_checksum_start d, pos + 24)"
    "hc_uint 8 ?bs (pos + 24) = Inr (sd_checksum_count d, pos + 32)"
    by (rule hc_uint_read [OF s(1)] hc_uint_read [OF s(2)] hc_uint_read [OF s(3)] hc_uint_read [OF s(4)];
        use len d in linarith)+
  show ?case unfolding length_Cons hc_descriptors.simps r and_then_simps prod.case ih by simp
qed simp

lemma length_header_fields: "length (header_fields total_len chunk identity text_len ds) = 88 + 32 * length ds"
  by (simp add: header_fields_def MAGIC_def)

lemma parse_header_fields:
  assumes ds: "length ds = 4" "list_all descriptor_ok ds" and i: "identity_ok identity"
    and chunk: "MIN_CHUNK_BYTES \<le> chunk" "is_power_of_two chunk" "chunk \<le> kio_chunk_bytes opts" "chunk \<le> u32_max"
    and t: "total_len \<le> u64_max" "total_len \<le> kio_max_index_bytes opts" "text_len \<le> u64_max"
    and count: "check_descriptors chunk 0 ds = Inr count" "HEADER_BYTES + count * 4 \<le> kio_max_metadata_bytes opts"
      "HEADER_BYTES + count * 4 \<le> u64_max"
    and match: "sections_match_counts ds text_len ((ksi_key_count identity + 1) * 8) (ksi_key_count identity * 4)"
  shows "parse_index_header (header_fields total_len chunk identity text_len ds @ replicate 4 0 @ u32_to_le c) total_len opts =
    Inr \<lparr>ih_header_len = HEADER_BYTES, ih_total_len = total_len, ih_chunk_bytes = chunk, ih_source_identity = identity,
      ih_normalized_text_len = text_len, ih_sections = ds, ih_checksum_count = count\<rparr>"
proof -
  let ?bs = "header_fields total_len chunk identity text_len ds @ replicate 4 0 @ u32_to_le c"
  have len: "length ?bs = 224" using ds(1) by (simp add: length_header_fields)
  note small = len [unfolded numeral_eq_Suc]
  have big: "length ?bs \<le> u64_max" using len by (simp add: u64_max_def)
  have magic: "hc_read ?bs 0 8 = Inr (MAGIC, 8)"
    using len by (simp add: hc_read_def get_range_def checked_add_def u64_max_def slice_def header_fields_def MAGIC_def)
  have s: "slice 8 12 ?bs = nat_to_le 4 KEY_INDEX_FORMAT_REVISION" "slice 12 16 ?bs = nat_to_le 4 ENDIAN_MARKER"
    "slice 16 24 ?bs = nat_to_le 8 HEADER_BYTES" "slice 24 32 ?bs = nat_to_le 8 total_len"
    "slice 32 36 ?bs = nat_to_le 4 KEY_INDEX_PARSER_REVISION" "slice 36 40 ?bs = nat_to_le 4 KEY_INDEX_NORMALIZATION_REVISION"
    "slice 40 44 ?bs = nat_to_le 4 chunk" "slice 44 48 ?bs = nat_to_le 4 SECTION_COUNT"
    "slice 48 56 ?bs = nat_to_le 8 (ksi_source_bytes identity)"
    "slice 56 72 ?bs = i128_to_le (ksi_source_modified_unix_nanos identity)"
    "slice 72 80 ?bs = nat_to_le 8 (ksi_key_count identity)" "slice 80 88 ?bs = nat_to_le 8 text_len"
    by (simp_all add: slice_def header_fields_def MAGIC_def)
  note k = i [unfolded identity_ok_def]
  have v: "KEY_INDEX_FORMAT_REVISION < 256 ^ 4" "ENDIAN_MARKER < 256 ^ 4" "HEADER_BYTES < 256 ^ 8" "total_len < 256 ^ 8"
    "KEY_INDEX_PARSER_REVISION < 256 ^ 4" "KEY_INDEX_NORMALIZATION_REVISION < 256 ^ 4" "chunk < 256 ^ 4"
    "SECTION_COUNT < 256 ^ 4" "ksi_source_bytes identity < 256 ^ 8" "ksi_key_count identity < 256 ^ 8" "text_len < 256 ^ 8"
    using k t chunk by (simp_all add: index_constants u64_max_def u32_max_def)
  have at: "slice pos stop ?bs = nat_to_le n x \<Longrightarrow> x < 256 ^ n \<Longrightarrow> stop = pos + n \<Longrightarrow> stop \<le> 224 \<Longrightarrow>
      hc_uint n ?bs pos = Inr (x, stop)" for pos stop n x
    by (rule hc_uint_read [OF _ _ _ big]) (simp_all only: len)
  note r = at [OF s(1) v(1)] at [OF s(2) v(2)] at [OF s(3) v(3)] at [OF s(4) v(4)] at [OF s(5) v(5)] at [OF s(6) v(6)]
    at [OF s(7) v(7)] at [OF s(8) v(8)] at [OF s(9) v(9)] at [OF s(11) v(10)] at [OF s(12) v(11)]
  have i128: "hc_i128 ?bs 56 = Inr (ksi_source_modified_unix_nanos identity, 72)"
  proof (rule hc_i128_read [OF s(10) _ _ big])
    show "(72 :: nat) \<le> length ?bs" unfolding len by simp
  qed (use k in simp_all)
  define before where "before = take 88 (header_fields total_len chunk identity text_len ds)"
  have split: "?bs = before @ concat (map descriptor_fields ds) @ replicate 4 0 @ u32_to_le c" and bl: "length before = 88"
    by (simp_all add: before_def header_fields_def MAGIC_def)
  have desc: "hc_descriptors SECTION_COUNT ?bs 88 = Inr (ds, 216)"
    using hc_descriptors_at [OF bl ds(2), of "replicate 4 0 @ u32_to_le c"] big ds(1) unfolding split
    by (simp add: SECTION_COUNT_def)
  have pad: "slice 216 220 ?bs = replicate 4 0"
    using ds(1) by (simp add: slice_def length_header_fields)
  have no_pad: "\<not> (\<exists>x \<in> set (slice 216 220 ?bs). x \<noteq> 0)" unfolding pad by simp
  have b: "Option.bind (checked_add (ksi_key_count identity) 1) (\<lambda>n. checked_mul n 8) = Some ((ksi_key_count identity + 1) * 8)"
    "checked_mul (ksi_key_count identity) 4 = Some (ksi_key_count identity * 4)"
    using k by (simp_all add: checked_add_def checked_mul_def u64_max_def u32_max_def)
  have c: "checked_mul count 4 = Some (count * 4)" "checked_add HEADER_BYTES (count * 4) = Some (HEADER_BYTES + count * 4)"
    using count(3) by (simp_all add: checked_add_def checked_mul_def)
  define bs where "bs = ?bs"
  have p: "checked_sub 224 HEADER_CHECKSUM_BYTES = Some 220" by (simp add: checked_sub_def HEADER_CHECKSUM_BYTES_def)
  show ?thesis
    using k t chunk count match no_pad magic i128 desc len r b c p
    unfolding bs_def [symmetric] by (simp add: parse_index_header_def HEADER_BYTES_def del: checked_add_Some checked_mul_Some checked_sub_Some)
qed

section \<open>The whole round trip\<close>

lemma placed_ok:
  "list_all (section_chunked c) ss \<Longrightarrow> placed_end offset ss \<le> u64_max \<Longrightarrow> start + checksum_total ss \<le> u64_max \<Longrightarrow>
     list_all descriptor_ok (placed offset start ss)"
proof (induction ss arbitrary: offset start)
  case (Cons s ss)
  let ?o = "(offset + 7) div 8 * 8"
  have "?o + sf_len s \<le> placed_end (?o + sf_len s) ss" by (rule placed_end_mono)
  then show ?case using Cons.IH [of "?o + sf_len s" "start + length (sf_checksums s)"] Cons.prems
    by (auto simp: Let_def descriptor_ok_def)
qed simp

lemma placed_counts:
  "index_sections n text_len ss \<Longrightarrow> sections_match_counts (placed offset start ss) text_len ((n + 1) * 8) (n * 4)"
  by (elim index_sections_cases) (simp add: sections_match_counts_def section_index_def Let_def)

text \<open>The options of a reader that are no tighter than the builder's.\<close>

definition options_cover :: "key_index_options \<Rightarrow> key_index_options \<Rightarrow> bool" where
  "options_cover built opts \<longleftrightarrow> kio_chunk_bytes built \<le> kio_chunk_bytes opts \<and>
     kio_max_index_bytes built \<le> kio_max_index_bytes opts \<and> kio_max_metadata_bytes built \<le> kio_max_metadata_bytes opts \<and>
     (kio_checksum_policy opts = Verify \<longrightarrow> kio_checksum_policy built = Verify)"

lemma validate_options_Inr:
  "validate_options opts = Inr () \<Longrightarrow> MIN_CHUNK_BYTES \<le> kio_chunk_bytes opts \<and> is_power_of_two (kio_chunk_bytes opts) \<and>
     kio_chunk_bytes opts \<le> u32_max \<and> HEADER_BYTES \<le> kio_max_metadata_bytes opts \<and>
     kio_chunk_bytes opts \<le> kio_build_memory_bytes opts"
  by (auto simp: validate_options_def Let_def split: if_splits)

lemma parse_built_header:
  assumes b: "build_header ss identity text_len opts = Inr (hdr, ds, total_len)"
    and o: "validate_options opts = Inr ()" "options_cover opts opts'" and i: "identity_ok identity"
    and ss: "index_sections (ksi_key_count identity) text_len ss"
  shows "parse_index_header hdr total_len opts' = Inr (header_of ss identity text_len opts)"
proof -
  let ?h = "header_of ss identity text_len opts"
  note bh = build_header_Inr [OF b ss]
  from bh(8) obtain c where hdr:
    "hdr = header_fields total_len (kio_chunk_bytes opts) identity text_len ds @ replicate 4 0 @ u32_to_le c" by blast
  have len: "length ss = 4" using ss by (elim index_sections_cases) simp
  have small: "checksum_total ss \<le> u64_max" "checksum_total ss * 4 + 224 \<le> u64_max"
    using bh(5) by (simp_all add: HEADER_BYTES_def)
  have pe: "placed_end ((HEADER_BYTES + checksum_total ss * 4 + 7) div 8 * 8) ss \<le> u64_max"
    using bh(2,7) by (simp add: header_of_def Let_def)
  have ds: "ds = placed ((HEADER_BYTES + checksum_total ss * 4 + 7) div 8 * 8) 0 ss"
    using bh(1) by (simp add: header_of_def Let_def)
  have t_le: "text_len \<le> u64_max"
  proof -
    obtain t b r d where "ss = [t, b, r, d]" and "sf_len t = text_len" using ss by (elim index_sections_cases) simp
    moreover have "sf_len t \<le> placed_end offset (t # rest)" for offset rest
      using placed_end_mono [of "(offset + 7) div 8 * 8 + sf_len t" rest] by simp
    ultimately show ?thesis using pe by (metis le_trans)
  qed
  have "parse_index_header hdr total_len opts' = Inr \<lparr>ih_header_len = HEADER_BYTES, ih_total_len = total_len,
      ih_chunk_bytes = kio_chunk_bytes opts, ih_source_identity = identity, ih_normalized_text_len = text_len,
      ih_sections = ds, ih_checksum_count = checksum_total ss\<rparr>"
    unfolding hdr
  proof (rule parse_header_fields)
    show "length ds = 4" using len by (simp add: ds)
    show "list_all descriptor_ok ds" unfolding ds by (rule placed_ok [OF bh(3) pe]) (use small in simp)
    show "check_descriptors (kio_chunk_bytes opts) 0 ds = Inr (checksum_total ss)"
      unfolding ds using check_descriptors_placed [OF bh(3), of 0] small by simp
    show "sections_match_counts ds text_len ((ksi_key_count identity + 1) * 8) (ksi_key_count identity * 4)"
      unfolding ds by (rule placed_counts [OF ss])
  qed (use validate_options_Inr [OF o(1)] o(2) i bh small t_le in \<open>auto simp: options_cover_def HEADER_BYTES_def\<close>)
  then show ?thesis using bh(1,2) by (simp add: header_of_def Let_def)
qed

lemma validate_built_layout:
  assumes b: "build_header ss identity text_len opts = Inr (hdr, ds, total_len)"
    and ss: "index_sections n text_len ss" and len: "xs_len src = total_len" "total_len \<le> u64_max - 7"
  shows "validate_section_layout src (header_of ss identity text_len opts) = Inr ()"
proof -
  let ?e = "HEADER_BYTES + checksum_total ss * 4"
  note bh = build_header_Inr [OF b ss]
  have c: "checked_mul (checksum_total ss) 4 = Some (checksum_total ss * 4)" "checked_add HEADER_BYTES (checksum_total ss * 4) = Some ?e"
    using bh(5) by simp_all
  have t: "total_len = placed_end ((?e + 7) div 8 * 8) ss" using bh(2) by (simp add: header_of_def Let_def)
  have cursor: "(if \<not> 8 dvd ?e then align8 ?e else Inr ?e) = Inr ((?e + 7) div 8 * 8)"
    using bh(5) align8_fixed [of ?e] by (simp add: align8_Inr)
  have "check_placement (xs_len src) ((?e + 7) div 8 * 8) (placed ((?e + 7) div 8 * 8) 0 ss) = Inr total_len"
    using check_placement_placed [of "(?e + 7) div 8 * 8" ss total_len 0] len by (simp add: t)
  then show ?thesis
    by (simp add: validate_section_layout_def header_of_def Let_def c cursor t del: checked_mul_Some checked_add_Some)
qed

lemma source_read_Inr:
  "offset + len \<le> xs_len src \<Longrightarrow> xs_len src = length (xs_bytes src) \<Longrightarrow> xs_len src \<le> isize_max \<Longrightarrow>
     source_read src offset len = Inr (slice offset (offset + len) (xs_bytes src))"
  by (simp add: source_read_def checked_add_def width_simps isize_max_def)

lemma claim_fits: "mb_used b + n \<le> mb_max b \<Longrightarrow> mb_max b \<le> u64_max \<Longrightarrow>
    claim n b = (Inr (), b\<lparr>mb_used := mb_used b + n, mb_peak := max (mb_peak b) (mb_used b + n)\<rparr>)"
  by (simp add: claim_def checked_add_def)

lemma scoped_fits:
  "mb_used b + n \<le> mb_max b \<Longrightarrow> mb_max b \<le> u64_max \<Longrightarrow>
     fst (scoped n (lift r) b) = r \<and> mb_used (snd (scoped n (lift r) b)) = mb_used b \<and>
     mb_max (snd (scoped n (lift r) b)) = mb_max b"
  by (simp add: scoped_def claim_fits release_used)

lemma attempt_lift: "attempt r f = (case r of Inl e \<Rightarrow> lift (Inl e) | Inr x \<Rightarrow> f x)"
  by (cases r) simp_all

lemma read_built_header:
  assumes b: "build_header ss identity text_len opts = Inr (hdr, ds, total_len)"
    and o: "validate_options opts = Inr ()" "options_cover opts opts'" and i: "identity_ok identity"
    and ss: "index_sections (ksi_key_count identity) text_len ss"
    and src: "xs_len src = total_len" "length (xs_bytes src) = total_len" "take HEADER_BYTES (xs_bytes src) = hdr"
      "total_len \<le> isize_max"
    and m: "mb_used m + HEADER_BYTES \<le> mb_max m" "mb_max m \<le> u64_max"
  shows "fst (read_index_header src opts' (kio_checksum_policy opts') m) = Inr (header_of ss identity text_len opts)"
proof -
  note bh = build_header_Inr [OF b ss]
  let ?f = "header_fields total_len (kio_chunk_bytes opts) identity text_len ds"
  obtain c where c: "kio_checksum_policy opts = Verify \<Longrightarrow> c = adler32 (?f @ replicate 4 0)"
    and hdr: "hdr = ?f @ replicate 4 0 @ u32_to_le c" using bh(8) by blast
  have ds: "length ds = 4" using ss bh(1) by (elim index_sections_cases) (simp add: header_of_def Let_def)
  have lf: "length ?f = 216" by (simp add: length_header_fields ds)
  have ge: "224 \<le> total_len"
    using bh(2) placed_end_mono [of "(HEADER_BYTES + checksum_total ss * 4 + 7) div 8 * 8" ss]
    by (simp add: header_of_def Let_def HEADER_BYTES_def)
  have whole: "source_read src 0 224 = Inr hdr"
    using src ge by (simp add: source_read_Inr slice_0 HEADER_BYTES_def)
  have "source_read src 0 24 = Inr (take 24 (xs_bytes src))"
    using src ge by (simp add: source_read_Inr slice_0)
  also have "take 24 (xs_bytes src) = take 24 hdr" using src(3) by (simp add: HEADER_BYTES_def min_def flip: src(3))
  finally have prefix: "source_read src 0 24 = Inr (take 24 hdr)" .
  have t24: "take 24 hdr = MAGIC @ nat_to_le 4 3 @ nat_to_le 4 ENDIAN_MARKER @ nat_to_le 8 224"
    by (simp add: hdr header_fields_def MAGIC_def KEY_INDEX_FORMAT_REVISION_def HEADER_BYTES_def)
  have fields: "get_range (take 24 hdr) 0 8 = Some MAGIC" "read_u32_slice (take 24 hdr) 8 = Inr (u32_from_le (nat_to_le 4 3))"
    "read_u32_slice (take 24 hdr) 12 = Inr (u32_from_le (nat_to_le 4 ENDIAN_MARKER))" "read_u64_slice (take 24 hdr) 16 = Inr 224"
    unfolding t24
    by (simp_all add: get_range_def slice_def MAGIC_def read_u32_slice_def read_u64_slice_def read_slice_def checked_add_def
        u64_max_def)
  have le4: "unat (u32_from_le (nat_to_le 4 n)) = n" if "n < 256 ^ 4" for n
    using that u32_from_be_nat [of "nat_to_be 4 n"] nat_from_to_be [of n 4] by (simp add: u32_from_le_def nat_to_le_def)
  have p: "read_header_prefix src = scoped 24 (lift (Inr 224))"
    using le4 [of 3] le4 [of ENDIAN_MARKER]
    by (simp add: read_header_prefix_def prefix fields KEY_INDEX_FORMAT_REVISION_def HEADER_PREFIX_BYTES_def
        del: get_range_Some)
      (simp add: ENDIAN_MARKER_def)
  have cs: "read_u32_slice hdr 220 = Inr c"
    by (simp add: hdr read_u32_slice_def read_slice_def get_range_def checked_add_def u64_max_def slice_def lf)
  have verify: "\<not> (kio_checksum_policy opts' = Verify \<and> c \<noteq> adler32 (take 220 hdr))"
    using c o(2) by (auto simp: options_cover_def hdr lf)
  have meta: "224 \<le> kio_max_metadata_bytes opts'"
    using validate_options_Inr [OF o(1)] o(2) by (simp add: options_cover_def HEADER_BYTES_def)
  have body: "fst (scoped 224 (lift (Inr (header_of ss identity text_len opts))) b2) = Inr (header_of ss identity text_len opts)"
    if "mb_used b2 + 224 \<le> mb_max b2" "mb_max b2 \<le> u64_max" for b2
    using scoped_fits [OF that] by blast
  have parse: "parse_index_header hdr total_len opts' = Inr (header_of ss identity text_len opts)"
    by (rule parse_built_header [OF b o i ss])
  obtain r :: "nat result" and b1 where s1: "scoped 24 (lift (Inr 224)) m = (r, b1)" by fastforce
  have r: "r = Inr 224" "mb_used b1 = mb_used m" "mb_max b1 = mb_max m"
    using scoped_fits [of m 24 "Inr 224 :: nat result"] s1 m by (simp_all add: HEADER_BYTES_def)
  show ?thesis
    using ge meta m r s1 verify
    by (simp add: read_index_header_def HEADER_PREFIX_BYTES_def src(1) p mbind_def HEADER_BYTES_def
        HEADER_CHECKSUM_BYTES_def whole cs parse Let_def usize_max_def body) blast
qed

end
