(* ===== verification/Index_Cache.thy ===== *)
theory Index_Cache
  imports Index_Format Case_Variants
begin

text \<open>
  An open persistent index (\<^verbatim>\<open>src/src/core/persistent/cache.rs\<close>): the index file is read
  in chunks, each checked against its checksum before its bytes are used, with one cached chunk per
  section and one cached page of the checksum table. The state of a file is extended by these caches
  and by a clock for what the file system reports. \<open>chunks_ok\<close> is the invariant of the caches; the
  lemmas show that a read of a section, whatever is cached, returns that slice of the index file, and
  that under \<open>Verify\<close> the chunks it came from have the checksums of the table.
\<close>

section \<open>State\<close>

text \<open>What the file system says of the dictionary file may change between two calls: the clock counts
  the calls.\<close>

record env_state = file_state +
  es_clock :: nat

record verified_chunk =
  vc_number :: "nat option"
  vc_bytes :: bytes

definition verified_chunk_new :: verified_chunk where
  "verified_chunk_new = \<lparr>vc_number = None, vc_bytes = []\<rparr>"

record index_state = env_state +
  ix_chunks :: "verified_chunk list"
  ix_checksums :: verified_chunk

type_synonym ('z, 'a) iop = "('z index_state_scheme, 'a) comp"

record persistent_key_index =
  px_source :: index_source
  px_header :: index_header
  px_max_row_bytes :: nat
  px_checksum_policy :: checksum_policy

definition px_len :: "persistent_key_index \<Rightarrow> nat" where
  "px_len px = ksi_key_count (ih_source_identity (px_header px))"

definition px_section :: "persistent_key_index \<Rightarrow> section_kind \<Rightarrow> section_descriptor" where
  "px_section px k = ih_sections (px_header px) ! section_index k"

text \<open>A method of the file, called with the rest of the state left alone.\<close>

definition on_file :: "'a op \<Rightarrow> ('z file_state_scheme, 'a) comp" where
  "on_file m st =
     (case m (file_state.truncate st) of (r, st') \<Rightarrow> (r, file_state.extend st' (file_state.more st)))"

text \<open>\<open>FileSource::current_identity\<close>: length and modification time, as \<open>env\<close> says at that time.\<close>

type_synonym file_clock = "nat \<Rightarrow> (nat \<times> int) result"

definition current_identity :: "file_clock \<Rightarrow> ('z env_state_scheme, nat \<times> int) comp" where
  "current_identity env st = (env (es_clock st), st\<lparr>es_clock := es_clock st + 1\<rparr>)"

text \<open>A value that owns \<open>size_of x\<close> bytes, held while \<open>body\<close> runs and then dropped.\<close>

definition oholding ::
    "('a \<Rightarrow> nat) \<Rightarrow> ('z file_state_scheme, 'a) comp \<Rightarrow> ('a \<Rightarrow> ('z file_state_scheme, 'b) comp) \<Rightarrow>
     ('z file_state_scheme, 'b) comp" where
  "oholding size_of m body st =
     (case m st of
        (Inl e, st') \<Rightarrow> (Inl e, st')
      | (Inr x, st') \<Rightarrow> (case body x st' of (r, st'') \<Rightarrow> (r, drop_bytes (size_of x) st'')))"

section \<open>The checksum table\<close>

text \<open>\<open>read_exact_into\<close>: as \<open>read_exact\<close>, without an allocation.\<close>

definition source_read_into :: "index_source \<Rightarrow> nat \<Rightarrow> nat \<Rightarrow> bytes result" where
  "source_read_into src offset len =
     and_then (ok_or (checked_add offset len) (bad_layout ''read range overflow'')) (\<lambda>stop.
     if xs_len src < stop then Inl (bad_layout ''read range exceeds file length'')
     else if length (xs_bytes src) < stop \<and> 0 < len then Inl (Io ''failed to fill whole buffer'')
     else Inr (slice offset stop (xs_bytes src)))"

definition load_checksum_page :: "persistent_key_index \<Rightarrow> nat \<Rightarrow> nat \<Rightarrow> nat \<Rightarrow> ('z, bytes) iop" where
  "load_checksum_page px page page_start page_len st =
     (let cache = ix_checksums st;
          blank = \<lparr>vc_number = None, vc_bytes = resize page_len 0 (vc_bytes cache)\<rparr> in
      if vc_number cache = Some page \<and> length (vc_bytes cache) = page_len then (Inr (vc_bytes cache), st)
      else
      case and_then (ok_or (checked_add (ih_header_len (px_header px)) page_start)
              (bad_layout ''checksum table offset overflow'')) (\<lambda>absolute.
            source_read_into (px_source px) absolute page_len) of
        Inl e \<Rightarrow> (Inl e, st\<lparr>ix_checksums := blank\<rparr>)
      | Inr bs \<Rightarrow> (Inr bs, st\<lparr>ix_checksums := \<lparr>vc_number = Some page, vc_bytes = bs\<rparr>\<rparr>))"

definition expected_checksum :: "persistent_key_index \<Rightarrow> nat \<Rightarrow> ('z, u32) iop" where
  "expected_checksum px index =
     (if ih_checksum_count (px_header px) \<le> index then olift (Inl (bad_layout ''checksum index is out of range''))
      else
      otry (ok_or (checked_mul index 4) (bad_layout ''checksum offset overflow'')) (\<lambda>byte_offset.
      let page = byte_offset div CHECKSUM_PAGE_BYTES in
      otry (ok_or (checked_mul page CHECKSUM_PAGE_BYTES) (bad_layout ''checksum page overflow'')) (\<lambda>page_start.
      otry (ok_or (checked_mul (ih_checksum_count (px_header px)) 4) (bad_layout ''checksum table overflow''))
        (\<lambda>table_bytes.
      otry (checked_usize (min (table_bytes - page_start) CHECKSUM_PAGE_BYTES) ''persistent checksum page length'')
        (\<lambda>page_len.
      obind (load_checksum_page px page page_start page_len) (\<lambda>bs.
      otry (checked_usize (byte_offset - page_start) ''persistent checksum offset'') (\<lambda>relative.
      otry (ok_or (checked_add relative 4) (bad_layout ''checksum offset overflow'')) (\<lambda>stop.
      otry (ok_or (get_range bs relative stop) (bad_layout ''checksum exceeds cached page'')) (\<lambda>field.
      oret (u32_from_le field))))))))))"

section \<open>Chunks\<close>

text \<open>The part of \<open>load_verified_chunk\<close> that looks at the slot of the section.\<close>

definition load_slot ::
    "persistent_key_index \<Rightarrow> section_kind \<Rightarrow> nat \<Rightarrow> nat \<Rightarrow> nat \<Rightarrow> u32 option \<Rightarrow> ('z, bytes) iop" where
  "load_slot px k chunk offset len expected st =
     (if length (ix_chunks st) \<le> section_index k
      then (Inl (bad_layout ''chunk cache section is out of range''), st)
      else
      let slot = ix_chunks st ! section_index k;
          set = (\<lambda>vc. st\<lparr>ix_chunks := (ix_chunks st)[section_index k := vc]\<rparr>) in
      if vc_number slot = Some chunk \<and> length (vc_bytes slot) = len then (Inr (vc_bytes slot), st)
      else
      case source_read_into (px_source px) offset len of
        Inl e \<Rightarrow> (Inl e, set \<lparr>vc_number = None, vc_bytes = resize len 0 (vc_bytes slot)\<rparr>)
      | Inr bs \<Rightarrow>
          (case expected of
             Some checksum \<Rightarrow>
               if checksum \<noteq> adler32 bs
               then (Inl (reject (IndexChecksumMismatch (section_name k) (Some chunk) checksum (adler32 bs))),
                     set \<lparr>vc_number = None, vc_bytes = []\<rparr>)
               else (Inr bs, set \<lparr>vc_number = Some chunk, vc_bytes = bs\<rparr>)
           | None \<Rightarrow> (Inr bs, set \<lparr>vc_number = Some chunk, vc_bytes = bs\<rparr>)))"

definition load_verified_chunk :: "persistent_key_index \<Rightarrow> section_kind \<Rightarrow> nat \<Rightarrow> ('z, bytes) iop" where
  "load_verified_chunk px k chunk =
     (let d = px_section px k; chunk_bytes = ih_chunk_bytes (px_header px) in
      if sd_checksum_count d \<le> chunk then olift (Inl (bad_layout ''chunk index is out of range''))
      else
      otry (ok_or (checked_add (sd_checksum_start d) chunk) (bad_layout ''checksum index overflow'')) (\<lambda>checksum_index.
      obind (if px_checksum_policy px = Verify
             then obind (expected_checksum px checksum_index) (\<lambda>c. oret (Some c)) else oret None) (\<lambda>expected.
      otry (ok_or (checked_mul chunk chunk_bytes) (bad_layout ''chunk offset overflow'')) (\<lambda>relative.
      otry (ok_or (checked_sub (sd_len d) relative) (bad_layout ''chunk exceeds section'')) (\<lambda>left.
      otry (ok_or (checked_add (sd_offset d) relative) (bad_layout ''chunk offset overflow'')) (\<lambda>offset.
      otry (checked_usize (min left chunk_bytes) ''persistent key-index chunk length'') (\<lambda>len.
      load_slot px k chunk offset len expected)))))))"

section \<open>Sections\<close>

text \<open>One chunk copied into the output, and the loop over the chunks.\<close>

definition copy_chunk_range :: "nat \<Rightarrow> nat \<Rightarrow> nat \<Rightarrow> nat \<Rightarrow> bytes \<Rightarrow> bytes \<Rightarrow> bytes result" where
  "copy_chunk_range chunk_bytes offset stop chunk bs output =
     and_then (ok_or (checked_mul chunk chunk_bytes) (bad_layout ''chunk offset overflow'')) (\<lambda>chunk_start.
     and_then (ok_or (checked_add chunk_start (length bs)) (bad_layout ''chunk end overflow'')) (\<lambda>chunk_end.
     let copy_start = max offset chunk_start; copy_end = min stop chunk_end in
     and_then (checked_usize (copy_start - chunk_start) ''chunk copy source'') (\<lambda>source_start.
     and_then (checked_usize (copy_end - chunk_start) ''chunk copy source'') (\<lambda>source_end.
     and_then (checked_usize (copy_start - offset) ''chunk copy target'') (\<lambda>target_start.
     and_then (checked_usize (copy_end - offset) ''chunk copy target'') (\<lambda>target_end.
     Inr (take target_start output @ slice source_start source_end bs @ drop target_end output)))))))"

fun copy_chunks ::
    "persistent_key_index \<Rightarrow> section_kind \<Rightarrow> nat \<Rightarrow> nat \<Rightarrow> nat list \<Rightarrow> bytes \<Rightarrow> ('z, bytes) iop" where
  "copy_chunks px k offset stop [] output = oret output"
| "copy_chunks px k offset stop (c # cs) output =
     obind (load_verified_chunk px k c) (\<lambda>bs.
     otry (copy_chunk_range (ih_chunk_bytes (px_header px)) offset stop c bs output) (\<lambda>output.
     copy_chunks px k offset stop cs output))"

definition read_section_into_cached :: "persistent_key_index \<Rightarrow> section_kind \<Rightarrow> nat \<Rightarrow> nat \<Rightarrow> ('z, bytes) iop" where
  "read_section_into_cached px k offset len =
     (let d = px_section px k; chunk_bytes = ih_chunk_bytes (px_header px); output = replicate len 0 in
      otry (ok_or (checked_add offset len) (bad_layout ''section read overflow'')) (\<lambda>stop.
      if sd_len d < stop then olift (Inl (bad_layout ''section read exceeds its bounds''))
      else if len = 0 then oret output
      else copy_chunks px k offset stop [offset div chunk_bytes..<Suc ((stop - 1) div chunk_bytes)] output))"

text \<open>\<open>read_section\<close>: the result keeps its reservation.\<close>

definition read_section :: "persistent_key_index \<Rightarrow> section_kind \<Rightarrow> nat \<Rightarrow> nat \<Rightarrow> ('z, bytes) iop" where
  "read_section px k offset len =
     otry (ok_or (checked_add offset len) (bad_layout ''section read overflow'')) (\<lambda>stop.
     if sd_len (px_section px k) < stop then olift (Inl (bad_layout ''section read exceeds its bounds''))
     else
     oretained len (
     otry (try_reserve_vec 1 0 len ''persistent key-index read result'') (\<lambda>_.
     if len = 0 then oret [] else read_section_into_cached px k offset len)))"

definition bound_at :: "persistent_key_index \<Rightarrow> nat \<Rightarrow> ('z, nat) iop" where
  "bound_at px index =
     (if px_len px < index then olift (Inl (bad_layout ''text-bound index is out of range''))
      else
      otry (ok_or (checked_mul index 8) (bad_layout ''text-bound offset overflow'')) (\<lambda>offset.
      obind (read_section_into_cached px SecBounds offset 8) (\<lambda>bs. oret (nat_from_le bs))))"

definition order_at :: "persistent_key_index \<Rightarrow> nat \<Rightarrow> ('z, nat) iop" where
  "order_at px position =
     (if px_len px \<le> position then olift (Inl (bad_layout ''order position is out of range''))
      else
      otry (ok_or (checked_mul position 4) (bad_layout ''order offset overflow'')) (\<lambda>offset.
      obind (read_section_into_cached px SecOrder offset 4) (\<lambda>bs. oret (nat_from_le bs))))"

definition raw_digest_at :: "persistent_key_index \<Rightarrow> nat \<Rightarrow> ('z, u32) iop" where
  "raw_digest_at px ordinal =
     (if px_len px \<le> ordinal then olift (Inl (bad_layout ''raw-digest ordinal is out of range''))
      else
      otry (ok_or (checked_mul ordinal 4) (bad_layout ''raw-digest offset overflow'')) (\<lambda>offset.
      obind (read_section_into_cached px SecRaw offset 4) (\<lambda>bs. oret (u32_from_le bs))))"

text \<open>A row's text is handed out as its UTF-8 bytes, which are checked to be UTF-8; they keep their
  reservation.\<close>

definition index_row_text :: "persistent_key_index \<Rightarrow> nat \<Rightarrow> ('z, bytes) iop" where
  "index_row_text px ordinal =
     (if px_len px \<le> ordinal then olift (Inl (bad_layout ''text ordinal is out of range''))
      else
      obind (bound_at px ordinal) (\<lambda>start.
      obind (bound_at px (ordinal + 1)) (\<lambda>stop.
      otry (ok_or (checked_sub stop start) (bad_layout ''text bounds are inverted'')) (\<lambda>len.
      if ih_normalized_text_len (px_header px) < stop then olift (Inl (bad_layout ''text bounds exceed text section''))
      else
      otry (checked_usize len ''persistent normalized key length'') (\<lambda>len.
      otry (ensure_usize_limit ''key_index_row_bytes'' len (px_max_row_bytes px)) (\<lambda>_.
      ochecked length (read_section px SecText start len) (\<lambda>bs.
        if from_utf8 bs = None then Inl (bad_layout ''normalized key is not UTF-8'') else Inr ())))))))"

section \<open>Searching the order\<close>

definition goes_left :: "persistent_key_index \<Rightarrow> bytes \<Rightarrow> bool \<Rightarrow> nat \<Rightarrow> ('z, bool) iop" where
  "goes_left px query inclusive_end middle =
     obind (order_at px middle) (\<lambda>ordinal.
     oinspect length (index_row_text px ordinal) (\<lambda>row.
       Inr (if inclusive_end then query < row else query \<le> row)))"

function lower_bound_between ::
    "persistent_key_index \<Rightarrow> bytes \<Rightarrow> bool \<Rightarrow> nat \<Rightarrow> nat \<Rightarrow> ('z, nat) iop" where
  "lower_bound_between px query inclusive_end left right st =
     (if right \<le> left then (Inr left, st)
      else
      let middle = left + (right - left) div 2 in
      case goes_left px query inclusive_end middle st of
        (Inl e, st') \<Rightarrow> (Inl e, st')
      | (Inr True, st') \<Rightarrow> lower_bound_between px query inclusive_end left middle st'
      | (Inr False, st') \<Rightarrow> lower_bound_between px query inclusive_end (middle + 1) right st')"
  by pat_completeness auto
termination
  by (relation "measure (\<lambda>(_, _, _, left, right, _). right - left)") auto

declare lower_bound_between.simps [simp del]

definition lower_bound :: "persistent_key_index \<Rightarrow> bytes \<Rightarrow> bool \<Rightarrow> ('z, nat) iop" where
  "lower_bound px query inclusive_end = lower_bound_between px query inclusive_end 0 (px_len px)"

definition index_equal_range :: "persistent_key_index \<Rightarrow> bytes \<Rightarrow> ('z, (nat \<times> nat) option) iop" where
  "index_equal_range px query =
     obind (lower_bound px query False) (\<lambda>start.
     obind (lower_bound px query True) (\<lambda>stop.
     oret (if start < stop then Some (start, stop) else None)))"

fun order_positions :: "persistent_key_index \<Rightarrow> nat list \<Rightarrow> ('z, nat list) iop" where
  "order_positions px [] = oret []"
| "order_positions px (p # ps) =
     obind (order_at px p) (\<lambda>r. obind (order_positions px ps) (\<lambda>rs. oret (r # rs)))"

definition ordinals_in :: "persistent_key_index \<Rightarrow> nat \<Rightarrow> nat \<Rightarrow> ('z, nat list) iop" where
  "ordinals_in px start stop =
     otry (ok_or (checked_sub stop start) (bad_layout ''order range is inverted'')) (\<lambda>count.
     otry (checked_usize count ''persistent key-index match count'') (\<lambda>count.
     otry (try_reserve_vec 4 0 count ''persistent key-index matches'') (\<lambda>_.
     order_positions px [start..<stop])))"

end
