(* ===== verification/Index_Reads.thy ===== *)
theory Index_Reads
  imports Index_Cache
begin

text \<open>
  What the reads of an open index return (\<^verbatim>\<open>src/src/core/persistent/cache.rs\<close>). \<open>px_ok\<close> says that
  the header describes the file, \<open>chunks_ok\<close> is the invariant of the caches: what they hold is what
  the file holds, and a cached chunk has been verified.
\<close>

section \<open>The invariant\<close>

definition section_bytes :: "persistent_key_index \<Rightarrow> section_kind \<Rightarrow> bytes" where
  "section_bytes px k =
     slice (sd_offset (px_section px k)) (sd_offset (px_section px k) + sd_len (px_section px k)) (xs_bytes (px_source px))"

abbreviation chunk_width :: "persistent_key_index \<Rightarrow> nat" where
  "chunk_width px \<equiv> ih_chunk_bytes (px_header px)"

definition chunk_of :: "persistent_key_index \<Rightarrow> section_kind \<Rightarrow> nat \<Rightarrow> bytes" where
  "chunk_of px k c =
     slice (c * chunk_width px) (min (Suc c * chunk_width px) (sd_len (px_section px k))) (section_bytes px k)"

definition checksum_table :: "persistent_key_index \<Rightarrow> bytes" where
  "checksum_table px =
     slice (ih_header_len (px_header px)) (ih_header_len (px_header px) + ih_checksum_count (px_header px) * 4)
       (xs_bytes (px_source px))"

definition table_checksum :: "persistent_key_index \<Rightarrow> nat \<Rightarrow> u32" where
  "table_checksum px i = u32_from_le (slice (i * 4) (i * 4 + 4) (checksum_table px))"

text \<open>A chunk whose bytes agree with the table, when the policy asks for it.\<close>

definition chunk_verified :: "persistent_key_index \<Rightarrow> section_kind \<Rightarrow> nat \<Rightarrow> bool" where
  "chunk_verified px k c \<longleftrightarrow>
     (px_checksum_policy px = Verify \<longrightarrow>
        adler32 (chunk_of px k c) = table_checksum px (sd_checksum_start (px_section px k) + c))"

definition px_ok :: "persistent_key_index \<Rightarrow> bool" where
  "px_ok px \<longleftrightarrow>
     xs_len (px_source px) = length (xs_bytes (px_source px)) \<and>
     MIN_CHUNK_BYTES \<le> chunk_width px \<and> px_len px \<le> u32_max \<and>
     ih_header_len (px_header px) + ih_checksum_count (px_header px) * 4 \<le> xs_len (px_source px) \<and>
     (\<forall>k. sd_offset (px_section px k) + sd_len (px_section px k) \<le> xs_len (px_source px) \<and>
        chunk_count (sd_len (px_section px k)) (chunk_width px) = Inr (sd_checksum_count (px_section px k)) \<and>
        sd_checksum_start (px_section px k) + sd_checksum_count (px_section px k) \<le> ih_checksum_count (px_header px)) \<and>
     sd_len (px_section px SecText) = ih_normalized_text_len (px_header px) \<and>
     sd_len (px_section px SecBounds) = (px_len px + 1) * 8 \<and> sd_len (px_section px SecRaw) = px_len px * 4 \<and>
     sd_len (px_section px SecOrder) = px_len px * 4"

definition page_of :: "persistent_key_index \<Rightarrow> nat \<Rightarrow> bytes" where
  "page_of px p =
     slice (p * CHECKSUM_PAGE_BYTES)
       (p * CHECKSUM_PAGE_BYTES + min (ih_checksum_count (px_header px) * 4 - p * CHECKSUM_PAGE_BYTES) CHECKSUM_PAGE_BYTES)
       (checksum_table px)"

definition chunks_ok :: "persistent_key_index \<Rightarrow> 'z index_state_scheme \<Rightarrow> bool" where
  "chunks_ok px st \<longleftrightarrow> length (ix_chunks st) = 4 \<and>
     (\<forall>k c. vc_number (ix_chunks st ! section_index k) = Some c \<longrightarrow>
        vc_bytes (ix_chunks st ! section_index k) = chunk_of px k c \<and> chunk_verified px k c) \<and>
     (\<forall>p. vc_number (ix_checksums st) = Some p \<longrightarrow> vc_bytes (ix_checksums st) = page_of px p)"

text \<open>A predicate on the extension of a state, for \<open>file_inv\<close>.\<close>

definition no_file :: file_state where
  "no_file = \<lparr>st_memory = budget_new 0, st_key_cache = None, st_record_cache = None, st_locator = None\<rparr>"

definition on_more :: "('z file_state_scheme \<Rightarrow> bool) \<Rightarrow> 'z \<Rightarrow> bool" where
  "on_more P m = P (file_state.extend no_file m)"

lemma on_more_chunks [simp]: "on_more (chunks_ok px) (file_state.more st) = chunks_ok px st"
  by (cases st) (simp add: on_more_def chunks_ok_def file_state.defs)

abbreviation index_inv where
  "index_inv px X f RP LP \<equiv>
     file_inv (on_more (chunks_ok px)) (working_memory_bytes (mf_limits f)) (key_cache_ok X f) RP LP"

text \<open>A computation that touches nothing but the caches of the index.\<close>

lemma caches_keeps:
  assumes "\<And>st r st'. chunks_ok px st \<Longrightarrow> m st = (r, st') \<Longrightarrow>
     (\<exists>cs ck. st' = st\<lparr>ix_chunks := cs, ix_checksums := ck\<rparr>) \<and> chunks_ok px st' \<and> (\<forall>x. r = Inr x \<longrightarrow> Q x)"
  shows "keeps (file_inv (on_more (chunks_ok px)) M KP RP LP) m Q"
proof (rule runsI)
  fix base st r st' assume i: "file_inv (on_more (chunks_ok px)) M KP RP LP base st" and run: "m st = (r, st')"
  have c: "chunks_ok px st" using i by (simp add: file_inv_def)
  from assms [OF c run] obtain cs ck where s: "st' = st\<lparr>ix_chunks := cs, ix_checksums := ck\<rparr>" "chunks_ok px st'"
    "\<forall>x. r = Inr x \<longrightarrow> Q x" by blast
  have "file_inv (on_more (chunks_ok px)) M KP RP LP base st'"
    using i s(2) by (simp add: file_inv_def state_bytes_def s(1))
  then show "case r of Inl e \<Rightarrow> file_inv (on_more (chunks_ok px)) M KP RP LP base st'
      | Inr x \<Rightarrow> file_inv (on_more (chunks_ok px)) M KP RP LP (base + 0) st' \<and> Q x"
    using s(3) by (simp split: sum.splits)
qed

lemma on_file_keeps:
  assumes m: "keeps (file_inv (\<lambda>_. True) M KP RP LP) m Q"
  shows "keeps (file_inv E M KP RP LP) (on_file m) Q"
proof (rule runsI)
  fix base st r st' assume i: "file_inv E M KP RP LP base st" and run: "on_file m st = (r, st')"
  obtain r1 st1 where c: "m (file_state.truncate st) = (r1, st1)" by fastforce
  have t: "file_inv (\<lambda>_. True) M KP RP LP base (file_state.truncate st)"
    using i by (simp add: file_inv_def file_state.defs state_bytes_def)
  have e: "file_inv E M KP RP LP b (file_state.extend st1 (file_state.more st))"
    if "file_inv (\<lambda>_. True) M KP RP LP b st1" for b
    using that i by (simp add: file_inv_def file_state.defs state_bytes_def)
  show "case r of Inl e \<Rightarrow> file_inv E M KP RP LP base st' | Inr x \<Rightarrow> file_inv E M KP RP LP (base + 0) st' \<and> Q x"
    using run c runsD [OF m t c] e by (cases r1) (auto simp: on_file_def)
qed

lemma runs_holding:
  assumes m: "runs (file_inv E M KP RP LP) size_of m Q" and b: "\<And>x. Q x \<Longrightarrow> runs (file_inv E M KP RP LP) k (body x) R"
  shows "runs (file_inv E M KP RP LP) k (oholding size_of m body) R"
proof (rule runsI)
  fix base st r st' assume i: "file_inv E M KP RP LP base st" and run: "oholding size_of m body st = (r, st')"
  obtain r1 st1 where c: "m st = (r1, st1)" by (cases "m st")
  show "case r of Inl e \<Rightarrow> file_inv E M KP RP LP base st' | Inr x \<Rightarrow> file_inv E M KP RP LP (base + k x) st' \<and> R x"
  proof (cases r1)
    case (Inl e)
    then show ?thesis using run c runs_error [OF m i] by (auto simp: oholding_def)
  next
    case (Inr x)
    then have x: "file_inv E M KP RP LP (base + size_of x) st1" "Q x" using runs_result [OF m i] c by simp_all
    obtain r2 st2 where d: "body x st1 = (r2, st2)" by (cases "body x st1")
    have "r = r2" and "st' = drop_bytes (size_of x) st2" using run c Inr d by (simp_all add: oholding_def)
    then show ?thesis
      using runsD [OF b [OF x(2)] x(1) d] by (cases r2) (auto simp: ac_simps intro!: drop_bytes_inv)
  qed
qed

lemma section_index_eq [simp]: "section_index j = section_index k \<longleftrightarrow> j = k"
  by (cases j; cases k) (simp_all add: section_index_def)

section \<open>The checksum table\<close>

lemma source_read_into_Inr:
  "xs_len src = length (xs_bytes src) \<Longrightarrow>
     source_read_into src offset len = Inr bs \<longleftrightarrow>
       offset + len \<le> u64_max \<and> offset + len \<le> xs_len src \<and> bs = slice offset (offset + len) (xs_bytes src)"
  by (auto simp: source_read_into_def and_then_Inr)

lemma slice_slice: "a + d \<le> b \<Longrightarrow> slice c d (slice a b xs) = slice (a + c) (a + d) xs"
  by (simp add: slice_def drop_take min_def add.commute)

lemma load_checksum_page_keeps:
  assumes ok: "px_ok px" and p: "p * CHECKSUM_PAGE_BYTES \<le> ih_checksum_count (px_header px) * 4"
    and len: "page_len = min (ih_checksum_count (px_header px) * 4 - p * CHECKSUM_PAGE_BYTES) CHECKSUM_PAGE_BYTES"
  shows "keeps (file_inv (on_more (chunks_ok px)) M KP RP LP)
    (load_checksum_page px p (p * CHECKSUM_PAGE_BYTES) page_len) (\<lambda>bs. bs = page_of px p)"
proof (rule caches_keeps)
  fix st r st' assume i: "chunks_ok px st" and run: "load_checksum_page px p (p * CHECKSUM_PAGE_BYTES) page_len st = (r, st')"
  let ?h = "px_header px" and ?s = "px_source px"
  have whole: "slice (ih_header_len ?h + p * CHECKSUM_PAGE_BYTES) (ih_header_len ?h + p * CHECKSUM_PAGE_BYTES + page_len) (xs_bytes ?s) =
      page_of px p"
  proof -
    have "ih_header_len ?h + (p * CHECKSUM_PAGE_BYTES + page_len) \<le> ih_header_len ?h + ih_checksum_count ?h * 4"
      using p len by linarith
    then show ?thesis
      unfolding page_of_def checksum_table_def len [symmetric] by (simp only: slice_slice add.assoc)
  qed
  show "(\<exists>cs ck. st' = st\<lparr>ix_chunks := cs, ix_checksums := ck\<rparr>) \<and> chunks_ok px st' \<and> (\<forall>x. r = Inr x \<longrightarrow> x = page_of px p)"
  proof (cases "vc_number (ix_checksums st) = Some p \<and> length (vc_bytes (ix_checksums st)) = page_len")
    case True
    then have "load_checksum_page px p (p * CHECKSUM_PAGE_BYTES) page_len st = (Inr (vc_bytes (ix_checksums st)), st)"
      unfolding load_checksum_page_def Let_def by (rule if_P)
    then have "r = Inr (vc_bytes (ix_checksums st))" "st' = st" using run by simp_all
    then show ?thesis using i True
      by (auto simp: chunks_ok_def intro!: exI [of _ "ix_chunks st"] exI [of _ "ix_checksums st"])
  next
    case False
    let ?read = "and_then (ok_or (checked_add (ih_header_len ?h) (p * CHECKSUM_PAGE_BYTES))
              (bad_layout ''checksum table offset overflow'')) (\<lambda>absolute. source_read_into ?s absolute page_len)"
    have "\<exists>ck. st' = st\<lparr>ix_checksums := ck\<rparr> \<and> (vc_number ck = None \<or> vc_number ck = Some p \<and> vc_bytes ck = page_of px p) \<and>
      (\<forall>x. r = Inr x \<longrightarrow> x = page_of px p)"
    proof (cases ?read)
      case (Inl e)
      then have "r = Inl e" "st' = st\<lparr>ix_checksums := \<lparr>vc_number = None, vc_bytes = resize page_len 0 (vc_bytes (ix_checksums st))\<rparr>\<rparr>"
        using run False by (auto simp: load_checksum_page_def Let_def)
      then show ?thesis by auto
    next
      case (Inr bs)
      have l: "xs_len ?s = length (xs_bytes ?s)" using ok by (simp add: px_ok_def)
      have "bs = page_of px p" using Inr whole by (auto simp: and_then_Inr source_read_into_Inr [OF l])
      moreover have "r = Inr bs" "st' = st\<lparr>ix_checksums := \<lparr>vc_number = Some p, vc_bytes = bs\<rparr>\<rparr>"
        using run False Inr by (auto simp: load_checksum_page_def Let_def)
      ultimately show ?thesis by auto
    qed
    then obtain ck where st': "st' = st\<lparr>ix_checksums := ck\<rparr>"
      and ck: "vc_number ck = None \<or> vc_number ck = Some p \<and> vc_bytes ck = page_of px p" and r: "\<forall>x. r = Inr x \<longrightarrow> x = page_of px p"
      by blast
    have "chunks_ok px st'" using i ck by (auto simp: st' chunks_ok_def)
    then show ?thesis using r by (auto simp: st' intro!: exI [of _ "ix_chunks st"] exI [of _ ck])
  qed
qed

lemma expected_checksum_keeps:
  assumes ok: "px_ok px"
  shows "keeps (file_inv (on_more (chunks_ok px)) M KP RP LP) (expected_checksum px i)
    (\<lambda>c. i < ih_checksum_count (px_header px) \<and> c = table_checksum px i)"
  unfolding expected_checksum_def Let_def
proof (rule runs_if, rule runs_fail, (rule runs_try)+)
  let ?n = "ih_checksum_count (px_header px)"
  fix byte_offset page_start table_bytes page_len
  assume i: "\<not> ?n \<le> i" and b: "ok_or (checked_mul i 4) (bad_layout ''checksum offset overflow'') = Inr byte_offset"
    and p: "ok_or (checked_mul (byte_offset div CHECKSUM_PAGE_BYTES) CHECKSUM_PAGE_BYTES) (bad_layout ''checksum page overflow'') = Inr page_start"
    and t: "ok_or (checked_mul ?n 4) (bad_layout ''checksum table overflow'') = Inr table_bytes"
    and l: "checked_usize (min (table_bytes - page_start) CHECKSUM_PAGE_BYTES) ''persistent checksum page length'' = Inr page_len"
  let ?p = "byte_offset div CHECKSUM_PAGE_BYTES"
  have bo: "byte_offset = i * 4" and ps: "page_start = ?p * CHECKSUM_PAGE_BYTES" and tb: "table_bytes = ?n * 4"
    and pl: "page_len = min (?n * 4 - ?p * CHECKSUM_PAGE_BYTES) CHECKSUM_PAGE_BYTES"
    using b p t l by simp_all
  have dm: "byte_offset = ?p * CHECKSUM_PAGE_BYTES + byte_offset mod CHECKSUM_PAGE_BYTES" by simp
  have within: "?p * CHECKSUM_PAGE_BYTES \<le> ?n * 4" using i bo dm by linarith
  show "keeps (file_inv (on_more (chunks_ok px)) M KP RP LP)
     (obind (load_checksum_page px ?p page_start page_len) (\<lambda>bs.
      otry (checked_usize (byte_offset - page_start) ''persistent checksum offset'') (\<lambda>relative.
      otry (ok_or (checked_add relative 4) (bad_layout ''checksum offset overflow'')) (\<lambda>stop.
      otry (ok_or (get_range bs relative stop) (bad_layout ''checksum exceeds cached page'')) (\<lambda>field.
      oret (u32_from_le field)))))) (\<lambda>c. i < ?n \<and> c = table_checksum px i)"
    unfolding ps
  proof (rule runs_bind [OF load_checksum_page_keeps [OF ok within pl]], (rule runs_try)+, rule runs_lift)
    fix bs relative stop field c
    assume bs: "bs = page_of px ?p"
      and r: "checked_usize (byte_offset - ?p * CHECKSUM_PAGE_BYTES) ''persistent checksum offset'' = Inr relative"
      and s: "ok_or (checked_add relative 4) (bad_layout ''checksum offset overflow'') = Inr stop"
      and g: "ok_or (get_range bs relative stop) (bad_layout ''checksum exceeds cached page'') = Inr field"
      and c: "(Inr (u32_from_le field) :: u32 result) = Inr c"
    let ?a = "?p * CHECKSUM_PAGE_BYTES"
    have rel: "relative = i * 4 - ?a" and st: "stop = relative + 4" and f: "field = slice relative stop bs" "stop \<le> length bs"
      using r s g bo by simp_all
    have ia: "?a \<le> i * 4" using dm bo by linarith
    have "length bs \<le> page_len" unfolding bs page_of_def pl [symmetric] by (simp add: slice_def)
    then have "stop \<le> page_len" using f(2) by simp
    then have "field = slice (i * 4) (i * 4 + 4) (checksum_table px)"
      unfolding f(1) bs page_of_def pl [symmetric] using ia
      by (subst slice_slice) (simp_all add: rel st)
    then show "i < ?n \<and> c = table_checksum px i" using i c by (simp add: table_checksum_def)
  qed
qed

section \<open>Chunks\<close>

lemma chunk_count_bound:
  assumes "chunk_count len cb = Inr n" and "c < n"
  shows "c * cb < len"
proof -
  have cb: "0 < cb" and n: "n = (len + (cb - 1)) div cb" "0 < len"
    using assms by (auto simp: chunk_count_def split: if_splits)
  have "Suc c \<le> (len + (cb - 1)) div cb" using assms(2) n by simp
  then have "Suc c * cb \<le> len + (cb - 1)" using cb by (metis div_times_less_eq_dividend le_trans mult_le_mono1)
  then show ?thesis using cb by simp
qed

lemma load_slot_keeps:
  assumes ok: "px_ok px" and c: "c < sd_checksum_count (px_section px k)"
    and len: "len = min (sd_len (px_section px k) - c * chunk_width px) (chunk_width px)"
    and off: "offset = sd_offset (px_section px k) + c * chunk_width px"
    and e: "expected = (if px_checksum_policy px = Verify then Some (table_checksum px (sd_checksum_start (px_section px k) + c)) else None)"
  shows "keeps (file_inv (on_more (chunks_ok px)) M KP RP LP) (load_slot px k c offset len expected)
    (\<lambda>bs. bs = chunk_of px k c \<and> chunk_verified px k c)"
proof (rule caches_keeps)
  fix st r st' assume i: "chunks_ok px st" and run: "load_slot px k c offset len expected st = (r, st')"
  let ?d = "px_section px k" and ?s = "px_source px" and ?i = "section_index k" and ?Q = "\<lambda>bs. bs = chunk_of px k c \<and> chunk_verified px k c"
  have d: "chunk_count (sd_len ?d) (chunk_width px) = Inr (sd_checksum_count ?d)" "sd_offset ?d + sd_len ?d \<le> xs_len ?s"
    and l: "xs_len ?s = length (xs_bytes ?s)" using ok by (auto simp: px_ok_def)
  have cb: "c * chunk_width px < sd_len ?d" by (rule chunk_count_bound [OF d(1) c])
  have whole: "slice offset (offset + len) (xs_bytes ?s) = chunk_of px k c"
  proof -
    have "offset + len = sd_offset ?d + min (Suc c * chunk_width px) (sd_len ?d)"
      using cb by (auto simp: len off min_def)
    then show ?thesis
      unfolding chunk_of_def section_bytes_def using off by (metis slice_slice add_left_mono min.cobounded2)
  qed
  have idx: "?i < length (ix_chunks st)" using i by (cases k) (simp_all add: chunks_ok_def section_index_def)
  have set: "chunks_ok px (st\<lparr>ix_chunks := (ix_chunks st)[?i := vc]\<rparr>)"
    if "vc_number vc = None \<or> vc_number vc = Some c \<and> ?Q (vc_bytes vc)" for vc
    using i idx that by (auto simp: chunks_ok_def nth_list_update)
  let ?slot = "ix_chunks st ! ?i"
  show "(\<exists>cs ck. st' = st\<lparr>ix_chunks := cs, ix_checksums := ck\<rparr>) \<and> chunks_ok px st' \<and> (\<forall>x. r = Inr x \<longrightarrow> ?Q x)"
  proof (cases "vc_number ?slot = Some c \<and> length (vc_bytes ?slot) = len")
    case True
    then have "r = Inr (vc_bytes ?slot)" "st' = st" using run idx by (auto simp: load_slot_def)
    then show ?thesis using i True
      by (auto simp: chunks_ok_def intro!: exI [of _ "ix_chunks st"] exI [of _ "ix_checksums st"])
  next
    case False
    have "\<exists>vc. st' = st\<lparr>ix_chunks := (ix_chunks st)[?i := vc]\<rparr> \<and>
      (vc_number vc = None \<or> vc_number vc = Some c \<and> ?Q (vc_bytes vc)) \<and> (\<forall>x. r = Inr x \<longrightarrow> ?Q x)"
    proof (cases "source_read_into ?s offset len")
      case (Inl e)
      then have "r = Inl e"
        "st' = st\<lparr>ix_chunks := (ix_chunks st)[?i := \<lparr>vc_number = None, vc_bytes = resize len 0 (vc_bytes ?slot)\<rparr>]\<rparr>"
        using run False idx by (auto simp: load_slot_def Let_def)
      then show ?thesis by auto
    next
      case (Inr bs)
      then have bs: "bs = chunk_of px k c" using whole by (simp add: source_read_into_Inr [OF l])
      show ?thesis
      proof (cases "px_checksum_policy px = Verify \<and> table_checksum px (sd_checksum_start ?d + c) \<noteq> adler32 bs")
        case True
        then have "r = Inl (reject (IndexChecksumMismatch (section_name k) (Some c) (table_checksum px (sd_checksum_start ?d + c)) (adler32 bs)))"
          "st' = st\<lparr>ix_chunks := (ix_chunks st)[?i := \<lparr>vc_number = None, vc_bytes = []\<rparr>]\<rparr>"
          using run False idx Inr by (auto simp: load_slot_def Let_def e)
        then show ?thesis by auto
      next
        case okc: False
        then have "r = Inr bs" "st' = st\<lparr>ix_chunks := (ix_chunks st)[?i := \<lparr>vc_number = Some c, vc_bytes = bs\<rparr>]\<rparr>"
          using run False idx Inr by (auto simp: load_slot_def Let_def e split: if_splits)
        moreover have "chunk_verified px k c" using okc bs by (auto simp: chunk_verified_def)
        ultimately show ?thesis using bs by (intro exI [of _ "\<lparr>vc_number = Some c, vc_bytes = bs\<rparr>"]) simp
      qed
    qed
    then obtain vc where st': "st' = st\<lparr>ix_chunks := (ix_chunks st)[?i := vc]\<rparr>"
      and vc: "vc_number vc = None \<or> vc_number vc = Some c \<and> ?Q (vc_bytes vc)" and r: "\<forall>x. r = Inr x \<longrightarrow> ?Q x"
      by blast
    show ?thesis using set [OF vc] r by (auto simp: st' intro!: exI [of _ "(ix_chunks st)[?i := vc]"] exI [of _ "ix_checksums st"])
  qed
qed

lemma load_verified_chunk_keeps:
  assumes ok: "px_ok px"
  shows "keeps (file_inv (on_more (chunks_ok px :: 'z index_state_scheme \<Rightarrow> bool)) M KP RP LP) (load_verified_chunk px k c)
    (\<lambda>bs. c < sd_checksum_count (px_section px k) \<and> bs = chunk_of px k c \<and> chunk_verified px k c)"
  unfolding load_verified_chunk_def Let_def
proof (rule runs_if, rule runs_fail, rule runs_try)
  let ?d = "px_section px k" and ?I = "file_inv (on_more (chunks_ok px :: 'z index_state_scheme \<Rightarrow> bool)) M KP RP LP"
  fix ci assume c: "\<not> sd_checksum_count ?d \<le> c" and "ok_or (checked_add (sd_checksum_start ?d) c) (bad_layout ''checksum index overflow'') = Inr ci"
  then have ci: "ci = sd_checksum_start ?d + c" by simp
  let ?e = "if px_checksum_policy px = Verify then Some (table_checksum px (sd_checksum_start ?d + c)) else None"
  have "keeps ?I (if px_checksum_policy px = Verify then obind (expected_checksum px ci) (\<lambda>c. oret (Some c)) else oret None) (\<lambda>e. e = ?e)"
    by (rule runs_if, rule runs_bind [OF expected_checksum_keeps [OF ok]]) (auto intro!: runs_lift simp: ci)
  then show "keeps ?I (obind (if px_checksum_policy px = Verify then obind (expected_checksum px ci) (\<lambda>c. oret (Some c)) else oret None) (\<lambda>expected.
      otry (ok_or (checked_mul c (chunk_width px)) (bad_layout ''chunk offset overflow'')) (\<lambda>relative.
      otry (ok_or (checked_sub (sd_len ?d) relative) (bad_layout ''chunk exceeds section'')) (\<lambda>left.
      otry (ok_or (checked_add (sd_offset ?d) relative) (bad_layout ''chunk offset overflow'')) (\<lambda>offset.
      otry (checked_usize (min left (chunk_width px)) ''persistent key-index chunk length'') (\<lambda>len.
      load_slot px k c offset len expected))))))
    (\<lambda>bs. c < sd_checksum_count ?d \<and> bs = chunk_of px k c \<and> chunk_verified px k c)"
  proof (rule runs_bind, (intro runs_try)+)
    fix expected relative left offset len assume "expected = ?e"
      and "ok_or (checked_mul c (chunk_width px)) (bad_layout ''chunk offset overflow'') = Inr relative"
      and "ok_or (checked_sub (sd_len ?d) relative) (bad_layout ''chunk exceeds section'') = Inr left"
      and "ok_or (checked_add (sd_offset ?d) relative) (bad_layout ''chunk offset overflow'') = Inr offset"
      and "checked_usize (min left (chunk_width px)) ''persistent key-index chunk length'' = Inr len"
    then show "keeps ?I (load_slot px k c offset len expected) (\<lambda>bs. c < sd_checksum_count ?d \<and> bs = chunk_of px k c \<and> chunk_verified px k c)"
      by (intro runs_conseq [OF load_slot_keeps [OF ok]]) (use c in simp_all)
  qed
qed

section \<open>Sections\<close>

text \<open>What a read of a section may return: that slice of the index file, every chunk it touches verified.\<close>

definition section_slice :: "persistent_key_index \<Rightarrow> section_kind \<Rightarrow> nat \<Rightarrow> nat \<Rightarrow> bytes \<Rightarrow> bool" where
  "section_slice px k offset len bs \<longleftrightarrow>
     offset + len \<le> sd_len (px_section px k) \<and> bs = slice offset (offset + len) (section_bytes px k) \<and>
     (\<forall>c. c * chunk_width px < offset + len \<and> offset < Suc c * chunk_width px \<and> 0 < len \<longrightarrow> chunk_verified px k c)"

definition filled :: "nat \<Rightarrow> nat \<Rightarrow> nat \<Rightarrow> bytes \<Rightarrow> nat \<Rightarrow> bytes" where
  "filled w offset stop bs i =
     (let m = max offset (min stop (i * w)) in slice offset m bs @ replicate (stop - m) 0)"

lemma px_sectionD:
  "px_ok px \<Longrightarrow> sd_offset (px_section px k) + sd_len (px_section px k) \<le> length (xs_bytes (px_source px))"
  unfolding px_ok_def by metis

lemma length_section_bytes: "px_ok px \<Longrightarrow> length (section_bytes px k) = sd_len (px_section px k)"
  using px_sectionD [of px k] by (simp add: section_bytes_def)

lemma copy_chunk_range_filled:
  assumes run: "copy_chunk_range w offset stop i (slice (i * w) (min (Suc i * w) (length bs)) bs) (filled w offset stop bs i) = Inr out"
    and le: "offset \<le> stop" "stop \<le> length bs" and i: "i * w < stop" "offset < Suc i * w"
  shows "out = filled w offset stop bs (Suc i)"
proof -
  define a b e where "a = i * w" and "b = Suc i * w" and "e = min b (length bs)"
  have ab: "a \<le> b" "a < stop" "offset < b" using i by (simp_all add: a_def b_def)
  have ends: "a + length (slice a e bs) = e" using ab le by (auto simp: e_def min_def)
  define m m' where "m = max offset a" and "m' = min stop e"
  have m: "max offset (min stop (i * w)) = m" "max offset (min stop (Suc i * w)) = m'"
    unfolding a_def [symmetric] b_def [symmetric] using ab le by (auto simp: m_def m'_def e_def)
  have le': "offset \<le> m" "m \<le> m'" "m' \<le> stop" "a \<le> m" "m' \<le> e" "e \<le> length bs"
    using ab le by (auto simp: m_def m'_def e_def)
  have "out = take (m - offset) (filled w offset stop bs i) @ slice (m - a) (m' - a) (slice a e bs) @
      drop (m' - offset) (filled w offset stop bs i)"
    using run unfolding a_def [symmetric] b_def [symmetric] e_def [symmetric]
    by (auto simp: copy_chunk_range_def and_then_Inr Let_def ends a_def [symmetric] m_def [symmetric] m'_def [symmetric]
        simp del: length_slice)
  also have "slice (m - a) (m' - a) (slice a e bs) = slice m m' bs"
    using le' by (subst slice_slice) simp_all
  also have "take (m - offset) (filled w offset stop bs i) = slice offset m bs"
    using le le' by (simp add: filled_def m Let_def)
  also have "drop (m' - offset) (filled w offset stop bs i) = replicate (stop - m') 0"
    using le le' by (simp add: filled_def m Let_def)
  finally show ?thesis
    using le' slice_append [of offset m m' bs] by (simp only: filled_def m Let_def append_assoc [symmetric])
qed

lemma copy_chunks_keeps:
  assumes ok: "px_ok px" and le: "offset \<le> stop" "stop \<le> sd_len (px_section px k)"
    and cs: "\<And>c. i \<le> c \<Longrightarrow> c < n \<Longrightarrow> c * chunk_width px < stop \<and> offset < Suc c * chunk_width px" and n: "i \<le> n"
  shows "keeps (file_inv (on_more (chunks_ok px :: 'z index_state_scheme \<Rightarrow> bool)) M KP RP LP)
    (copy_chunks px k offset stop [i..<n] (filled (chunk_width px) offset stop (section_bytes px k) i))
    (\<lambda>bs. bs = filled (chunk_width px) offset stop (section_bytes px k) n \<and> (\<forall>c. i \<le> c \<and> c < n \<longrightarrow> chunk_verified px k c))"
  using n cs
proof (induction "n - i" arbitrary: i)
  case 0
  then show ?case by (auto intro!: runs_lift)
next
  case (Suc d)
  let ?I = "file_inv (on_more (chunks_ok px :: 'z index_state_scheme \<Rightarrow> bool)) M KP RP LP"
  let ?w = "chunk_width px"
  let ?f = "filled ?w offset stop (section_bytes px k)"
  have i: "i < n" using Suc(2) by simp
  then have c: "i * ?w < stop" "offset < Suc i * ?w" using Suc.prems(2) by simp_all
  have l: "length (section_bytes px k) = sd_len (px_section px k)" by (rule length_section_bytes [OF ok])
  show ?case unfolding upt_conv_Cons [OF i] copy_chunks.simps
  proof (rule runs_bind [OF load_verified_chunk_keeps [OF ok]], rule runs_try)
    fix bs out assume bs: "i < sd_checksum_count (px_section px k) \<and> bs = chunk_of px k i \<and> chunk_verified px k i"
      and out: "copy_chunk_range ?w offset stop i bs (?f i) = Inr out"
    have "out = ?f (Suc i)"
      by (rule copy_chunk_range_filled) (use out bs le c in \<open>simp_all add: chunk_of_def l\<close>)
    moreover have "keeps ?I (copy_chunks px k offset stop [Suc i..<n] (?f (Suc i)))
        (\<lambda>bs. bs = ?f n \<and> (\<forall>c. Suc i \<le> c \<and> c < n \<longrightarrow> chunk_verified px k c))"
      by (rule Suc.hyps(1)) (use Suc.hyps(2) i Suc.prems(2) in auto)
    ultimately show "keeps ?I (copy_chunks px k offset stop [Suc i..<n] out)
        (\<lambda>bs. bs = ?f n \<and> (\<forall>c. i \<le> c \<and> c < n \<longrightarrow> chunk_verified px k c))"
      using bs by (auto elim!: runs_conseq) (metis Suc_leI le_neq_implies_less)
  qed
qed

lemma read_section_into_cached_keeps:
  assumes ok: "px_ok px"
  shows "keeps (file_inv (on_more (chunks_ok px :: 'z index_state_scheme \<Rightarrow> bool)) M KP RP LP) (read_section_into_cached px k offset len) (section_slice px k offset len)"
  unfolding read_section_into_cached_def Let_def
proof (rule runs_try, rule runs_if, rule runs_fail, rule runs_if)
  fix stop assume "ok_or (checked_add offset len) (bad_layout ''section read overflow'') = Inr stop" and "\<not> sd_len (px_section px k) < stop"
  then have stop: "stop = offset + len" "stop \<le> sd_len (px_section px k)" by simp_all
  let ?I = "file_inv (on_more (chunks_ok px :: 'z index_state_scheme \<Rightarrow> bool)) M KP RP LP" and ?w = "chunk_width px"
  have w: "0 < ?w" using ok by (simp add: px_ok_def MIN_CHUNK_BYTES_def)
  show "keeps ?I (oret (replicate len 0)) (section_slice px k offset len)" if "len = 0"
    using that stop by (auto intro!: runs_lift simp: section_slice_def)
  assume len: "len \<noteq> 0"
  let ?n = "Suc ((stop - 1) div ?w)" and ?i = "offset div ?w"
  have in_range: "?i \<le> c \<and> c < ?n \<longleftrightarrow> c * ?w < stop \<and> offset < Suc c * ?w" for c
  proof -
    have "c < ?n \<longleftrightarrow> c * ?w \<le> stop - 1" using w by (simp add: less_Suc_eq_le less_eq_div_iff_mult_less_eq)
    moreover have "?i \<le> c \<longleftrightarrow> offset < Suc c * ?w" using w div_less_iff_less_mult [of ?w offset "Suc c"] by (simp add: less_Suc_eq_le)
    moreover have "0 < stop" using len stop by simp
    ultimately show ?thesis by auto
  qed
  have start: "filled ?w offset stop (section_bytes px k) ?i = replicate len 0"
  proof -
    have "?i * ?w \<le> offset" by simp
    then have "max offset (min stop (?i * ?w)) = offset" by (simp add: max_absorb1 min.coboundedI2)
    then show ?thesis using stop by (simp add: filled_def Let_def)
  qed
  have "offset \<le> stop" using stop by simp
  moreover have "?i \<le> ?n" using stop len by (simp add: div_le_mono le_SucI)
  ultimately have copied: "keeps ?I (copy_chunks px k offset stop [?i..<?n] (filled ?w offset stop (section_bytes px k) ?i))
     (\<lambda>bs. bs = filled ?w offset stop (section_bytes px k) ?n \<and> (\<forall>c. ?i \<le> c \<and> c < ?n \<longrightarrow> chunk_verified px k c))"
    using stop in_range by (intro copy_chunks_keeps [OF ok]) auto
  have all: "filled ?w offset stop (section_bytes px k) ?n = slice offset stop (section_bytes px k)"
  proof -
    have "stop \<le> ?n * ?w" using w dividend_less_div_times [OF w, of "stop - 1"] stop len by simp
    then show ?thesis using stop by (simp add: filled_def Let_def)
  qed
  show "keeps ?I (copy_chunks px k offset stop [?i..<?n] (replicate len 0)) (section_slice px k offset len)"
  proof (rule runs_conseq [OF copied [unfolded start]])
    fix bs assume "bs = filled ?w offset stop (section_bytes px k) ?n \<and> (\<forall>c. ?i \<le> c \<and> c < ?n \<longrightarrow> chunk_verified px k c)"
    then show "section_slice px k offset len bs \<and> 0 = (0::nat)"
      using stop(2) in_range all by (simp add: section_slice_def stop(1) [symmetric])
  qed
qed

lemma read_section_runs:
  assumes ok: "px_ok px"
  shows "runs (file_inv (on_more (chunks_ok px)) M KP RP LP) length (read_section px k offset len) (section_slice px k offset len)"
  unfolding read_section_def
proof (rule runs_try, rule runs_if, rule runs_fail, rule runs_conseq)
  fix stop assume "ok_or (checked_add offset len) (bad_layout ''section read overflow'') = Inr stop" and "\<not> sd_len (px_section px k) < stop"
  then have stop: "stop = offset + len" "stop \<le> sd_len (px_section px k)" by simp_all
  show "runs (file_inv (on_more (chunks_ok px)) M KP RP LP) (\<lambda>_. 0 + len)
    (oretained len (otry (try_reserve_vec 1 0 len ''persistent key-index read result'') (\<lambda>_.
     if len = 0 then oret [] else read_section_into_cached px k offset len))) (section_slice px k offset len)"
    using stop
    by (intro runs_retained [where k = "\<lambda>_. 0"] runs_try runs_if read_section_into_cached_keeps [OF ok])
      (auto intro!: runs_lift simp: section_slice_def)
  fix bs assume "section_slice px k offset len bs"
  then show "section_slice px k offset len bs \<and> length bs = 0 + len"
    using length_section_bytes [OF ok, of k] by (auto simp: section_slice_def)
qed

end
