(* ===== verification/Index_Query.thy ===== *)
theory Index_Query
  imports Index_Cache Mdx
begin

text \<open>
  Queries through a persistent index (\<^verbatim>\<open>src/src/core/persistent/query.rs\<close>), the opening of an
  index file (\<^verbatim>\<open>cache.rs\<close>), and the methods of \<^verbatim>\<open>src/src/mdx.rs\<close> that take an index. An
  index is a cache that may be stale or forged: every query first compares the dictionary with the
  identity the index was built for, and every row that counts is checked against the source key.
\<close>

section \<open>Identity and source keys\<close>

definition validate_dictionary_identity ::
    "file_clock \<Rightarrow> mdict_file \<Rightarrow> key_index_source_identity \<Rightarrow> ('z env_state_scheme, unit) comp" where
  "validate_dictionary_identity env f identity =
     obind (current_identity env) (\<lambda>(current_len, modified).
     if fs_len (mf_source f) \<noteq> ksi_source_bytes identity \<or> current_len \<noteq> ksi_source_bytes identity
     then olift (Inl (reject (SourceLengthMismatch (ksi_source_bytes identity) current_len)))
     else if modified \<noteq> ksi_source_modified_unix_nanos identity
     then olift (Inl (reject (SourceModifiedMismatch (ksi_source_modified_unix_nanos identity) modified)))
     else if mf_len f \<noteq> ksi_key_count identity
     then olift (Inl (reject (KeyCountMismatch (ksi_key_count identity) (mf_len f))))
     else oret ())"

definition px_identity :: "persistent_key_index \<Rightarrow> key_index_source_identity" where
  "px_identity px = ih_source_identity (px_header px)"

definition verified_source_key ::
    "externals \<Rightarrow> mdict_file \<Rightarrow> persistent_key_index \<Rightarrow> nat \<Rightarrow> bytes \<Rightarrow> ('z, key_entry) iop" where
  "verified_source_key X f px ordinal expected =
     obind (on_file (key_at_ordinal X f ordinal)) (\<lambda>entry.
     otry (ok_or entry (reject (SourceKeyMismatch ordinal))) (\<lambda>entry.
     otry (normalize X (mf_normalizer f) (ke_key entry)) (\<lambda>normalized.
     if utf8 normalized \<noteq> expected then olift (Inl (reject (SourceKeyMismatch ordinal)))
     else
     oholding length (index_row_text px ordinal) (\<lambda>row.
     if row \<noteq> utf8 normalized then olift (Inl (reject (SourceKeyMismatch ordinal)))
     else
     obind (raw_digest_at px ordinal) (\<lambda>d.
     if d \<noteq> raw_digest (ke_key entry) then olift (Inl (reject (SourceKeyMismatch ordinal)))
     else oret entry)))))"

section \<open>Exact-first lookup\<close>

text \<open>The loop over the ordinals, which keeps the exact ones at the front of the same vector.\<close>

fun keep_exact ::
    "externals \<Rightarrow> mdict_file \<Rightarrow> persistent_key_index \<Rightarrow> rstring \<Rightarrow> bytes \<Rightarrow> nat list \<Rightarrow> nat list \<times> nat \<Rightarrow>
     ('z, nat list \<times> nat) iop" where
  "keep_exact X f px query normalized [] acc = oret acc"
| "keep_exact X f px query normalized (position # positions) (ordinals, exact_count) =
     obind (raw_digest_at px (ordinals ! position)) (\<lambda>d.
     if d \<noteq> raw_digest query then keep_exact X f px query normalized positions (ordinals, exact_count)
     else
     obind (verified_source_key X f px (ordinals ! position) normalized) (\<lambda>key.
     if ke_key key = query
     then keep_exact X f px query normalized positions
            (ordinals[exact_count := ordinals ! position], exact_count + 1)
     else keep_exact X f px query normalized positions (ordinals, exact_count)))"

fun verify_all ::
    "externals \<Rightarrow> mdict_file \<Rightarrow> persistent_key_index \<Rightarrow> bytes \<Rightarrow> nat list \<Rightarrow> ('z, unit) iop" where
  "verify_all X f px normalized [] = oret ()"
| "verify_all X f px normalized (ordinal # ordinals) =
     obind (verified_source_key X f px ordinal normalized) (\<lambda>_. verify_all X f px normalized ordinals)"

definition index_locate ::
    "externals \<Rightarrow> file_clock \<Rightarrow> mdict_file \<Rightarrow> persistent_key_index \<Rightarrow> rstring \<Rightarrow> ('z, located_keys option) iop" where
  "index_locate X env f px query =
     obind (validate_dictionary_identity env f (px_identity px)) (\<lambda>_.
     with_normalized X f query (\<lambda>normalized.
     obind (index_equal_range px normalized) (\<lambda>rng.
     case rng of
       None \<Rightarrow> oret None
     | Some (start, stop) \<Rightarrow>
         otry (ok_or (checked_sub stop start) (bad_layout ''order range is inverted'')) (\<lambda>count.
         otry (checked_usize count ''persistent key-index match count'') (\<lambda>match_count.
         otry (ok_or (checked_mul match_count 4) (InvalidFormat ''persistent key-index match size overflow''))
           (\<lambda>match_bytes.
         otry (ensure_usize_limit ''key_index_match_bytes'' match_bytes (locator_bytes (mf_limits f))) (\<lambda>_.
         oretained_some match_bytes (
         obind (ordinals_in px start stop) (\<lambda>ordinals.
         obind (keep_exact X f px query normalized [0..<length ordinals] (ordinals, 0)) (\<lambda>(kept, exact_count).
         if exact_count \<noteq> 0 then oret (located_from_owned RawExact (take exact_count kept) match_bytes)
         else
         obind (verify_all X f px normalized kept) (\<lambda>_.
         oret (located_from_owned HeaderNormalized kept match_bytes))))))))))))"

section \<open>Pages\<close>

fun exact_page ::
    "externals \<Rightarrow> mdict_file \<Rightarrow> persistent_key_index \<Rightarrow> rstring \<Rightarrow> bytes \<Rightarrow> nat \<Rightarrow> nat \<Rightarrow> nat list \<Rightarrow>
     nat \<times> nat list \<Rightarrow> ('z, nat \<times> nat list) iop" where
  "exact_page X f px query normalized off limit [] acc = oret acc"
| "exact_page X f px query normalized off limit (position # positions) (exact_count, ordinals) =
     obind (order_at px position) (\<lambda>ordinal.
     obind (raw_digest_at px ordinal) (\<lambda>d.
     if d \<noteq> raw_digest query
     then exact_page X f px query normalized off limit positions (exact_count, ordinals)
     else
     obind (verified_source_key X f px ordinal normalized) (\<lambda>key.
     if ke_key key = query then
       otry (ok_or (checked_add exact_count 1) (InvalidFormat ''raw-exact match count overflow'')) (\<lambda>count.
       exact_page X f px query normalized off limit positions
         (count, if off \<le> exact_count \<and> length ordinals < limit then ordinals @ [ordinal] else ordinals))
     else exact_page X f px query normalized off limit positions (exact_count, ordinals))))"

fun normalized_page ::
    "externals \<Rightarrow> mdict_file \<Rightarrow> persistent_key_index \<Rightarrow> bytes \<Rightarrow> nat \<Rightarrow> nat \<Rightarrow> nat list \<Rightarrow> nat \<Rightarrow> nat list \<Rightarrow>
     ('z, nat list) iop" where
  "normalized_page X f px normalized off limit [] match_index ordinals = oret ordinals"
| "normalized_page X f px normalized off limit (position # positions) match_index ordinals =
     obind (order_at px position) (\<lambda>ordinal.
     obind (verified_source_key X f px ordinal normalized) (\<lambda>_.
     normalized_page X f px normalized off limit positions (match_index + 1)
       (if off \<le> match_index \<and> length ordinals < limit then ordinals @ [ordinal] else ordinals)))"

definition index_locate_page ::
    "externals \<Rightarrow> file_clock \<Rightarrow> mdict_file \<Rightarrow> persistent_key_index \<Rightarrow> rstring \<Rightarrow> nat \<Rightarrow> nat \<Rightarrow>
     ('z, located_key_page option) iop" where
  "index_locate_page X env f px query off limit =
     obind (validate_dictionary_identity env f (px_identity px)) (\<lambda>_.
     with_normalized X f query (\<lambda>normalized.
     obind (index_equal_range px normalized) (\<lambda>rng.
     case rng of
       None \<Rightarrow> oret None
     | Some (start, stop) \<Rightarrow>
         otry (ok_or (checked_sub stop start) (bad_layout ''order range is inverted'')) (\<lambda>count.
         otry (checked_usize count ''persistent key-index match count'') (\<lambda>full.
         otry (ok_or (checked_mul (min limit (full - off)) 4) (InvalidFormat ''persistent key-index page size overflow''))
           (\<lambda>page_bytes.
         otry (ensure_usize_limit ''key_match_page_bytes'' page_bytes (locator_bytes (mf_limits f))) (\<lambda>_.
         oretained page_bytes (
         otry (try_reserve_vec 4 0 (min limit (full - off)) ''persistent key-index match page'') (\<lambda>_.
         obind (exact_page X f px query normalized off limit [start..<stop] (0, [])) (\<lambda>(exact_count, ordinals).
         if exact_count \<noteq> 0
         then oret (Some \<lparr>lkp_basis = RawExact, lkp_total = exact_count, lkp_ordinals = ordinals,
                          lkp_memory = page_bytes\<rparr>)
         else
         obind (normalized_page X f px normalized off limit [start..<stop] 0 []) (\<lambda>ordinals.
         oret (Some \<lparr>lkp_basis = HeaderNormalized, lkp_total = full, lkp_ordinals = ordinals,
                     lkp_memory = page_bytes\<rparr>))))))))))))"

section \<open>Case variants\<close>

definition index_case_variants ::
    "externals \<Rightarrow> file_clock \<Rightarrow> mdict_file \<Rightarrow> persistent_key_index \<Rightarrow> rstring \<Rightarrow> nat \<Rightarrow> nat \<Rightarrow>
     ('z, located_key_page option) iop" where
  "index_case_variants X env f px query off limit =
     obind (validate_dictionary_identity env f (px_identity px)) (\<lambda>_.
     with_normalized X f query (\<lambda>normalized.
     obind (index_equal_range px normalized) (\<lambda>rng.
     case rng of
       None \<Rightarrow> oret None
     | Some (start, stop) \<Rightarrow>
         otry (ok_or (checked_sub stop start) (bad_layout ''order range is inverted'')) (\<lambda>count.
         otry (checked_usize count ''persistent case-variant count'') (\<lambda>count.
         select_page X f query count off limit (\<lambda>position.
           obind (order_at px (start + position)) (\<lambda>ordinal.
           obind (verified_source_key X f px ordinal normalized) (\<lambda>key.
           oret (ordinal, key)))))))))"

section \<open>Prefixes and scans\<close>

text \<open>The text of the row is owned while its source key is checked.\<close>

fun prefix_from ::
    "externals \<Rightarrow> mdict_file \<Rightarrow> persistent_key_index \<Rightarrow> bytes \<Rightarrow> nat \<Rightarrow> nat list \<Rightarrow> key_entry list \<Rightarrow>
     ('z, key_entry list) iop" where
  "prefix_from X f px normalized limit [] found = oret found"
| "prefix_from X f px normalized limit (position # positions) found =
     (if limit \<le> length found then oret found
      else
      obind (order_at px position) (\<lambda>ordinal.
      obind (oholding length (index_row_text px ordinal) (\<lambda>row.
               if \<not> starts_with normalized row then oret None
               else
               obind (verified_source_key X f px ordinal row) (\<lambda>key.
               otry (try_reserve_vec 32 (length found) 1 ''persistent prefix matches'') (\<lambda>_.
               oret (Some key))))) (\<lambda>key.
      case key of
        None \<Rightarrow> oret found
      | Some key \<Rightarrow> prefix_from X f px normalized limit positions (found @ [key]))))"

definition index_prefix ::
    "externals \<Rightarrow> file_clock \<Rightarrow> mdict_file \<Rightarrow> persistent_key_index \<Rightarrow> rstring \<Rightarrow> nat \<Rightarrow> ('z, key_entry list) iop" where
  "index_prefix X env f px prefix limit =
     (if limit = 0 then oret []
      else
      obind (validate_dictionary_identity env f (px_identity px)) (\<lambda>_.
      with_normalized X f prefix (\<lambda>normalized.
      obind (lower_bound px normalized False) (\<lambda>position.
      prefix_from X f px normalized limit [position..<px_len px] []))))"

text \<open>\<open>visit\<close> may change whatever state it shares with the caller; \<open>True\<close> stops the scan.\<close>

fun scan_from ::
    "externals \<Rightarrow> mdict_file \<Rightarrow> persistent_key_index \<Rightarrow> (nat \<Rightarrow> bytes \<Rightarrow> ('z, bool) iop) \<Rightarrow> nat list \<Rightarrow>
     ('z, unit) iop" where
  "scan_from X f px visit [] = oret ()"
| "scan_from X f px visit (row # rows) =
     (if u32_max < row then olift (Inl (bad_layout ''key count exceeds ordinal representation''))
      else
      obind (oholding length (index_row_text px row) (\<lambda>txt.
               obind (verified_source_key X f px row txt) (\<lambda>_. visit row txt))) (\<lambda>stop.
      if stop then oret () else scan_from X f px visit rows))"

definition index_scan ::
    "externals \<Rightarrow> file_clock \<Rightarrow> mdict_file \<Rightarrow> persistent_key_index \<Rightarrow> (nat \<Rightarrow> bytes \<Rightarrow> ('z, bool) iop) \<Rightarrow>
     ('z, unit) iop" where
  "index_scan X env f px visit =
     obind (validate_dictionary_identity env f (px_identity px)) (\<lambda>_. scan_from X f px visit [0..<px_len px])"

section \<open>Opening an index\<close>

text \<open>\<open>IndexSource::new\<close>, given what the opened file holds.\<close>

definition index_source_new :: "bytes \<Rightarrow> index_source" where
  "index_source_new content = \<lparr>xs_len = length content, xs_bytes = content\<rparr>"

definition cache_bytes_for :: "index_header \<Rightarrow> key_index_options \<Rightarrow> nat result" where
  "cache_bytes_for header opts =
     and_then (checked_usize (ih_chunk_bytes header) ''persistent key-index chunk cache'') (\<lambda>chunk_bytes.
     and_then (ok_or (checked_mul chunk_bytes SECTION_COUNT)
       (InvalidFormat ''persistent key-index chunk cache size overflow'')) (\<lambda>chunk_cache_bytes.
     and_then (ok_or (checked_mul (ih_checksum_count header) 4) (InvalidFormat ''persistent checksum table overflow''))
       (\<lambda>checksum_table_bytes.
     and_then (checked_usize
       (if kio_checksum_policy opts = Verify then min checksum_table_bytes CHECKSUM_PAGE_BYTES else 0)
       ''persistent checksum cache'') (\<lambda>checksum_cache_bytes.
     and_then (ok_or (checked_add chunk_cache_bytes checksum_cache_bytes)
       (InvalidFormat ''persistent key-index cache size overflow'')) (\<lambda>cache_bytes.
     Inr cache_bytes)))))"

text \<open>The index and its empty caches; the reservation of the caches is kept.\<close>

definition open_index_file ::
    "file_clock \<Rightarrow> bytes \<Rightarrow> mdict_file \<Rightarrow> key_index_source_identity \<Rightarrow> key_index_options \<Rightarrow>
     ('z env_state_scheme, persistent_key_index \<times> verified_chunk list \<times> verified_chunk) comp" where
  "open_index_file env content f expected opts =
     otry (validate_options opts) (\<lambda>_.
     let src = index_source_new content in
     otry (ensure_u64_ceiling ''key_index_bytes'' (xs_len src) (kio_max_index_bytes opts)) (\<lambda>_.
     obind (omem (read_index_header src opts (kio_checksum_policy opts))) (\<lambda>header.
     if ih_source_identity header \<noteq> expected then olift (Inl (reject SourceIdentityMismatch))
     else
     obind (validate_dictionary_identity env f expected) (\<lambda>_.
     otry (validate_section_layout src header) (\<lambda>_.
     otry (cache_bytes_for header opts) (\<lambda>cache_bytes.
     oretained cache_bytes (
     otry (try_reserve_vec 1 0 (ih_chunk_bytes header) ''persistent key-index chunk cache'') (\<lambda>_.
     otry (try_reserve_vec 1 0
       (if kio_checksum_policy opts = Verify then min (ih_checksum_count header * 4) CHECKSUM_PAGE_BYTES else 0)
       ''persistent key-index checksum cache'') (\<lambda>_.
     oret (\<lparr>px_source = src, px_header = header,
            px_max_row_bytes = decompressed_block_bytes (mf_limits f),
            px_checksum_policy = kio_checksum_policy opts\<rparr>,
           replicate SECTION_COUNT verified_chunk_new, verified_chunk_new))))))))))"

section \<open>The facade\<close>

text \<open>\<open>locate_with_key_index_and_mode\<close> and \<open>locate_page_with_key_index_and_mode\<close>: case variants
  first, when the mode asks for them and the dictionary folds case.\<close>

definition locate_with_key_index_and_mode ::
    "externals \<Rightarrow> file_clock \<Rightarrow> mdict_file \<Rightarrow> persistent_key_index \<Rightarrow> rstring \<Rightarrow> match_mode \<Rightarrow>
     ('z, located_keys option) iop" where
  "locate_with_key_index_and_mode X env f px query mode =
     (if includes_case_variants f mode then
        obind (index_case_variants X env f px query 0 usize_max) (\<lambda>page.
        case page of
          Some p \<Rightarrow> page_into_matches p
        | None \<Rightarrow> index_locate X env f px query)
      else index_locate X env f px query)"

definition locate_page_with_key_index_and_mode ::
    "externals \<Rightarrow> file_clock \<Rightarrow> mdict_file \<Rightarrow> persistent_key_index \<Rightarrow> rstring \<Rightarrow> nat \<Rightarrow> nat \<Rightarrow> match_mode \<Rightarrow>
     ('z, located_key_page option) iop" where
  "locate_page_with_key_index_and_mode X env f px query off limit mode =
     (if includes_case_variants f mode then
        obind (index_case_variants X env f px query off limit) (\<lambda>page.
        case page of
          Some p \<Rightarrow> oret (Some p)
        | None \<Rightarrow> index_locate_page X env f px query off limit)
      else index_locate_page X env f px query off limit)"

end
