(* ===== verification/Index_Answers.thy ===== *)
theory Index_Answers
  imports Index_Reads Index_Query
begin

text \<open>
  What queries through a persistent index answer. \<open>ix_order\<close>, \<open>ix_row\<close> and \<open>ix_digest\<close>
  are the rows as the index file encodes them. Whatever the file holds, the answer of a query is made
  of rows that were compared with the source keys (\<open>row_verified\<close>); when the file describes the keys
  of the dictionary (\<open>index_describes\<close>), it is the answer of the in-memory locator.
\<close>

section \<open>The rows an index file encodes\<close>

definition ix_bound :: "persistent_key_index \<Rightarrow> nat \<Rightarrow> nat" where
  "ix_bound px i = nat_from_le (slice (i * 8) (i * 8 + 8) (section_bytes px SecBounds))"

definition ix_order :: "persistent_key_index \<Rightarrow> nat \<Rightarrow> nat" where
  "ix_order px p = nat_from_le (slice (p * 4) (p * 4 + 4) (section_bytes px SecOrder))"

definition ix_digest :: "persistent_key_index \<Rightarrow> nat \<Rightarrow> u32" where
  "ix_digest px n = u32_from_le (slice (n * 4) (n * 4 + 4) (section_bytes px SecRaw))"

definition ix_row :: "persistent_key_index \<Rightarrow> nat \<Rightarrow> bytes" where
  "ix_row px n = slice (ix_bound px n) (ix_bound px (Suc n)) (section_bytes px SecText)"

definition ix_ordered :: "persistent_key_index \<Rightarrow> nat list" where
  "ix_ordered px = map (ix_order px) [0..<px_len px]"

lemma length_ix_ordered [simp]: "length (ix_ordered px) = px_len px"
  by (simp add: ix_ordered_def)

lemma ix_ordered_slice: "b \<le> px_len px \<Longrightarrow> slice a b (ix_ordered px) = map (ix_order px) [a..<b]"
  by (cases "a \<le> b") (simp_all add: ix_ordered_def slice_def take_map drop_map)

lemma bound_at_keeps:
  assumes ok: "px_ok px"
  shows "keeps (file_inv (on_more (chunks_ok px)) M KP RP LP) (bound_at px i) (\<lambda>b. b = ix_bound px i)"
  unfolding bound_at_def
  by (intro runs_if runs_fail runs_try runs_bind [OF read_section_into_cached_keeps [OF ok]] runs_lift)
    (auto simp: section_slice_def ix_bound_def)

lemma order_at_keeps:
  assumes ok: "px_ok px"
  shows "keeps (file_inv (on_more (chunks_ok px)) M KP RP LP) (order_at px p) (\<lambda>n. p < px_len px \<and> n = ix_order px p)"
  unfolding order_at_def
  by (intro runs_if runs_fail runs_try runs_bind [OF read_section_into_cached_keeps [OF ok]] runs_lift)
    (auto simp: section_slice_def ix_order_def)

lemma raw_digest_at_keeps:
  assumes ok: "px_ok px"
  shows "keeps (file_inv (on_more (chunks_ok px)) M KP RP LP) (raw_digest_at px n) (\<lambda>d. n < px_len px \<and> d = ix_digest px n)"
  unfolding raw_digest_at_def
  by (intro runs_if runs_fail runs_try runs_bind [OF read_section_into_cached_keeps [OF ok]] runs_lift)
    (auto simp: section_slice_def ix_digest_def)

lemma index_row_text_runs:
  assumes ok: "px_ok px"
  shows "runs (file_inv (on_more (chunks_ok px)) M KP RP LP) length (index_row_text px n)
    (\<lambda>t. n < px_len px \<and> t = ix_row px n \<and> from_utf8 t \<noteq> None)"
  unfolding index_row_text_def
  apply (rule runs_if, rule runs_fail, rule runs_bind [OF bound_at_keeps [OF ok]],
      rule runs_bind [OF bound_at_keeps [OF ok]], rule runs_try, rule runs_if, rule runs_fail, rule runs_try, rule runs_try)
  apply (rule runs_checked [OF read_section_runs [OF ok]])
  apply (auto simp: section_slice_def ix_row_def split: if_splits)
  done

section \<open>Rows compared with the source\<close>

definition row_verified ::
    "externals \<Rightarrow> mdict_file \<Rightarrow> persistent_key_index \<Rightarrow> rstring list \<Rightarrow> bytes \<Rightarrow> nat \<Rightarrow> bool" where
  "row_verified X f px keys q n \<longleftrightarrow> n < length keys \<and> n < px_len px \<and>
     utf8 (normal_form X (mf_normalizer f) (keys ! n)) = q \<and> ix_row px n = q \<and> ix_digest px n = raw_digest (keys ! n)"

lemma current_identity_keeps:
  "keeps (file_inv (on_more (chunks_ok px)) M KP RP LP) (current_identity env) (\<lambda>i. \<exists>t. env t = Inr i)"
  by (rule runsI)
    (auto simp: current_identity_def file_inv_def state_bytes_def chunks_ok_def split: sum.splits)

lemma validate_identity_keeps:
  "keeps (file_inv (on_more (chunks_ok px)) M KP RP LP) (validate_dictionary_identity env f i)
     (\<lambda>_. fs_len (mf_source f) = ksi_source_bytes i \<and> mf_len f = ksi_key_count i \<and>
        (\<exists>t. env t = Inr (ksi_source_bytes i, ksi_source_modified_unix_nanos i)))"
  unfolding validate_dictionary_identity_def
  by (rule runs_bind [OF current_identity_keeps]) (auto intro!: runs_if runs_fail runs_lift split: prod.splits)

lemma verified_source_key_keeps:
  assumes ok: "file_ok X f" and ks: "file_keys X f keys" and px: "px_ok px"
  shows "keeps (index_inv px X f RP LP) (verified_source_key X f px n q)
    (\<lambda>key. row_verified X f px keys q n \<and> ke_ordinal key = n \<and> ke_key key = keys ! n)"
  unfolding verified_source_key_def
  apply (rule runs_bind [OF on_file_keeps [OF key_at_ordinal_keeps [OF ok]]], rule runs_try, rule runs_try,
      rule runs_if, rule runs_fail, rule runs_holding [OF index_row_text_runs [OF px]], rule runs_if, rule runs_fail,
      rule runs_bind [OF raw_digest_at_keeps [OF px]], rule runs_if, rule runs_fail, rule runs_lift)
  subgoal premises p for entry e normalized row d key
  proof -
    have e: "entry = Some e" using p(2) by (cases entry) simp_all
    then obtain r where n: "n < mf_len f" and r: "key_row_at X f n r" "ke_key e = row_key r" "ke_ordinal e = n"
      using p(1) by (auto simp: key_answer_def)
    have "n < length keys" using ks n by (simp add: file_keys_def)
    then have "ke_key e = keys ! n" using file_keys_nth [OF ks] key_row_at_unique [OF ok r(1)] r(2) by metis
    then show ?thesis using p r(3) \<open>n < length keys\<close> by (auto simp: row_verified_def normalize_Inr)
  qed
  done

section \<open>Searching the order\<close>

text \<open>Bisection finds the partition point of a list whose elements satisfying \<open>p\<close> come first.\<close>

lemma partition_point_nth:
  assumes m: "m < length xs" and first: "\<And>i j. i \<le> j \<Longrightarrow> j < length xs \<Longrightarrow> p (xs ! j) \<Longrightarrow> p (xs ! i)"
  shows "p (xs ! m) \<longleftrightarrow> m < partition_point p xs"
proof
  assume pm: "p (xs ! m)"
  show "m < partition_point p xs"
  proof (rule ccontr)
    let ?n = "length (takeWhile p xs)"
    assume "\<not> m < partition_point p xs"
    then have n: "?n \<le> m" by (simp add: partition_point_def)
    then have "\<not> p (xs ! ?n)" using m by (intro nth_length_takeWhile) simp
    then show False using first [OF n m pm] by simp
  qed
next
  assume "m < partition_point p xs"
  then have "xs ! m \<in> set (takeWhile p xs)"
    using nth_mem takeWhile_nth unfolding partition_point_def by metis
  then show "p (xs ! m)" by (auto dest: set_takeWhileD)
qed

text \<open>The predicate of a bisection: rows below the query, or up to it.\<close>

definition below :: "persistent_key_index \<Rightarrow> bytes \<Rightarrow> bool \<Rightarrow> nat \<Rightarrow> bool" where
  "below px q inclusive r \<longleftrightarrow> (if inclusive then ix_row px r \<le> q else ix_row px r < q)"

definition texts_sorted :: "persistent_key_index \<Rightarrow> bool" where
  "texts_sorted px \<longleftrightarrow> sorted (map (ix_row px) (ix_ordered px))"

lemma below_first:
  assumes "texts_sorted px" and "i \<le> j" and "j < px_len px" and "below px q inc (ix_ordered px ! j)"
  shows "below px q inc (ix_ordered px ! i)"
proof -
  have "ix_row px (ix_ordered px ! i) \<le> ix_row px (ix_ordered px ! j)"
    using sorted_nth_mono [OF assms(1) [unfolded texts_sorted_def] assms(2)] assms(2,3) by simp
  then show ?thesis using assms(4) by (auto simp: below_def split: if_splits)
qed

lemma goes_left_keeps:
  assumes ok: "px_ok px"
  shows "keeps (file_inv (on_more (chunks_ok px)) M KP RP LP) (goes_left px q inc m)
    (\<lambda>b. m < px_len px \<and> b = (\<not> below px q inc (ix_ordered px ! m)))"
  unfolding goes_left_def
  by (rule runs_bind [OF order_at_keeps [OF ok]], rule runs_inspect [OF index_row_text_runs [OF ok]])
    (auto simp: below_def ix_ordered_def)

lemma lower_bound_between_step:
  "lower_bound_between px q inc left right =
     (if right \<le> left then oret left
      else
      obind (goes_left px q inc (left + (right - left) div 2)) (\<lambda>b.
      if b then lower_bound_between px q inc left (left + (right - left) div 2)
      else lower_bound_between px q inc (left + (right - left) div 2 + 1) right))"
  by (rule ext, subst lower_bound_between.simps)
    (auto simp: obind_def olift_def Let_def split: prod.splits sum.splits bool.splits)

lemma lower_bound_between_keeps:
  assumes ok: "px_ok px"
  shows "left \<le> right \<Longrightarrow> right \<le> px_len px \<Longrightarrow>
    keeps (file_inv (on_more (chunks_ok px :: 'z index_state_scheme \<Rightarrow> bool)) M KP RP LP) (lower_bound_between px q inc left right)
    (\<lambda>n. n \<le> px_len px \<and> (texts_sorted px \<and> left \<le> partition_point (below px q inc) (ix_ordered px) \<and>
       partition_point (below px q inc) (ix_ordered px) \<le> right \<longrightarrow> n = partition_point (below px q inc) (ix_ordered px)))"
proof (induction "right - left" arbitrary: left right rule: less_induct)
  case less
  let ?m = "left + (right - left) div 2" and ?pp = "partition_point (below px q inc) (ix_ordered px)"
  show ?case
    unfolding lower_bound_between_step [of px q inc left right]
  proof (rule runs_if)
    assume "right \<le> left"
    then show "keeps (file_inv (on_more (chunks_ok px :: 'z index_state_scheme \<Rightarrow> bool)) M KP RP LP) (oret left)
      (\<lambda>n. n \<le> px_len px \<and> (texts_sorted px \<and> left \<le> ?pp \<and> ?pp \<le> right \<longrightarrow> n = ?pp))"
      using less.prems by (auto intro!: runs_lift)
  next
    assume lr: "\<not> right \<le> left"
    then have m: "left \<le> ?m" "?m < right" "?m < px_len px" using less.prems by auto
    have pp: "below px q inc (ix_ordered px ! ?m) \<longleftrightarrow> ?m < ?pp" if "texts_sorted px"
      by (rule partition_point_nth) (use m below_first [OF that] in auto)
    show "keeps (file_inv (on_more (chunks_ok px :: 'z index_state_scheme \<Rightarrow> bool)) M KP RP LP)
      (obind (goes_left px q inc ?m) (\<lambda>b.
       if b then lower_bound_between px q inc left ?m else lower_bound_between px q inc (?m + 1) right))
      (\<lambda>n. n \<le> px_len px \<and> (texts_sorted px \<and> left \<le> ?pp \<and> ?pp \<le> right \<longrightarrow> n = ?pp))"
    proof (rule runs_bind [OF goes_left_keeps [OF ok]], rule runs_if)
      fix b assume b: "?m < px_len px \<and> b = (\<not> below px q inc (ix_ordered px ! ?m))" "b"
      show "keeps (file_inv (on_more (chunks_ok px :: 'z index_state_scheme \<Rightarrow> bool)) M KP RP LP) (lower_bound_between px q inc left ?m)
        (\<lambda>n. n \<le> px_len px \<and> (texts_sorted px \<and> left \<le> ?pp \<and> ?pp \<le> right \<longrightarrow> n = ?pp))"
        by (rule runs_conseq [OF less.hyps]) (use m b pp less.prems in auto)
    next
      fix b assume b: "?m < px_len px \<and> b = (\<not> below px q inc (ix_ordered px ! ?m))" "\<not> b"
      show "keeps (file_inv (on_more (chunks_ok px :: 'z index_state_scheme \<Rightarrow> bool)) M KP RP LP) (lower_bound_between px q inc (?m + 1) right)
        (\<lambda>n. n \<le> px_len px \<and> (texts_sorted px \<and> left \<le> ?pp \<and> ?pp \<le> right \<longrightarrow> n = ?pp))"
        by (rule runs_conseq [OF less.hyps]) (use m b pp less.prems in auto)
    qed
  qed
qed

lemma partition_point_le: "partition_point p xs \<le> length xs"
  by (simp add: partition_point_def length_takeWhile_le)

lemma lower_bound_keeps:
  assumes ok: "px_ok px"
  shows "keeps (file_inv (on_more (chunks_ok px)) M KP RP LP) (lower_bound px q inc)
    (\<lambda>n. n \<le> px_len px \<and> (texts_sorted px \<longrightarrow> n = partition_point (below px q inc) (ix_ordered px)))"
  unfolding lower_bound_def
  by (rule runs_conseq [OF lower_bound_between_keeps [OF ok]])
    (use partition_point_le [of "below px q inc" "ix_ordered px"] in auto)

lemma below_simps [simp]:
  "below px q False = (\<lambda>r. ix_row px r < q)" "below px q True = (\<lambda>r. ix_row px r \<le> q)"
  by (auto simp: below_def)

text \<open>What a range search may answer, whatever is in the file.\<close>

definition range_found :: "persistent_key_index \<Rightarrow> bytes \<Rightarrow> (nat \<times> nat) option \<Rightarrow> bool" where
  "range_found px q rng \<longleftrightarrow>
     (case rng of None \<Rightarrow> True | Some (a, b) \<Rightarrow> a < b \<and> b \<le> px_len px) \<and>
     (texts_sorted px \<longrightarrow> rng = range_of (ix_row px) (ix_ordered px) q)"

lemma index_equal_range_keeps:
  assumes ok: "px_ok px"
  shows "keeps (file_inv (on_more (chunks_ok px)) M KP RP LP) (index_equal_range px q) (range_found px q)"
  unfolding index_equal_range_def
  by (rule runs_bind [OF lower_bound_keeps [OF ok]], rule runs_bind [OF lower_bound_keeps [OF ok]], rule runs_lift)
    (auto simp: range_found_def range_of_def Let_def)

lemma order_positions_keeps:
  assumes ok: "px_ok px"
  shows "keeps (file_inv (on_more (chunks_ok px)) M KP RP LP) (order_positions px ps) (\<lambda>rs. rs = map (ix_order px) ps)"
proof (induction ps)
  case (Cons p ps)
  show ?case unfolding order_positions.simps
    by (rule runs_bind [OF order_at_keeps [OF ok]], rule runs_bind [OF Cons.IH]) (auto intro!: runs_lift)
qed (auto intro!: runs_lift)

lemma ordinals_in_keeps:
  assumes ok: "px_ok px"
  shows "keeps (file_inv (on_more (chunks_ok px)) M KP RP LP) (ordinals_in px a b) (\<lambda>rs. rs = map (ix_order px) [a..<b])"
  unfolding ordinals_in_def by (intro runs_try order_positions_keeps [OF ok])

section \<open>An index of the keys of the dictionary\<close>

definition index_sorted :: "persistent_key_index \<Rightarrow> bool" where
  "index_sorted px \<longleftrightarrow> sorted (map (\<lambda>r. (ix_row px r, r)) (ix_ordered px)) \<and> mset (ix_ordered px) = mset [0..<px_len px]"

interpretation persistent: ordered_index index_sorted px_len ix_row ix_ordered
  by unfold_locales (auto simp: index_sorted_def)

definition index_describes :: "externals \<Rightarrow> mdict_file \<Rightarrow> persistent_key_index \<Rightarrow> rstring list \<Rightarrow> bool" where
  "index_describes X f px keys \<longleftrightarrow> index_sorted px \<and> px_len px = length keys \<and>
     (\<forall>n < length keys. ix_row px n = utf8 (normal_form X (mf_normalizer f) (keys ! n)) \<and>
        ix_digest px n = raw_digest (keys ! n))"

lemma described_sorted: "index_describes X f px keys \<Longrightarrow> texts_sorted px"
  unfolding texts_sorted_def index_describes_def by (rule persistent.texts_sorted) simp

lemma normal_form_utf8:
  assumes ok: "file_ok X f" and ks: "file_keys X f keys" and q: "well_formed query" and n: "n < length keys"
  shows "utf8 (normal_form X (mf_normalizer f) (keys ! n)) = utf8 (normal_form X (mf_normalizer f) query) \<longleftrightarrow>
    normal_form X (mf_normalizer f) (keys ! n) = normal_form X (mf_normalizer f) query"
proof -
  have X: "externals_ok X" using ok by (simp add: file_ok_def)
  show ?thesis using utf8_inject normal_form_well_formed [OF X] q file_keys_well_formed [OF ok ks n] by simp
qed

lemma described_rows:
  assumes ok: "file_ok X f" and ks: "file_keys X f keys" and q: "well_formed query" and d: "index_describes X f px keys"
  shows "filter (\<lambda>n. ix_row px n = utf8 (normal_form X (mf_normalizer f) query)) [0..<px_len px] =
    normalized_ordinals X (mf_normalizer f) keys query"
  unfolding normalized_ordinals_def using d normal_form_utf8 [OF ok ks q] by (auto simp: index_describes_def intro!: filter_cong)

lemma described_range:
  assumes ok: "file_ok X f" and ks: "file_keys X f keys" and q: "well_formed query" and d: "index_describes X f px keys"
    and r: "range_found px (utf8 (normal_form X (mf_normalizer f) query)) rng"
  shows "rng = None \<Longrightarrow> normalized_ordinals X (mf_normalizer f) keys query = []"
    and "rng = Some (a, b) \<Longrightarrow> map (ix_order px) [a..<b] = normalized_ordinals X (mf_normalizer f) keys query"
proof -
  let ?q = "utf8 (normal_form X (mf_normalizer f) query)"
  have s: "index_sorted px" using d by (simp add: index_describes_def)
  have eq: "rng = range_of (ix_row px) (ix_ordered px) ?q" using r described_sorted [OF d] by (simp add: range_found_def)
  show "normalized_ordinals X (mf_normalizer f) keys query = []" if "rng = None"
    using persistent.range_of_None [OF s, of ?q] eq that unfolding described_rows [OF ok ks q d, symmetric]
    by (auto simp: filter_empty_conv)
  show "map (ix_order px) [a..<b] = normalized_ordinals X (mf_normalizer f) keys query" if n: "rng = Some (a, b)"
    using persistent.range_of_Some [OF s eq [unfolded n, symmetric]] ix_ordered_slice [of b px a]
    unfolding described_rows [OF ok ks q d, symmetric] by simp
qed

section \<open>The answers\<close>

text \<open>Every row of an answer matches the query, by its key in the dictionary.\<close>

definition answer_sound ::
    "externals \<Rightarrow> key_normalizer \<Rightarrow> rstring list \<Rightarrow> rstring \<Rightarrow> (locator_basis \<times> nat list) option \<Rightarrow> bool" where
  "answer_sound X nrm keys query r \<longleftrightarrow>
     (case r of None \<Rightarrow> True
      | Some (basis, ns) \<Rightarrow> ns \<noteq> [] \<and> (\<forall>n \<in> set ns. n < length keys) \<and>
          (basis = RawExact \<and> (\<forall>n \<in> set ns. keys ! n = query) \<or>
           basis = HeaderNormalized \<and> (\<forall>n \<in> set ns. normal_form X nrm (keys ! n) = normal_form X nrm query)))"

definition index_answer ::
    "externals \<Rightarrow> mdict_file \<Rightarrow> persistent_key_index \<Rightarrow> rstring list \<Rightarrow> rstring \<Rightarrow> (locator_basis \<times> nat list) option \<Rightarrow> bool" where
  "index_answer X f px keys query r \<longleftrightarrow> answer_sound X (mf_normalizer f) keys query r \<and>
     (index_describes X f px keys \<longrightarrow> r = reference_lookup X (mf_normalizer f) keys query)"

definition exact_row :: "persistent_key_index \<Rightarrow> rstring list \<Rightarrow> rstring \<Rightarrow> nat \<Rightarrow> bool" where
  "exact_row px keys query n \<longleftrightarrow> ix_digest px n = raw_digest query \<and> keys ! n = query"

lemma described_exact:
  assumes d: "index_describes X f px keys"
  shows "filter (exact_row px keys query) (normalized_ordinals X nrm keys query) = exact_ordinals keys query"
  unfolding exact_of_normalized [symmetric, of keys query X nrm]
  by (rule filter_cong) (use d in \<open>auto simp: exact_row_def index_describes_def normalized_ordinals_def\<close>)

lemma index_answer_None:
  assumes ok: "file_ok X f" and ks: "file_keys X f keys" and q: "well_formed query"
    and r: "range_found px (utf8 (normal_form X (mf_normalizer f) query)) None"
  shows "index_answer X f px keys query None"
  using described_range(1) [OF ok ks q _ r] by (auto simp: index_answer_def answer_sound_def reference_lookup_def)

lemma index_answer_Some:
  assumes ok: "file_ok X f" and ks: "file_keys X f keys" and q: "well_formed query"
    and r: "range_found px (utf8 (normal_form X (mf_normalizer f) query)) (Some (a, b))"
    and os: "os = map (ix_order px) [a..<b]" and es: "es = filter (exact_row px keys query) os"
  shows index_answer_exact: "es \<noteq> [] \<Longrightarrow> (\<And>n. n \<in> set es \<Longrightarrow> row_verified X f px keys q' n) \<Longrightarrow>
      index_answer X f px keys query (Some (RawExact, es))"
    and index_answer_normalized: "es = [] \<Longrightarrow>
      (\<And>n. n \<in> set os \<Longrightarrow> row_verified X f px keys (utf8 (normal_form X (mf_normalizer f) query)) n) \<Longrightarrow>
      index_answer X f px keys query (Some (HeaderNormalized, os))"
proof -
  have ab: "os \<noteq> []" using r by (auto simp: range_found_def os)
  have d: "os = normalized_ordinals X (mf_normalizer f) keys query" "es = exact_ordinals keys query"
    if "index_describes X f px keys"
    using described_range(2) [OF ok ks q that r refl] described_exact [OF that] by (simp_all add: os es)
  show "index_answer X f px keys query (Some (RawExact, es))"
    if "es \<noteq> []" and "\<And>n. n \<in> set es \<Longrightarrow> row_verified X f px keys q' n"
  proof -
    have "keys ! n = query" "n < length keys" if "n \<in> set es" for n
      using that \<open>\<And>n. n \<in> set es \<Longrightarrow> row_verified X f px keys q' n\<close> by (auto simp: es exact_row_def row_verified_def)
    then show ?thesis using that(1) ab d by (auto simp: index_answer_def answer_sound_def reference_lookup_def)
  qed
  show "index_answer X f px keys query (Some (HeaderNormalized, os))"
    if "es = []" and "\<And>n. n \<in> set os \<Longrightarrow> row_verified X f px keys (utf8 (normal_form X (mf_normalizer f) query)) n"
    using that ab d normal_form_utf8 [OF ok ks q]
    by (auto simp: index_answer_def answer_sound_def reference_lookup_def row_verified_def)
qed

end
