(* ===== verification/Index_Opening.thy ===== *)
theory Index_Opening
  imports Index_Answers
begin

text \<open>
  Opening an index file: whatever bytes the file holds, an index that opens satisfies \<open>px_ok\<close> and starts
  with caches that satisfy \<open>chunks_ok\<close>, and it is bound to the identity the caller expects and to the
  dictionary as it is now.
\<close>

lemma hc_descriptors_length: "hc_descriptors k bs pos = Inr (ds, stop) \<Longrightarrow> length ds = k"
  by (induction k arbitrary: pos ds) (auto simp: and_then_Inr split: prod.splits)

lemma parse_index_header_Inr:
  assumes "parse_index_header bs actual_len opts = Inr h"
  shows "ih_header_len h = length bs" and "ih_total_len h = actual_len" and "MIN_CHUNK_BYTES \<le> ih_chunk_bytes h"
    and "ksi_key_count (ih_source_identity h) \<le> u32_max" and "length (ih_sections h) = 4"
    and "check_descriptors (ih_chunk_bytes h) 0 (ih_sections h) = Inr (ih_checksum_count h)"
    and "sections_match_counts (ih_sections h) (ih_normalized_text_len h) ((ksi_key_count (ih_source_identity h) + 1) * 8)
      (ksi_key_count (ih_source_identity h) * 4)"
  using assms unfolding parse_index_header_def
  by (auto simp: and_then_Inr SECTION_COUNT_def Option.bind_eq_Some_conv dest: hc_descriptors_length split: if_splits prod.splits)

lemma check_descriptors_nth:
  "check_descriptors cb start ds = Inr t \<Longrightarrow> start \<le> t \<and>
     (\<forall>i < length ds. chunk_count (sd_len (ds ! i)) cb = Inr (sd_checksum_count (ds ! i)) \<and>
        sd_checksum_start (ds ! i) + sd_checksum_count (ds ! i) \<le> t)"
proof (induction ds arbitrary: start)
  case (Cons d ds)
  then have d: "sd_checksum_start d = start" "chunk_count (sd_len d) cb = Inr (sd_checksum_count d)"
    "check_descriptors cb (start + sd_checksum_count d) ds = Inr t"
    by (auto simp: and_then_Inr split: if_splits)
  show ?case using Cons.IH [OF d(3)] d(1,2) by (auto simp: nth_Cons split: nat.splits)
qed simp

lemma check_placement_nth:
  "check_placement len cursor ds = Inr t \<Longrightarrow> cursor \<le> t \<and> (ds \<noteq> [] \<longrightarrow> t \<le> len) \<and>
     (\<forall>i < length ds. sd_offset (ds ! i) + sd_len (ds ! i) \<le> len)"
proof (induction ds arbitrary: cursor)
  case (Cons d ds)
  then have d: "align8 cursor = Inr (sd_offset d)" "sd_offset d + sd_len d \<le> len"
    "check_placement len (sd_offset d + sd_len d) ds = Inr t"
    by (auto simp: and_then_Inr split: if_splits)
  have "cursor \<le> sd_offset d" using d(1) by (auto simp: align8_Inr)
  then show ?case using Cons.IH [OF d(3)] d(2,3) by (cases ds) (auto simp: nth_Cons split: nat.splits)
qed simp

lemma le_align8: "v \<le> (v + 7) div 8 * (8 :: nat)"
  by presburger

lemma validate_layout_Inr:
  assumes "validate_section_layout src h = Inr ()" and "length (ih_sections h) = 4"
  shows "ih_header_len h + ih_checksum_count h * 4 \<le> xs_len src"
    and "i < 4 \<Longrightarrow> sd_offset (ih_sections h ! i) + sd_len (ih_sections h ! i) \<le> xs_len src"
proof -
  obtain cursor t where c: "ih_header_len h + ih_checksum_count h * 4 \<le> cursor"
    and t: "check_placement (xs_len src) cursor (ih_sections h) = Inr t"
    using assms(1) le_align8 [of "ih_header_len h + ih_checksum_count h * 4"]
    by (fastforce simp: validate_section_layout_def and_then_Inr align8_Inr split: if_splits)
  have ne: "ih_sections h \<noteq> []" using assms(2) by auto
  show "ih_header_len h + ih_checksum_count h * 4 \<le> xs_len src" using check_placement_nth [OF t] c ne by linarith
  show "sd_offset (ih_sections h ! i) + sd_len (ih_sections h ! i) \<le> xs_len src" if "i < 4"
    using check_placement_nth [OF t] that assms(2) by simp
qed

lemma section_index_less: "section_index k < 4"
  by (cases k) (simp_all add: section_index_def)

lemma opened_px_ok:
  assumes p: "parse_index_header bs (xs_len src) opts = Inr h" and v: "validate_section_layout src h = Inr ()"
    and src: "xs_len src = length (xs_bytes src)"
  shows "px_ok \<lparr>px_source = src, px_header = h, px_max_row_bytes = m, px_checksum_policy = policy\<rparr>"
proof -
  note h = parse_index_header_Inr [OF p]
  show ?thesis
    using h(3,4,5,7) src validate_layout_Inr [OF v h(5)] check_descriptors_nth [OF h(6)] section_index_less
    by (simp add: px_ok_def px_section_def px_len_def sections_match_counts_def)
qed

lemma read_index_header_parses:
  assumes "returns (read_index_header src opts policy) h"
  obtains bs where "parse_index_header bs (xs_len src) opts = Inr h"
  using assms unfolding read_index_header_def Let_def
  by (auto split: if_splits simp: attempt_lift split: sum.splits dest!: returns_scopedD)

definition opened_with :: "index_header \<Rightarrow> key_index_options \<Rightarrow> nat" where
  "opened_with h opts = ih_chunk_bytes h * 4 +
     (if kio_checksum_policy opts = Verify then min (ih_checksum_count h * 4) CHECKSUM_PAGE_BYTES else 0)"

lemma cache_bytes_Inr: "cache_bytes_for h opts = Inr n \<Longrightarrow> n = opened_with h opts"
  by (auto simp: cache_bytes_for_def opened_with_def and_then_Inr SECTION_COUNT_def)

text \<open>What is known of an index that opened.\<close>

definition opened_ok ::
    "file_clock \<Rightarrow> bytes \<Rightarrow> mdict_file \<Rightarrow> key_index_source_identity \<Rightarrow> key_index_options \<Rightarrow>
     persistent_key_index \<times> verified_chunk list \<times> verified_chunk \<Rightarrow> bool" where
  "opened_ok env content f expected opts r \<longleftrightarrow>
     (case r of (px, cs, ck) \<Rightarrow>
        px_ok px \<and> xs_bytes (px_source px) = content \<and> px_identity px = expected \<and> px_len px = mf_len f \<and>
        fs_len (mf_source f) = ksi_source_bytes expected \<and> length content \<le> kio_max_index_bytes opts \<and>
        (\<exists>t. env t = Inr (ksi_source_bytes expected, ksi_source_modified_unix_nanos expected)) \<and>
        cs = replicate 4 verified_chunk_new \<and> ck = verified_chunk_new)"

lemma empty_chunks_ok:
  "ix_chunks st = replicate 4 verified_chunk_new \<Longrightarrow> ix_checksums st = verified_chunk_new \<Longrightarrow> chunks_ok px st"
  using section_index_less by (auto simp: chunks_ok_def verified_chunk_new_def)

lemma validate_identity_env:
  assumes E: "\<And>(st :: 'z env_state_scheme) t. E (file_state.more st) \<Longrightarrow> E (file_state.more (st\<lparr>es_clock := t\<rparr>))"
  shows "keeps (file_inv E M KP RP LP) (validate_dictionary_identity env f i)
     (\<lambda>_. fs_len (mf_source f) = ksi_source_bytes i \<and> mf_len f = ksi_key_count i \<and>
        (\<exists>t. env t = Inr (ksi_source_bytes i, ksi_source_modified_unix_nanos i)))"
proof -
  have "keeps (file_inv E M KP RP LP) (current_identity env) (\<lambda>i. \<exists>t. env t = Inr i)"
    by (rule runsI) (auto simp: current_identity_def file_inv_def state_bytes_def intro: E split: sum.splits)
  then show ?thesis unfolding validate_dictionary_identity_def
    by (rule runs_bind) (auto intro!: runs_if runs_fail runs_lift split: prod.splits)
qed

lemma accounts_read_index_header: "accounts (read_index_header src opts policy) (\<lambda>_. 0)"
  unfolding read_index_header_def read_header_prefix_def Let_def
  by (intro accounting)

lemma open_index_file_runs:
  assumes E: "\<And>(st :: 'z env_state_scheme) t. E (file_state.more st) \<Longrightarrow> E (file_state.more (st\<lparr>es_clock := t\<rparr>))"
  shows "runs (file_inv E M KP RP LP) (\<lambda>(px, _, _). opened_with (px_header px) opts)
    (open_index_file env content f expected opts) (opened_ok env content f expected opts)"
  unfolding open_index_file_def Let_def
  apply (rule runs_try, rule runs_try, rule runs_bind [OF runs_mem [OF accounts_read_index_header,
      where Q = "returns (read_index_header (index_source_new content) opts (kio_checksum_policy opts))"]], assumption)
  apply (rule runs_if, rule runs_fail, rule runs_bind [OF validate_identity_env [where E = E]], rule E, assumption,
      rule runs_try, rule runs_try)
  subgoal premises h for u v header w x cache_bytes
  proof -
    obtain bs where bs: "parse_index_header bs (xs_len (index_source_new content)) opts = Inr header"
      by (rule read_index_header_parses [OF h(3)])
    have ok: "px_ok \<lparr>px_source = index_source_new content, px_header = header, px_max_row_bytes = m, px_checksum_policy = p\<rparr>" for m p
      by (rule opened_px_ok [OF bs]) (use h in \<open>simp_all add: index_source_new_def\<close>)
    show ?thesis
      apply (rule runs_conseq [OF runs_retained [where k = "\<lambda>_. 0" and
          Q = "\<lambda>r. opened_ok env content f expected opts r \<and> px_header (fst r) = header"]])
      subgoal
        apply (rule runs_try, rule runs_try, rule runs_lift)
        using h ok by (auto simp: opened_ok_def px_identity_def px_len_def index_source_new_def SECTION_COUNT_def)
      subgoal using cache_bytes_Inr [OF h(7)] by (auto split: prod.splits)
      done
  qed
  done

text \<open>The clock is read once, as it stands when the call starts: reading the header does not move it.\<close>

lemma open_index_file_clock:
  assumes "open_index_file env content f expected opts st = (Inr r, st')"
  shows "env (es_clock st) = Inr (ksi_source_bytes expected, ksi_source_modified_unix_nanos expected)"
  using assms
  by (auto simp: open_index_file_def validate_dictionary_identity_def current_identity_def obind_def olift_def
      omem_def Let_def split: sum.splits prod.splits if_splits)

section \<open>Opening what was built\<close>

lemma omem_returns:
  assumes "accounts m (\<lambda>_. 0)" and "budget_ok (st_memory st)" and "fst (m (st_memory st)) = Inr x"
  obtains b where "omem m st = (Inr x, st\<lparr>st_memory := b\<rparr>)" and "mb_used b = mb_used (st_memory st)"
    and "mb_max b = mb_max (st_memory st)"
proof -
  obtain b where b: "m (st_memory st) = (Inr x, b)" using assms(3) by (cases "m (st_memory st)") auto
  with accountsD [OF assms(1,2) b] show thesis by (intro that [of b]) (simp_all add: omem_def)
qed

lemma cache_bytes_opened:
  assumes "ih_chunk_bytes h \<le> u32_max" and "ih_checksum_count h * 4 \<le> u64_max"
  shows "cache_bytes_for h opts = Inr (opened_with h opts)"
proof -
  have "ih_chunk_bytes h * 4 + min n CHECKSUM_PAGE_BYTES \<le> u64_max" for n
    using assms(1) by (simp add: u32_max_def u64_max_def CHECKSUM_PAGE_BYTES_def min_def)
  from this [of "ih_checksum_count h * 4"] assms show ?thesis
    by (simp add: cache_bytes_for_def opened_with_def checked_usize_def checked_mul_def checked_add_def and_then_def
        SECTION_COUNT_def usize_max_def u32_max_def u64_max_def CHECKSUM_PAGE_BYTES_def)
qed

text \<open>An index whose header \<open>build_header\<close> wrote opens, under any options that cover those it was built with.\<close>

lemma open_index_file_built:
  assumes b: "build_header ss identity text_len opts = Inr (hdr, ds, total_len)"
    and o: "validate_options opts = Inr ()" "options_cover opts opts'" "validate_options opts' = Inr ()"
    and i: "identity_ok identity" and ss: "index_sections (ksi_key_count identity) text_len ss"
    and content: "length content = total_len" "take HEADER_BYTES content = hdr" "total_len \<le> isize_max"
    and dict: "fs_len (mf_source f) = ksi_source_bytes identity" "mf_len f = ksi_key_count identity"
      "env (es_clock st) = Inr (ksi_source_bytes identity, ksi_source_modified_unix_nanos identity)"
    and m: "budget_ok (st_memory st)" "mb_used (st_memory st) + HEADER_BYTES \<le> mb_max (st_memory st)"
      "mb_used (st_memory st) + opened_with (header_of ss identity text_len opts) opts' \<le> mb_max (st_memory st)"
  shows "fst (open_index_file env content f identity opts' st) =
    Inr (\<lparr>px_source = index_source_new content, px_header = header_of ss identity text_len opts,
          px_max_row_bytes = decompressed_block_bytes (mf_limits f), px_checksum_policy = kio_checksum_policy opts'\<rparr>,
         replicate SECTION_COUNT verified_chunk_new, verified_chunk_new)"
proof -
  let ?h = "header_of ss identity text_len opts" and ?src = "index_source_new content"
  note bh = build_header_Inr [OF b ss]
  have src: "xs_len ?src = total_len" "length (xs_bytes ?src) = total_len" "take HEADER_BYTES (xs_bytes ?src) = hdr"
    using content by (simp_all add: index_source_new_def)
  have max: "mb_max (st_memory st) \<le> u64_max" using m(1) by (simp add: budget_ok_def)
  have "fst (read_index_header ?src opts' (kio_checksum_policy opts') (st_memory st)) = Inr ?h"
    by (rule read_built_header [OF b o(1,2) i ss src content(3) m(2) max])
  from omem_returns [OF accounts_read_index_header m(1) this] obtain b1 where
    h: "omem (read_index_header ?src opts' (kio_checksum_policy opts')) st = (Inr ?h, st\<lparr>st_memory := b1\<rparr>)"
    and b1: "mb_used b1 = mb_used (st_memory st)" "mb_max b1 = mb_max (st_memory st)" .
  have fields: "ih_chunk_bytes ?h = kio_chunk_bytes opts" "ih_source_identity ?h = identity"
    "ih_checksum_count ?h = checksum_total ss" by (simp_all add: header_of_def Let_def)
  have chunk: "kio_chunk_bytes opts \<le> u32_max" by (rule bh(9))
  have "total_len \<le> u64_max - 7" using content(3) by (simp add: isize_max_def u64_max_def)
  from validate_built_layout [OF b ss src(1) this]
  have v: "validate_section_layout ?src ?h = Inr ()" .
  have c: "cache_bytes_for ?h opts' = Inr (opened_with ?h opts')"
    by (rule cache_bytes_opened) (use bh(5) chunk fields in simp_all)
  have lim: "xs_len ?src \<le> kio_max_index_bytes opts'" using bh(6) o(2) src by (simp add: options_cover_def)
  have "fst (claim (opened_with ?h opts') b1) = Inr ()"
    using claim_fits [of b1 "opened_with ?h opts'"] m(3) max b1 by simp
  then have claim: "fst (obind (omem (claim (opened_with ?h opts'))) k s) =
      fst (k () (s\<lparr>st_memory := snd (claim (opened_with ?h opts') b1)\<rparr>))" if "st_memory s = b1" for k and s :: "'a env_state_scheme"
    using that by (cases "claim (opened_with ?h opts') b1") (simp add: omem_def obind_def)
  have rest: "try_reserve_vec 1 0 (ih_chunk_bytes ?h) ''persistent key-index chunk cache'' = Inr ()"
    "try_reserve_vec 1 0 (if kio_checksum_policy opts' = Verify then min (ih_checksum_count ?h * 4) CHECKSUM_PAGE_BYTES else 0)
       ''persistent key-index checksum cache'' = Inr ()"
    using chunk fields by (simp_all add: try_reserve_vec_def isize_max_def u32_max_def CHECKSUM_PAGE_BYTES_def min_def)
  have id: "validate_dictionary_identity env f identity (st\<lparr>st_memory := b1\<rparr>) =
      (Inr (), st\<lparr>st_memory := b1, es_clock := es_clock st + 1\<rparr>)"
    by (simp add: validate_dictionary_identity_def obind_def current_identity_def dict olift_def)
  have read: "obind (omem (read_index_header ?src opts' (kio_checksum_policy opts'))) k st = k ?h (st\<lparr>st_memory := b1\<rparr>)"
    and check: "obind (validate_dictionary_identity env f identity) k' (st\<lparr>st_memory := b1\<rparr>) =
      k' () (st\<lparr>st_memory := b1, es_clock := es_clock st + 1\<rparr>)" for k k'
    by (simp_all add: obind_def h id)
  show ?thesis
    using fields lim o(3) rest
    by (simp add: open_index_file_def Let_def read check v c oretained_def claim) (simp add: olift_def)
qed

end
