(* ===== verification/Index_Lookups.thy ===== *)
theory Index_Lookups
  imports Index_Answers
begin

text \<open>
  The queries of \<^verbatim>\<open>src/src/core/persistent/query.rs\<close>, one by one: what each returns through
  an open index, with what it leaves of the budget. The facts about the loops come first.
\<close>

section \<open>The loops of a lookup\<close>

text \<open>The vector after the rows before position \<open>i\<close>: its first \<open>n\<close> elements are the exact ones.\<close>

definition kept_so_far :: "(nat \<Rightarrow> bool) \<Rightarrow> nat list \<Rightarrow> nat \<Rightarrow> nat list \<times> nat \<Rightarrow> bool" where
  "kept_so_far E os i acc \<longleftrightarrow>
     take (snd acc) (fst acc) = filter E (take i os) \<and> snd acc = length (filter E (take i os)) \<and>
     drop i (fst acc) = drop i os \<and> length (fst acc) = length os \<and> (snd acc = 0 \<longrightarrow> fst acc = os)"

lemma kept_so_far_step:
  assumes k: "kept_so_far E os i (cur, n)" and i: "i < length os"
  shows "cur ! i = os ! i" and "E (os ! i) \<Longrightarrow> kept_so_far E os (Suc i) (cur[n := cur ! i], Suc n)"
    and "\<not> E (os ! i) \<Longrightarrow> kept_so_far E os (Suc i) (cur, n)"
proof -
  have len: "length cur = length os" and d: "drop i cur = drop i os" using k by (simp_all add: kept_so_far_def)
  have n: "n \<le> i" using k length_filter_le [of E "take i os"] by (simp add: kept_so_far_def)
  show at: "cur ! i = os ! i" using d i len by (metis hd_drop_conv_nth)
  have d': "drop (Suc i) cur = drop (Suc i) os" using d by (metis drop_Suc tl_drop)
  have t: "take (Suc i) os = take i os @ [os ! i]" using i by (simp add: take_Suc_conv_app_nth)
  show "kept_so_far E os (Suc i) (cur[n := cur ! i], Suc n)" if "E (os ! i)"
  proof -
    have "take (Suc n) (cur[n := cur ! i]) = take n cur @ [cur ! i]"
      using n i len by (simp add: take_Suc_conv_app_nth)
    then show ?thesis using k that d' n len at by (auto simp: kept_so_far_def t)
  qed
  show "kept_so_far E os (Suc i) (cur, n)" if "\<not> E (os ! i)"
    using k that d' by (auto simp: kept_so_far_def t)
qed

lemma keep_exact_keeps:
  assumes ok: "file_ok X f" and ks: "file_keys X f keys" and px: "px_ok px"
  shows "i \<le> length os \<Longrightarrow> kept_so_far (exact_row px keys query) os i acc \<Longrightarrow>
    (\<And>n. n \<in> set (filter (exact_row px keys query) (take i os)) \<Longrightarrow> row_verified X f px keys q n) \<Longrightarrow>
    keeps (index_inv px X f RP LP) (keep_exact X f px query q [i..<length os] acc)
      (\<lambda>acc. kept_so_far (exact_row px keys query) os (length os) acc \<and>
         (\<forall>n \<in> set (filter (exact_row px keys query) os). row_verified X f px keys q n))"
proof (induction "length os - i" arbitrary: i acc)
  case 0
  then show ?case by (auto intro!: runs_lift)
next
  case (Suc d)
  obtain cur n where acc: "acc = (cur, n)" by (cases acc)
  have i: "i < length os" using Suc.hyps(2) by simp
  note step = kept_so_far_step [OF Suc.prems(2) [unfolded acc] i]
  have t: "take (Suc i) os = take i os @ [os ! i]" using i by (simp add: take_Suc_conv_app_nth)
  show ?case
    unfolding acc upt_conv_Cons [OF i] keep_exact.simps
    apply (rule runs_bind [OF raw_digest_at_keeps [OF px]], rule runs_if)
    subgoal for x
      by (rule Suc.hyps(1)) (use Suc.hyps(2) Suc.prems(3) step i in \<open>auto simp: t exact_row_def\<close>)
    apply (rule runs_bind [OF verified_source_key_keeps [OF ok ks px]], rule runs_if)
    subgoal for x key
      by (rule Suc.hyps(1)) (use Suc.hyps(2) Suc.prems(3) step i in \<open>auto simp: t exact_row_def\<close>)
    subgoal for x key
      by (rule Suc.hyps(1)) (use Suc.hyps(2) Suc.prems(3) step i in \<open>auto simp: t exact_row_def\<close>)
    done
qed

lemma verify_all_keeps:
  assumes ok: "file_ok X f" and ks: "file_keys X f keys" and px: "px_ok px"
  shows "keeps (index_inv px X f RP LP) (verify_all X f px q ns) (\<lambda>_. \<forall>n \<in> set ns. row_verified X f px keys q n)"
proof (induction ns)
  case (Cons n ns)
  show ?case unfolding verify_all.simps
    by (rule runs_bind [OF verified_source_key_keeps [OF ok ks px]], rule runs_conseq [OF Cons.IH]) auto
qed (auto intro!: runs_lift)

lemma window_Nil: "window off limit [] = []"
  by (simp add: window_def)

lemma exact_page_keeps:
  assumes ok: "file_ok X f" and ks: "file_keys X f keys" and px: "px_ok px"
  shows "(\<And>n. n \<in> set found \<Longrightarrow> row_verified X f px keys q n) \<Longrightarrow>
    keeps (index_inv px X f RP LP) (exact_page X f px query q off limit ps (length found, window off limit found))
      (\<lambda>r. \<exists>all. all = found @ filter (exact_row px keys query) (map (ix_order px) ps) \<and>
         (\<forall>n \<in> set all. row_verified X f px keys q n) \<and> r = (length all, window off limit all))"
proof (induction ps arbitrary: found)
  case Nil
  then show ?case by (auto intro!: runs_lift)
next
  case (Cons p ps)
  show ?case
    unfolding exact_page.simps
    apply (rule runs_bind [OF order_at_keeps [OF px]], rule runs_bind [OF raw_digest_at_keeps [OF px]], rule runs_if)
    subgoal by (rule runs_conseq [OF Cons.IH]) (use Cons.prems in \<open>auto simp: exact_row_def\<close>)
    apply (rule runs_bind [OF verified_source_key_keeps [OF ok ks px]], rule runs_if, rule runs_try)
    subgoal premises h for ordinal x key count
    proof -
      have "count = length (found @ [ordinal])" using h by simp
      moreover have "(if off \<le> length found \<and> length (window off limit found) < limit
          then window off limit found @ [ordinal] else window off limit found) = window off limit (found @ [ordinal])"
        by (simp add: window_snoc)
      ultimately show ?thesis
        by (simp only:, intro runs_conseq [OF Cons.IH]) (use Cons.prems h in \<open>auto simp: exact_row_def\<close>)
    qed
    subgoal by (rule runs_conseq [OF Cons.IH]) (use Cons.prems in \<open>auto simp: exact_row_def\<close>)
    done
qed

lemma exact_page_all:
  assumes ok: "file_ok X f" and ks: "file_keys X f keys" and px: "px_ok px"
    and os: "os = map (ix_order px) ps" and es: "es = filter (exact_row px keys query) os"
  shows "keeps (index_inv px X f RP LP) (exact_page X f px query q off limit ps (0, []))
    (\<lambda>r. (\<forall>n \<in> set es. row_verified X f px keys q n) \<and> r = (length es, window off limit es))"
proof (rule runs_conseq)
  show "keeps (index_inv px X f RP LP) (exact_page X f px query q off limit ps (0, []))
     (\<lambda>r. \<exists>all. all = [] @ filter (exact_row px keys query) (map (ix_order px) ps) \<and>
         (\<forall>n \<in> set all. row_verified X f px keys q n) \<and> r = (length all, window off limit all))"
    using exact_page_keeps [OF ok ks px, where found = "[]" and off = off and limit = limit]
    by (simp add: window_Nil)
qed (simp add: es os)

lemma normalized_page_keeps:
  assumes ok: "file_ok X f" and ks: "file_keys X f keys" and px: "px_ok px"
  shows "(\<And>n. n \<in> set found \<Longrightarrow> row_verified X f px keys q n) \<Longrightarrow>
    keeps (index_inv px X f RP LP) (normalized_page X f px q off limit ps (length found) (window off limit found))
      (\<lambda>r. \<exists>all. all = found @ map (ix_order px) ps \<and> (\<forall>n \<in> set all. row_verified X f px keys q n) \<and>
         r = window off limit all)"
proof (induction ps arbitrary: found)
  case Nil
  then show ?case by (auto intro!: runs_lift)
next
  case (Cons p ps)
  show ?case
    unfolding normalized_page.simps
    apply (rule runs_bind [OF order_at_keeps [OF px]], rule runs_bind [OF verified_source_key_keeps [OF ok ks px]])
    subgoal premises h for ordinal key
    proof -
      have "length found + 1 = length (found @ [ordinal])" by simp
      moreover have "(if off \<le> length found \<and> length (window off limit found) < limit
          then window off limit found @ [ordinal] else window off limit found) = window off limit (found @ [ordinal])"
        by (simp add: window_snoc)
      ultimately show ?thesis
        by (simp only:, intro runs_conseq [OF Cons.IH]) (use Cons.prems h in auto)
    qed
    done
qed

lemma normalized_page_all:
  assumes ok: "file_ok X f" and ks: "file_keys X f keys" and px: "px_ok px" and os: "os = map (ix_order px) ps"
  shows "keeps (index_inv px X f RP LP) (normalized_page X f px q off limit ps 0 [])
    (\<lambda>r. (\<forall>n \<in> set os. row_verified X f px keys q n) \<and> r = window off limit os)"
proof (rule runs_conseq)
  show "keeps (index_inv px X f RP LP) (normalized_page X f px q off limit ps 0 [])
     (\<lambda>r. \<exists>all. all = [] @ map (ix_order px) ps \<and> (\<forall>n \<in> set all. row_verified X f px keys q n) \<and>
         r = window off limit all)"
    using normalized_page_keeps [OF ok ks px, where found = "[]" and off = off and limit = limit]
    by (simp add: window_Nil)
qed (simp add: os)

section \<open>Lookup\<close>

lemma index_locate_runs:
  assumes ok: "file_ok X f" and ks: "file_keys X f keys" and px: "px_ok px" and q: "well_formed query"
  shows "runs (index_inv px X f RP LP) lk_bytes (index_locate X env f px query)
    (\<lambda>r. index_answer X f px keys query (map_option located r) \<and> (case r of None \<Rightarrow> True | Some k \<Rightarrow> located_ok k))"
  unfolding index_locate_def
  apply (rule runs_bind [OF validate_identity_keeps], rule with_normalized_runs, rule runs_bind [OF index_equal_range_keeps [OF px]])
  subgoal premises r for u rng
  proof (cases rng)
    case None
    show ?thesis unfolding None option.case
      by (rule runs_conseq [OF runs_lift [where Q = "\<lambda>r. r = None"]])
        (use index_answer_None [OF ok ks q r(2) [unfolded None]] in \<open>auto simp: lk_bytes_def\<close>)
  next
    case (Some ab)
    obtain a b where ab: "rng = Some (a, b)" using Some by (cases ab) simp
    define os where "os = map (ix_order px) [a..<b]"
    note range = r(2) [unfolded ab]
    note exact = index_answer_exact [OF ok ks q range os_def refl] and norm = index_answer_normalized [OF ok ks q range os_def refl]
    have ne: "os \<noteq> []" using range by (simp add: range_found_def os_def)
    show ?thesis
      unfolding ab option.case prod.case
      apply (rule runs_try, rule runs_try, rule runs_try, rule runs_try)
      subgoal for count match_count match_bytes v
        apply (rule runs_conseq [OF runs_retained_some [where Q = "\<lambda>r. index_answer X f px keys query (map_option located r) \<and>
            (case r of None \<Rightarrow> True | Some k \<Rightarrow> located_ok k \<and> lk_owned k = match_bytes)"]])
        subgoal
          apply (rule runs_bind [OF ordinals_in_keeps [OF px, of _ _ _ _ a b, folded os_def]], simp only:)
          apply (rule runs_bind [OF keep_exact_keeps [OF ok ks px, of 0]])
          subgoal by simp
          subgoal by (simp add: kept_so_far_def)
          subgoal by simp
          apply (simp only: split_paired_all prod.case, rule runs_if, rule runs_lift)
          subgoal premises h for _ cur n x
            using exact [of "utf8 (normal_form X (mf_normalizer f) query)"] h
            by (auto simp: kept_so_far_def located_from_owned_def located_def lk_list_def located_ok_def lk_owned_def split: if_splits)
          apply (rule runs_bind [OF verify_all_keeps [OF ok ks px]], rule runs_lift)
          subgoal premises h for _ cur n w x
            using norm h ne
            by (auto simp: kept_so_far_def located_from_owned_def located_def lk_list_def located_ok_def lk_owned_def split: if_splits)
          done
        subgoal by (auto simp: lk_bytes_def split: option.splits)
        done
      done
  qed
  done

section \<open>Pages\<close>

definition index_page_answer ::
    "externals \<Rightarrow> mdict_file \<Rightarrow> persistent_key_index \<Rightarrow> rstring list \<Rightarrow> rstring \<Rightarrow> nat \<Rightarrow> nat \<Rightarrow>
     located_key_page option \<Rightarrow> bool" where
  "index_page_answer X f px keys query off limit r \<longleftrightarrow>
     (case r of None \<Rightarrow> index_answer X f px keys query None
      | Some p \<Rightarrow> \<exists>full. index_answer X f px keys query (Some full) \<and> page_ok off limit full p)"

lemma index_page_answerI:
  "index_answer X f px keys query (Some full) \<Longrightarrow> page_ok off limit full p \<Longrightarrow>
     index_page_answer X f px keys query off limit (Some p)"
  by (cases full) (auto simp: index_page_answer_def)

lemma index_locate_page_runs:
  assumes ok: "file_ok X f" and ks: "file_keys X f keys" and px: "px_ok px" and q: "well_formed query"
  shows "runs (index_inv px X f RP LP) page_bytes (index_locate_page X env f px query off limit)
    (index_page_answer X f px keys query off limit)"
  unfolding index_locate_page_def
  apply (rule runs_bind [OF validate_identity_keeps], rule with_normalized_runs, rule runs_bind [OF index_equal_range_keeps [OF px]])
  subgoal premises r for u rng
  proof (cases rng)
    case None
    show ?thesis unfolding None option.case
      by (rule runs_conseq [OF runs_lift [where Q = "\<lambda>r. r = None"]])
        (use index_answer_None [OF ok ks q r(2) [unfolded None]] in \<open>auto simp: page_bytes_def index_page_answer_def\<close>)
  next
    case (Some ab)
    obtain a b where ab: "rng = Some (a, b)" using Some by (cases ab) simp
    define os where "os = map (ix_order px) [a..<b]"
    define es where "es = filter (exact_row px keys query) os"
    note range = r(2) [unfolded ab]
    note exact = index_answer_exact [OF ok ks q range os_def es_def] and norm = index_answer_normalized [OF ok ks q range os_def es_def]
    have le: "length es \<le> length os" "length os = b - a" unfolding es_def by (rule length_filter_le) (simp add: os_def)
    show ?thesis
      unfolding ab option.case prod.case
      apply (rule runs_try, rule runs_try, rule runs_try, rule runs_try)
      subgoal premises b for count full page_bytes' v
      proof -
        have full: "full = b - a" "page_bytes' = min limit (full - off) * 4" using b by simp_all
        have page: "page_ok off limit (basis, xs) \<lparr>lkp_basis = basis, lkp_total = length xs,
            lkp_ordinals = window off limit xs, lkp_memory = page_bytes'\<rparr>" if "length xs \<le> length os" for basis xs
          using that le full by (simp add: page_ok_def length_window)
        show ?thesis
        apply (rule runs_conseq [OF runs_retained [where k = "\<lambda>_. 0" and
            Q = "\<lambda>r. index_page_answer X f px keys query off limit r \<and> (\<exists>p. r = Some p \<and> lkp_memory p = page_bytes')"]])
        subgoal
          apply (rule runs_try, rule runs_bind [OF exact_page_all [OF ok ks px os_def es_def]])
          apply (simp only: split_paired_all prod.case, rule runs_if, rule runs_lift)
          subgoal premises h for _ n ordinals x
          proof -
            have es: "es \<noteq> []" "n = length es" "ordinals = window off limit es" using h by auto
            have "index_answer X f px keys query (Some (RawExact, es))" using exact [OF es(1)] h by blast
            note index_page_answerI [OF this page [OF le(1)]]
            moreover have "x = Some \<lparr>lkp_basis = RawExact, lkp_total = length es,
                lkp_ordinals = window off limit es, lkp_memory = page_bytes'\<rparr>" using h es by simp
            ultimately show ?thesis by simp
          qed
          apply (rule runs_bind [OF normalized_page_all [OF ok ks px os_def]], rule runs_lift)
          subgoal premises h for _ n ordinals _ x
          proof -
            have es: "es = []" "x = Some \<lparr>lkp_basis = HeaderNormalized, lkp_total = full,
                lkp_ordinals = window off limit os, lkp_memory = page_bytes'\<rparr>" using h by auto
            have "index_answer X f px keys query (Some (HeaderNormalized, os))" using norm [OF es(1)] h by blast
            from index_page_answerI [OF this page [OF order_refl]] show ?thesis using le(2) full(1) by (simp add: es(2))
          qed
          done
        subgoal by (auto simp: page_bytes_def)
        done
      qed
      done
  qed
  done

section \<open>Case variants\<close>

lemma runs_conj: "runs I k m Q \<Longrightarrow> runs I k m R \<Longrightarrow> runs I k m (\<lambda>x. Q x \<and> R x)"
  by (rule runsI) (drule (2) runsD, drule (2) runsD, auto split: sum.splits)

text \<open>A page of case variants has looked at every candidate.\<close>

lemma classify_scan_visits:
  "(\<And>p. p \<in> set ps \<Longrightarrow> keeps I (source_key p) (\<lambda>_. V p)) \<Longrightarrow>
     keeps I (classify_scan X source_key query off limit ps acc) (\<lambda>_. \<forall>p \<in> set ps. V p)"
proof (induction ps arbitrary: acc)
  case (Cons p ps)
  obtain a b c where acc: "acc = (a, b, c)" by (cases acc)
  show ?case
    unfolding acc classify_scan.simps
    by (rule runs_bind [OF Cons.prems [of p]], simp, simp only: split_paired_all prod.case, rule runs_conseq [OF Cons.IH])
      (use Cons.prems in auto)
qed (auto intro!: runs_lift)

lemma variant_scan_runs:
  "(\<And>p. p \<in> set ps \<Longrightarrow> keeps I (source_key p) (\<lambda>_. V p)) \<Longrightarrow>
     keeps I (variant_scan X source_key query vo wanted ps vp ordinals) (\<lambda>_. True)"
proof (induction ps arbitrary: vp ordinals)
  case (Cons p ps)
  have ih: "keeps I (variant_scan X source_key query vo wanted ps vp ordinals) (\<lambda>_. True)" for vp ordinals
    by (rule Cons.IH) (use Cons.prems in auto)
  show ?case
    unfolding variant_scan.simps
    by (rule runs_bind [OF Cons.prems [of p]], simp, simp only: split_paired_all prod.case)
      (intro runs_if ih runs_lift; simp)
qed (auto intro!: runs_lift)

lemma select_page_visits:
  assumes s: "\<And>p. p < cnt \<Longrightarrow> keeps (file_inv E M KP RP LP) (source_key p) (\<lambda>_. V p)"
  shows "runs (file_inv E M KP RP LP) page_bytes (select_page X f query cnt off limit source_key) (\<lambda>_. \<forall>p < cnt. V p)"
  unfolding select_page_def Let_def
  apply (rule runs_try, rule runs_try)
  subgoal for bytes u
    apply (rule runs_conseq [OF runs_retained_some [where
        Q = "\<lambda>r. (\<forall>p < cnt. V p) \<and> (case r of None \<Rightarrow> True | Some p \<Rightarrow> lkp_memory p = bytes)"]])
    subgoal
      apply (rule runs_try, rule runs_bind [OF classify_scan_visits [where V = V]])
      subgoal by (rule s) simp
      apply (simp only: split_paired_all prod.case, rule runs_if, rule runs_lift)
      subgoal by simp
      apply (rule runs_bind [where Q = "\<lambda>_. True"], rule runs_if, rule variant_scan_runs [where V = V])
      subgoal by (rule s) simp
      subgoal by (rule runs_lift) simp
      subgoal by (rule runs_lift) auto
      done
    subgoal by (auto simp: page_bytes_def split: option.splits)
    done
  done

text \<open>The candidates an index offers: rows of the dictionary that match the query, and all of them when
  the index describes the dictionary.\<close>

definition offered ::
    "externals \<Rightarrow> mdict_file \<Rightarrow> persistent_key_index \<Rightarrow> rstring list \<Rightarrow> rstring \<Rightarrow> (nat \<times> rstring) list \<Rightarrow> bool" where
  "offered X f px keys query rows \<longleftrightarrow>
     (\<forall>(n, k) \<in> set rows. n < length keys \<and> k = keys ! n \<and>
        normal_form X (mf_normalizer f) k = normal_form X (mf_normalizer f) query) \<and>
     (index_describes X f px keys \<longrightarrow> rows = case_candidates X (mf_normalizer f) keys query)"

lemma index_case_variants_runs:
  assumes ok: "file_ok X f" and ks: "file_keys X f keys" and px: "px_ok px" and q: "well_formed query"
  shows "runs (index_inv px X f RP LP) page_bytes (index_case_variants X env f px query off limit)
    (\<lambda>r. \<exists>rows. offered X f px keys query rows \<and> case_page_ok X query off limit rows r)"
  unfolding index_case_variants_def
  apply (rule runs_bind [OF validate_identity_keeps], rule with_normalized_runs, rule runs_bind [OF index_equal_range_keeps [OF px]])
  subgoal premises r for u rng
  proof (cases rng)
    case None
    have "offered X f px keys query []"
      using described_range(1) [OF ok ks q _ r(2) None] by (auto simp: offered_def case_candidates_def)
    then show ?thesis unfolding None option.case
      by (intro runs_conseq [OF runs_lift [where Q = "\<lambda>r. r = None"]])
        (auto simp: page_bytes_def case_page_ok_def case_answer_def intro!: exI [of _ "[]"])
  next
    case (Some ab)
    obtain a b where ab: "rng = Some (a, b)" using Some by (cases ab) simp
    define rows where "rows = map (\<lambda>p. (ix_order px p, keys ! ix_order px p)) [a..<b]"
    have len: "length rows = b - a" by (simp add: rows_def)
    let ?q = "utf8 (normal_form X (mf_normalizer f) query)"
    let ?V = "\<lambda>p. row_verified X f px keys ?q (ix_order px (a + p))"
    have described: "rows = case_candidates X (mf_normalizer f) keys query" if "index_describes X f px keys"
      using described_range(2) [OF ok ks q that r(2) ab, symmetric] by (simp add: rows_def case_candidates_def o_def)
    have offered: "offered X f px keys query rows" if v: "\<forall>p < b - a. ?V p"
      unfolding offered_def
    proof (intro conjI impI ballI, clarify)
      fix n k assume "(n, k) \<in> set rows"
      then obtain p where p: "a \<le> p" "p < b" "n = ix_order px p" "k = keys ! n" by (auto simp: rows_def)
      then have "?V (p - a)" by (intro v [rule_format]) auto
      then show "n < length keys \<and> k = keys ! n \<and> normal_form X (mf_normalizer f) k = normal_form X (mf_normalizer f) query"
        using p normal_form_utf8 [OF ok ks q] by (auto simp: row_verified_def)
    qed (rule described)
    let ?src = "\<lambda>position. obind (order_at px (a + position)) (\<lambda>ordinal.
           obind (verified_source_key X f px ordinal ?q) (\<lambda>key. oret (ordinal, key)))"
    have src: "keeps (index_inv px X f RP LP) (?src p) (\<lambda>(n, key). (n, ke_key key) = rows ! p \<and> ?V p)" if "p < length rows" for p
      by (rule runs_bind [OF order_at_keeps [OF px]], rule runs_bind [OF verified_source_key_keeps [OF ok ks px]], rule runs_lift)
        (use that len in \<open>auto simp: rows_def\<close>)
    have s: "supplies (index_inv px X f RP LP) ?src rows"
      unfolding supplies_def by (intro allI impI, rule runs_conseq [OF src]) auto
    have v: "keeps (index_inv px X f RP LP) (?src p) (\<lambda>_. ?V p)" if "p < b - a" for p
      by (rule runs_conseq [OF src]) (use that len in auto)
    note page = runs_conj [OF select_page_runs [OF s, unfolded len] select_page_visits [OF v]]
    show ?thesis unfolding ab option.case prod.case
      apply (rule runs_try, rule runs_try)
      subgoal premises c for count count'
      proof -
        have c': "count' = b - a" using c by simp
        show ?thesis unfolding c' by (rule runs_conseq [OF page]) (use offered in auto)
      qed
      done
  qed
  done

end
