(* ===== verification/Index_Facade.thy ===== *)
theory Index_Facade
  imports Index_Lookups
begin

text \<open>
  The rest of the queries through an index: prefixes, scans and the match modes of the facade; and
  the opening of an index file, which establishes \<open>px_ok\<close> and the invariant of its caches.
\<close>

section \<open>Prefixes\<close>

definition entries_of :: "rstring list \<Rightarrow> nat list \<Rightarrow> key_entry list" where
  "entries_of keys ns = map (\<lambda>n. \<lparr>ke_ordinal = n, ke_key = keys ! n\<rparr>) ns"

lemma length_entries_of [simp]: "length (entries_of keys ns) = length ns"
  by (simp add: entries_of_def)

text \<open>The rows a prefix walk takes, from a position of the order.\<close>

definition walk :: "persistent_key_index \<Rightarrow> bytes \<Rightarrow> nat \<Rightarrow> nat list \<Rightarrow> nat list" where
  "walk px q limit ns = take limit (takeWhile (\<lambda>n. starts_with q (ix_row px n)) ns)"

lemma prefix_from_keeps:
  assumes ok: "file_ok X f" and ks: "file_keys X f keys" and px: "px_ok px"
  shows "(\<And>n. n \<in> set ns \<Longrightarrow> row_verified X f px keys (ix_row px n) n) \<Longrightarrow>
    keeps (index_inv px X f RP LP) (prefix_from X f px q limit ps (entries_of keys ns))
      (\<lambda>r. \<exists>all. all = ns @ walk px q (limit - length ns) (map (ix_order px) ps) \<and>
         (\<forall>n \<in> set all. row_verified X f px keys (ix_row px n) n) \<and> r = entries_of keys all)"
proof (induction ps arbitrary: ns)
  case Nil
  then show ?case by (auto intro!: runs_lift simp: walk_def)
next
  case (Cons p ps)
  show ?case
    unfolding prefix_from.simps
    apply (rule runs_if)
    subgoal using Cons.prems by (auto intro!: runs_lift simp: walk_def)
    apply (rule runs_bind [OF order_at_keeps [OF px]])
    apply (rule runs_bind [OF runs_holding [OF index_row_text_runs [OF px], where
        R = "\<lambda>key. case key of None \<Rightarrow> \<not> starts_with q (ix_row px (ix_order px p))
           | Some e \<Rightarrow> starts_with q (ix_row px (ix_order px p)) \<and> e = \<lparr>ke_ordinal = ix_order px p, ke_key = keys ! ix_order px p\<rparr> \<and>
               row_verified X f px keys (ix_row px (ix_order px p)) (ix_order px p)"]])
    subgoal
      apply (rule runs_if, rule runs_lift)
      subgoal by auto
      apply (rule runs_bind [OF verified_source_key_keeps [OF ok ks px]], rule runs_try, rule runs_lift)
      subgoal by (auto simp: row_verified_def)
      done
    subgoal premises h for ordinal key
    proof (cases key)
      case None
      then show ?thesis using Cons.prems h by (auto intro!: runs_lift simp: walk_def)
    next
      case (Some e)
      have e: "entries_of keys ns @ [e] = entries_of keys (ns @ [ix_order px p])"
        using h Some by (simp add: entries_of_def)
      have n: "limit - length ns = Suc (limit - length (ns @ [ix_order px p]))" using h(1) by simp
      show ?thesis unfolding Some option.case e
        by (rule runs_conseq [OF Cons.IH]) (use Cons.prems h Some n in \<open>auto simp: walk_def\<close>)
    qed
    done
qed

text \<open>What a prefix query lists: rows that start with the prefix, each compared with its source key, and all
  the first ones in the order of their texts when the index describes the dictionary.\<close>

definition prefix_answer ::
    "externals \<Rightarrow> mdict_file \<Rightarrow> persistent_key_index \<Rightarrow> rstring list \<Rightarrow> rstring \<Rightarrow> nat \<Rightarrow> nat list \<Rightarrow> bool" where
  "prefix_answer X f px keys prefix limit ns \<longleftrightarrow> length ns \<le> limit \<and>
     (\<forall>n \<in> set ns. n < length keys \<and>
        starts_with (utf8 (normal_form X (mf_normalizer f) prefix)) (utf8 (normal_form X (mf_normalizer f) (keys ! n)))) \<and>
     (index_describes X f px keys \<longrightarrow>
        ns = take limit (filter (\<lambda>n. starts_with (utf8 (normal_form X (mf_normalizer f) prefix))
                                   (utf8 (normal_form X (mf_normalizer f) (keys ! n))))
               (sort_key (\<lambda>n. (utf8 (normal_form X (mf_normalizer f) (keys ! n)), n)) [0..<length keys])))"

lemma walk_starts: "n \<in> set (walk px q limit ns) \<Longrightarrow> starts_with q (ix_row px n)"
  by (auto simp: walk_def dest!: in_set_takeD set_takeWhileD)

lemma described_order:
  assumes d: "index_describes X f px keys"
  shows "ix_ordered px = sort_key (\<lambda>n. (utf8 (normal_form X (mf_normalizer f) (keys ! n)), n)) [0..<length keys]"
proof -
  let ?g = "\<lambda>n. (utf8 (normal_form X (mf_normalizer f) (keys ! n)), n)"
  have s: "sorted (map (\<lambda>r. (ix_row px r, r)) (ix_ordered px))" and m: "mset (ix_ordered px) = mset [0..<length keys]"
    using d by (simp_all add: index_describes_def index_sorted_def)
  have "set (ix_ordered px) = {0..<length keys}" using m by (metis mset_eq_setD set_upt)
  then have same: "map (\<lambda>r. (ix_row px r, r)) (ix_ordered px) = map ?g (ix_ordered px)"
    using d by (auto simp: index_describes_def)
  have "filter (\<lambda>x. ?g k = ?g x) xs = replicate (count (mset xs) k) k" for k xs
    unfolding replicate_count_mset_eq_filter_eq by (rule filter_cong) auto
  then show ?thesis
    using m s [unfolded same] by (intro properties_for_sort_key [symmetric]) simp_all
qed

lemma index_prefix_keeps:
  assumes ok: "file_ok X f" and ks: "file_keys X f keys" and px: "px_ok px"
  shows "keeps (index_inv px X f RP LP) (index_prefix X env f px prefix limit)
    (\<lambda>r. \<exists>ns. r = entries_of keys ns \<and> prefix_answer X f px keys prefix limit ns)"
  unfolding index_prefix_def
  apply (rule runs_if, rule runs_lift)
  subgoal by (auto simp: entries_of_def prefix_answer_def intro!: exI [of _ "[]"])
  apply (rule runs_bind [OF validate_identity_keeps], rule with_normalized_runs, rule runs_bind [OF lower_bound_keeps [OF px]])
  subgoal premises h for u position
  proof -
    let ?q = "utf8 (normal_form X (mf_normalizer f) prefix)"
    let ?row = "\<lambda>n. utf8 (normal_form X (mf_normalizer f) (keys ! n))"
    let ?ns = "walk px ?q limit (map (ix_order px) [position..<px_len px])"
    have all: "prefix_answer X f px keys prefix limit ?ns"
      if v: "\<forall>n \<in> set ?ns. row_verified X f px keys (ix_row px n) n"
      unfolding prefix_answer_def
    proof (intro conjI ballI impI)
      show "length ?ns \<le> limit" by (simp add: walk_def)
      show "n < length keys" "starts_with ?q (?row n)" if "n \<in> set ?ns" for n
        using v walk_starts [of n px ?q limit] that by (auto simp: row_verified_def)
      assume d: "index_describes X f px keys"
      then have s: "index_sorted px" by (simp add: index_describes_def)
      have "position = partition_point (\<lambda>r. ix_row px r < ?q) (ix_ordered px)" using h(3) described_sorted [OF d] by simp
      then have "?ns = prefix_rows (ix_row px) (ix_ordered px) ?q limit"
        by (simp add: prefix_rows_def walk_def ix_ordered_def drop_map)
      also have "\<dots> = take limit (filter (\<lambda>n. starts_with ?q (ix_row px n)) (ix_ordered px))"
        by (rule persistent.prefix_rows_eq [OF s])
      also have "filter (\<lambda>n. starts_with ?q (ix_row px n)) (ix_ordered px) = filter (\<lambda>n. starts_with ?q (?row n)) (ix_ordered px)"
        by (rule filter_cong) (use d persistent.order_set [OF s] in \<open>auto simp: index_describes_def\<close>)
      finally show "?ns = take limit (filter (\<lambda>n. starts_with ?q (?row n)) (sort_key (\<lambda>n. (?row n, n)) [0..<length keys]))"
        unfolding described_order [OF d] .
    qed
    show ?thesis
      by (rule runs_conseq [OF prefix_from_keeps [OF ok ks px, of "[]", unfolded entries_of_def list.map, folded entries_of_def]])
        (use all in auto)
  qed
  done

section \<open>Scans\<close>

text \<open>The visitor is only called on rows that were compared with the source.\<close>

lemma scan_from_keeps:
  assumes ok: "file_ok X f" and ks: "file_keys X f keys" and px: "px_ok px"
    and visit: "\<And>n. n \<in> set rows \<Longrightarrow> row_verified X f px keys (utf8 (normal_form X (mf_normalizer f) (keys ! n))) n \<Longrightarrow>
      keeps (index_inv px X f RP LP) (visit n (utf8 (normal_form X (mf_normalizer f) (keys ! n)))) (\<lambda>_. True)"
  shows "keeps (index_inv px X f RP LP) (scan_from X f px visit rows) (\<lambda>_. True)"
  using visit
proof (induction rows)
  case (Cons row rows)
  show ?case
    unfolding scan_from.simps
    apply (rule runs_if, rule runs_fail, rule runs_bind [OF runs_holding [OF index_row_text_runs [OF px], where R = "\<lambda>_. True"]])
    apply (rule runs_bind [OF verified_source_key_keeps [OF ok ks px]])
    subgoal premises h for t key
      using Cons.prems [of row] h by (auto simp: row_verified_def)
    apply (rule runs_if, rule runs_lift, simp)
    apply (rule Cons.IH, rule Cons.prems)
    apply auto
    done
qed (auto intro!: runs_lift)

lemma index_scan_keeps:
  assumes ok: "file_ok X f" and ks: "file_keys X f keys" and px: "px_ok px"
    and visit: "\<And>n. n < length keys \<Longrightarrow>
      keeps (index_inv px X f RP LP) (visit n (utf8 (normal_form X (mf_normalizer f) (keys ! n)))) (\<lambda>_. True)"
  shows "keeps (index_inv px X f RP LP) (index_scan X env f px visit) (\<lambda>_. True)"
  unfolding index_scan_def
  by (rule runs_bind [OF validate_identity_keeps], rule scan_from_keeps [OF ok ks px], rule visit) (simp add: row_verified_def)

section \<open>Match modes\<close>

text \<open>An index that describes the dictionary answers as the in-memory locator does, in either mode.\<close>

lemma index_locate_matches:
  assumes ok: "file_ok X f" and ks: "file_keys X f keys" and px: "px_ok px" and q: "well_formed query"
    and d: "index_describes X f px keys"
    and plain: "\<not> includes_case_variants f mode \<or> snd (case_answer X query (case_candidates X (mf_normalizer f) keys query)) = []"
  shows "runs (index_inv px X f RP LP) lk_bytes (index_locate X env f px query) (matches_ok X f query mode)"
proof (rule runs_conseq [OF index_locate_runs [OF ok ks px q]])
  fix r assume r: "index_answer X f px keys query (map_option located r) \<and> (case r of None \<Rightarrow> True | Some k \<Rightarrow> located_ok k)"
  then have a: "map_option located r = mode_answer X f keys query mode"
    using d mode_answer_plain [OF plain] by (simp add: index_answer_def)
  moreover have "lk_list k \<noteq> []" if "r = Some k" for k
    using r that by (auto simp: index_answer_def answer_sound_def located_def)
  ultimately show "matches_ok X f query mode r \<and> lk_bytes r = lk_bytes r"
    using r ks by (auto simp: matches_ok_def split: option.splits)
qed

lemma index_page_matches:
  assumes ok: "file_ok X f" and ks: "file_keys X f keys" and px: "px_ok px" and q: "well_formed query"
    and d: "index_describes X f px keys"
    and plain: "\<not> includes_case_variants f mode \<or> snd (case_answer X query (case_candidates X (mf_normalizer f) keys query)) = []"
  shows "runs (index_inv px X f RP LP) page_bytes (index_locate_page X env f px query off limit)
    (mode_page_ok X f query off limit mode)"
proof (rule runs_conseq [OF index_locate_page_runs [OF ok ks px q]])
  fix r assume r: "index_page_answer X f px keys query off limit r"
  then have "case r of None \<Rightarrow> mode_answer X f keys query mode = None
      | Some p \<Rightarrow> \<exists>full. mode_answer X f keys query mode = Some full \<and> page_ok off limit full p"
    using d mode_answer_plain [OF plain]
    by (cases r) (simp_all add: index_page_answer_def index_answer_def, metis)
  then show "mode_page_ok X f query off limit mode r \<and> page_bytes r = page_bytes r"
    unfolding mode_page_ok_def using ks by blast
qed

lemma locate_with_key_index_and_mode_runs:
  assumes ok: "file_ok X f" and ks: "file_keys X f keys" and px: "px_ok px" and q: "well_formed query"
    and d: "index_describes X f px keys"
  shows "runs (index_inv px X f RP LP) lk_bytes (locate_with_key_index_and_mode X env f px query mode)
    (matches_ok X f query mode)"
  unfolding locate_with_key_index_and_mode_def
proof (rule runs_if)
  let ?I = "index_inv px X f RP LP"
  let ?cases = "case_answer X query (case_candidates X (mf_normalizer f) keys query)"
  assume m: "includes_case_variants f mode"
  show "runs (index_inv px X f RP LP) lk_bytes (obind (index_case_variants X env f px query 0 usize_max) (\<lambda>page.
      case page of Some p \<Rightarrow> page_into_matches p | None \<Rightarrow> index_locate X env f px query)) (matches_ok X f query mode)"
  proof (rule runs_bind_owned [OF index_case_variants_runs [OF ok ks px q]], elim exE conjE)
    fix page base st r st' rows
    assume i: "index_inv px X f RP LP (base + page_bytes page) st"
      and run: "(case page of Some p \<Rightarrow> page_into_matches p | None \<Rightarrow> index_locate X env f px query) st = (r, st')"
      and rows: "offered X f px keys query rows" and c: "case_page_ok X query 0 usize_max rows page"
    have c: "case_page_ok X query 0 usize_max (case_candidates X (mf_normalizer f) keys query) page"
      using c rows d by (simp add: offered_def)
    show "case r of Inl e \<Rightarrow> index_inv px X f RP LP base st'
      | Inr y \<Rightarrow> index_inv px X f RP LP (base + lk_bytes y) st' \<and> matches_ok X f query mode y"
    proof (cases page)
      case None
      then have "\<not> includes_case_variants f mode \<or> snd ?cases = []" using c by (simp add: case_page_ok_def)
      from runsD [OF index_locate_matches [OF ok ks px q d this], of RP LP base st] i run None show ?thesis
        by (simp add: page_bytes_def)
    next
      case (Some p)
      have ne: "snd ?cases \<noteq> []" and p: "page_ok 0 usize_max ?cases p" using c Some by (auto simp: case_page_ok_def)
      have len: "length (snd ?cases) \<le> usize_max" by (rule case_answer_length [OF ok ks])
      have all: "lkp_ordinals p = snd ?cases" "lkp_basis p = fst ?cases"
        using p len by (cases ?cases, auto simp: page_ok_def window_def)
      then show ?thesis
        using i run Some ne m ks
        by (auto simp: page_into_matches_def into_matches_def located_from_owned_def matches_ok_def mode_answer_def Let_def
            located_def lk_list_def located_ok_def lk_bytes_def lk_owned_def page_bytes_def)
    qed
  qed
qed (use index_locate_matches [OF ok ks px q d] in blast)

lemma locate_page_with_key_index_and_mode_runs:
  assumes ok: "file_ok X f" and ks: "file_keys X f keys" and px: "px_ok px" and q: "well_formed query"
    and d: "index_describes X f px keys"
  shows "runs (index_inv px X f RP LP) page_bytes (locate_page_with_key_index_and_mode X env f px query off limit mode)
    (mode_page_ok X f query off limit mode)"
  unfolding locate_page_with_key_index_and_mode_def
proof (rule runs_if)
  let ?cases = "case_answer X query (case_candidates X (mf_normalizer f) keys query)"
  assume m: "includes_case_variants f mode"
  show "runs (index_inv px X f RP LP) page_bytes (obind (index_case_variants X env f px query off limit) (\<lambda>page.
      case page of Some p \<Rightarrow> oret (Some p) | None \<Rightarrow> index_locate_page X env f px query off limit))
      (mode_page_ok X f query off limit mode)"
  proof (rule runs_bind_owned [OF index_case_variants_runs [OF ok ks px q]], elim exE conjE)
    fix page base st r st' rows
    assume i: "index_inv px X f RP LP (base + page_bytes page) st"
      and run: "(case page of Some p \<Rightarrow> oret (Some p) | None \<Rightarrow> index_locate_page X env f px query off limit) st = (r, st')"
      and rows: "offered X f px keys query rows" and c: "case_page_ok X query off limit rows page"
    have c: "case_page_ok X query off limit (case_candidates X (mf_normalizer f) keys query) page"
      using c rows d by (simp add: offered_def)
    show "case r of Inl e \<Rightarrow> index_inv px X f RP LP base st'
      | Inr y \<Rightarrow> index_inv px X f RP LP (base + page_bytes y) st' \<and> mode_page_ok X f query off limit mode y"
    proof (cases page)
      case None
      then have "\<not> includes_case_variants f mode \<or> snd ?cases = []" using c by (simp add: case_page_ok_def)
      from runsD [OF index_page_matches [OF ok ks px q d this], of RP LP base st] i run None show ?thesis
        by (simp add: page_bytes_def)
    next
      case (Some p)
      then have "mode_answer X f keys query mode = Some ?cases" and "page_ok off limit ?cases p"
        using c m by (auto simp: case_page_ok_def mode_answer_def Let_def)
      then have "mode_page_ok X f query off limit mode page"
        unfolding mode_page_ok_def Some option.case using ks by blast
      then show ?thesis using i run Some by (auto simp: olift_def)
    qed
  qed
qed (use index_page_matches [OF ok ks px q d] in blast)

end
