(* ===== verification/Index_Sample.thy ===== *)
theory Index_Sample
  imports Sample Index_Opening Index_Facade
begin

text \<open>
  A persistent index of the sample dictionary, as a file of 308 bytes with one chunk per section, and
  what opening it gives: the witnesses of the properties of the index run on it.
\<close>

definition sample_identity :: key_index_source_identity where
  "sample_identity = \<lparr>ksi_source_bytes = 63, ksi_source_modified_unix_nanos = 1000, ksi_key_count = 3\<rparr>"

definition sample_clock :: file_clock where
  "sample_clock = (\<lambda>_. Inr (63, 1000))"

definition sample_options :: key_index_options where
  "sample_options = key_index_options_new\<lparr>kio_chunk_bytes := 64, kio_checksum_policy := Verify\<rparr>"

definition sample_index_content :: bytes where
  "sample_index_content =
     [77, 68, 75, 73, 68, 88, 48, 49, 3, 0, 0, 0, 4, 3, 2, 1, 224, 0, 0, 0, 0, 0, 0, 0, 52, 1, 0,
      0, 0, 0, 0, 0, 1, 0, 0, 0, 1, 0, 0, 0, 64, 0, 0, 0, 4, 0, 0, 0, 63, 0, 0, 0, 0, 0, 0, 0, 232,
      3, 0, 0, 0, 0, 0, 0, 0, 0, 0, 0, 0, 0, 0, 0, 3, 0, 0, 0, 0, 0, 0, 0, 5, 0, 0, 0, 0, 0, 0, 0,
      240, 0, 0, 0, 0, 0, 0, 0, 5, 0, 0, 0, 0, 0, 0, 0, 0, 0, 0, 0, 0, 0, 0, 0, 1, 0, 0, 0, 0, 0,
      0, 0, 248, 0, 0, 0, 0, 0, 0, 0, 32, 0, 0, 0, 0, 0, 0, 0, 1, 0, 0, 0, 0, 0, 0, 0, 1, 0, 0, 0,
      0, 0, 0, 0, 24, 1, 0, 0, 0, 0, 0, 0, 12, 0, 0, 0, 0, 0, 0, 0, 2, 0, 0, 0, 0, 0, 0, 0, 1, 0,
      0, 0, 0, 0, 0, 0, 40, 1, 0, 0, 0, 0, 0, 0, 12, 0, 0, 0, 0, 0, 0, 0, 3, 0, 0, 0, 0, 0, 0, 0,
      1, 0, 0, 0, 0, 0, 0, 0, 0, 0, 0, 0, 46, 7, 132, 168, 233, 1, 187, 5, 12, 0, 184, 0, 165, 5,
      127, 39, 4, 0, 28, 0, 97, 98, 97, 98, 98, 0, 0, 0, 0, 0, 0, 0, 0, 0, 0, 0, 2, 0, 0, 0, 0, 0,
      0, 0, 4, 0, 0, 0, 0, 0, 0, 0, 5, 0, 0, 0, 0, 0, 0, 0, 234, 83, 213, 76, 202, 5, 37, 77, 229,
      45, 12, 231, 0, 0, 0, 0, 0, 0, 0, 0, 1, 0, 0, 0, 2, 0, 0, 0]"

definition sample_env_state :: env_state where
  "sample_env_state =
     \<lparr>st_memory = st_memory sample_state, st_key_cache = None, st_record_cache = None, st_locator = None, es_clock = 0\<rparr>"

definition sample_px_of :: "bytes \<Rightarrow> persistent_key_index" where
  "sample_px_of content =
     \<lparr>px_source = \<lparr>xs_len = 308, xs_bytes = content\<rparr>,
      px_header =
        \<lparr>ih_header_len = 224, ih_total_len = 308, ih_chunk_bytes = 64, ih_source_identity = sample_identity,
         ih_normalized_text_len = 5,
         ih_sections =
           [\<lparr>sd_offset = 240, sd_len = 5, sd_checksum_start = 0, sd_checksum_count = 1\<rparr>,
            \<lparr>sd_offset = 248, sd_len = 32, sd_checksum_start = 1, sd_checksum_count = 1\<rparr>,
            \<lparr>sd_offset = 280, sd_len = 12, sd_checksum_start = 2, sd_checksum_count = 1\<rparr>,
            \<lparr>sd_offset = 296, sd_len = 12, sd_checksum_start = 3, sd_checksum_count = 1\<rparr>],
         ih_checksum_count = 4\<rparr>,
      px_max_row_bytes = 536870912, px_checksum_policy = Verify\<rparr>"

definition sample_px :: persistent_key_index where
  "sample_px = sample_px_of sample_index_content"

text \<open>A state in which every section and the checksum table have been read.\<close>

definition sample_index_state :: index_state where
  "sample_index_state =
     \<lparr>st_memory = st_memory sample_state, st_key_cache = None, st_record_cache = None, st_locator = None, es_clock = 1,
      ix_chunks =
        map (\<lambda>bs. \<lparr>vc_number = Some 0, vc_bytes = bs\<rparr>)
          [[97, 98, 97, 98, 98], concat (map (nat_to_le 8) [0, 2, 4, 5]),
           [234, 83, 213, 76, 202, 5, 37, 77, 229, 45, 12, 231], concat (map (nat_to_le 4) [0, 1, 2])],
      ix_checksums = \<lparr>vc_number = Some 0, vc_bytes = [233, 1, 187, 5, 12, 0, 184, 0, 165, 5, 127, 39, 4, 0, 28, 0]\<rparr>\<rparr>"

definition sample_sections :: "section_file list" where
  "sample_sections =
     [\<lparr>sf_kind = SecText, sf_bytes = [97, 98, 97, 98, 98], sf_len = 5, sf_checksums = [0x05bb01e9]\<rparr>,
      \<lparr>sf_kind = SecBounds, sf_bytes = concat (map (nat_to_le 8) [0, 2, 4, 5]), sf_len = 32, sf_checksums = [0x00b8000c]\<rparr>,
      \<lparr>sf_kind = SecRaw, sf_bytes = [234, 83, 213, 76, 202, 5, 37, 77, 229, 45, 12, 231], sf_len = 12, sf_checksums = [0x277f05a5]\<rparr>,
      \<lparr>sf_kind = SecOrder, sf_bytes = concat (map (nat_to_le 4) [0, 1, 2]), sf_len = 12, sf_checksums = [0x001c0004]\<rparr>]"

lemma adler32_word:
  "adler32 bs = word_of_nat (((length bs + weighted bs) mod 65521) * 65536 + (1 + byte_sum bs) mod 65521)"
  unfolding adler32_closed_form [symmetric] by simp

lemma sample_built:
  "build_header sample_sections sample_identity 5 sample_options =
     Inr (take HEADER_BYTES sample_index_content, ih_sections (px_header sample_px), 308)"
  unfolding build_header_def adler32_word by code_simp

lemma sample_header_of: "header_of sample_sections sample_identity 5 sample_options = px_header sample_px"
  by code_simp

lemma sample_options_ok: "validate_options sample_options = Inr ()" "options_cover sample_options sample_options"
  by code_simp+

lemma sample_budget: "budget_ok (st_memory sample_env_state)" "mb_used (st_memory sample_env_state) = 0"
    "mb_max (st_memory sample_env_state) = working_memory_bytes limits_new"
  by (simp_all add: sample_env_state_def sample_state_def budget_ok_def budget_new_def limits_new_def u64_max_def)

lemma sample_index_opens:
  "fst (open_index_file sample_clock sample_index_content sample_file sample_identity sample_options sample_env_state) =
     Inr (sample_px, replicate 4 verified_chunk_new, verified_chunk_new)"
proof -
  have "index_source_new sample_index_content = px_source sample_px" and "kio_checksum_policy sample_options = Verify"
    and "decompressed_block_bytes (mf_limits sample_file) = 536870912" and "px_checksum_policy sample_px = Verify"
    and "px_max_row_bytes sample_px = 536870912"
    by code_simp+
  then have px: "\<lparr>px_source = index_source_new sample_index_content, px_header = px_header sample_px,
      px_max_row_bytes = decompressed_block_bytes (mf_limits sample_file),
      px_checksum_policy = kio_checksum_policy sample_options\<rparr> = sample_px"
    by simp
  note opens = open_index_file_built [OF sample_built sample_options_ok sample_options_ok(1), of sample_index_content
      sample_file sample_clock sample_env_state, unfolded sample_header_of px sample_budget SECTION_COUNT_def]
  show ?thesis
    by (rule opens) (rule refl sample_budget | code_simp)+
qed

lemma sample_px_ok: "px_ok sample_px"
proof -
  have "xs_len (px_source sample_px) = length (xs_bytes (px_source sample_px))" by code_simp
  moreover have "sd_offset (px_section sample_px k) + sd_len (px_section sample_px k) \<le> xs_len (px_source sample_px) \<and>
        chunk_count (sd_len (px_section sample_px k)) (chunk_width sample_px) = Inr (sd_checksum_count (px_section sample_px k)) \<and>
        sd_checksum_start (px_section sample_px k) + sd_checksum_count (px_section sample_px k) \<le> ih_checksum_count (px_header sample_px)" for k
    by (cases k) (simp_all, code_simp+)
  ultimately show ?thesis
    by (simp add: px_ok_def) code_simp
qed

lemma sample_texts:
  "ix_ordered sample_px = [0, 1, 2]" "map (ix_row sample_px) [0, 1, 2] = [[97, 98], [97, 98], [98]]"
  "map (ix_digest sample_px) [0, 1, 2] = map raw_digest [ascii ''Ab'', ascii ''ab'', ascii ''b'']"
  by code_simp+

lemma sample_describes: "index_describes sample_externals sample_file sample_px [ascii ''Ab'', ascii ''ab'', ascii ''b'']"
proof -
  have "px_len sample_px = 3" by code_simp
  moreover have "map (\<lambda>k. utf8 (normal_form sample_externals (mf_normalizer sample_file) k)) [ascii ''Ab'', ascii ''ab'', ascii ''b''] =
      [[97, 98], [97, 98], [98]]" by code_simp
  moreover have "sorted [([97, 98] :: bytes, 0 :: nat), ([97, 98], 1), ([98], 2)]" by code_simp
  moreover have "[0..<3] = [0, 1, 2 :: nat]" by (simp add: upt_rec)
  ultimately show ?thesis
    using sample_texts by (auto simp: index_describes_def index_sorted_def less_Suc_eq numeral_2_eq_2 numeral_3_eq_3 simp del: sorted_simps)
qed

text \<open>What is cached is what the file holds, and its checksums agree.\<close>

lemma sample_chunk:
  "ix_chunks sample_index_state ! section_index k = \<lparr>vc_number = Some 0, vc_bytes = chunk_of sample_px k 0\<rparr>"
  by (cases k) (simp_all, code_simp+)

lemma sample_checksum:
  "adler32 (chunk_of sample_px k 0) = table_checksum sample_px (sd_checksum_start (px_section sample_px k))"
  unfolding adler32_word by (cases k) (simp_all, code_simp+)

lemma sample_page: "ix_checksums sample_index_state = \<lparr>vc_number = Some 0, vc_bytes = page_of sample_px 0\<rparr>"
  by code_simp

lemma sample_chunks_ok: "chunks_ok sample_px sample_index_state"
proof -
  have "length (ix_chunks sample_index_state) = 4" by (simp add: sample_index_state_def)
  then show ?thesis
    using sample_chunk sample_checksum sample_page by (simp add: chunks_ok_def chunk_verified_def)
qed

lemma sample_index_inv: "index_inv sample_px sample_externals sample_file (record_cache_ok sample_externals sample_file)
    (locator_cache_ok sample_externals sample_file) 0 sample_index_state"
proof -
  have "on_more (chunks_ok sample_px) (file_state.more sample_index_state)" using sample_chunks_ok by (simp only: on_more_chunks)
  moreover have "st_memory sample_index_state = st_memory sample_state" "st_key_cache sample_index_state = st_key_cache sample_state"
    "st_record_cache sample_index_state = st_record_cache sample_state" "st_locator sample_index_state = st_locator sample_state"
    by (simp_all add: sample_index_state_def sample_state_def)
  ultimately show ?thesis using sample_inv by (simp add: file_inv_def state_bytes_def sample_file_def)
qed

lemma sample_env_inv: "open_inv sample_externals sample_file 0 sample_env_state"
  using sample_inv by (simp add: file_inv_def sample_env_state_def sample_state_def state_bytes_def)

text \<open>A query that has no match, through the index.\<close>

lemma sample_index_answers:
  "fst (index_locate sample_externals sample_clock sample_file sample_px (ascii ''C'') sample_index_state) = Inr None"
proof -
  have "case fst (index_locate sample_externals sample_clock sample_file (sample_px_of bs) (ascii ''C'') sample_index_state) of
      Inr None \<Rightarrow> True | _ \<Rightarrow> False" for bs
    by code_simp
  from this [of sample_index_content] show ?thesis by (auto simp: sample_px_def split: sum.splits option.splits)
qed

end
