(* ===== verification/Spec2Isabelle.thy ===== *)
theory Spec2Isabelle
  imports Session File_Url Sample Budget_Steps Mdd Index_Sample
begin

text \<open>
  A model of mdictlib, a library that reads the MDX and MDD containers of MDict dictionaries, with
  the theorems that make it correct. Sources are named relative to \<^verbatim>\<open>src/src/\<close>.

  The program. A container is a header in XML, a keyword section (an index of key blocks and the
  blocks) and a record section (an index of record blocks and the blocks), in one of two binary
  grammars. Opening parses and validates all of it except the blocks, under limits and a memory
  budget; queries then decode single blocks through one-block caches, and look keys up through a
  locator index that is built on demand.

  Theories and what they model.
  \<^item> \<open>Prelude\<close>: widths, fallible computations as sums, slices, big-endian integers.
  \<^item> \<open>Limits\<close> (\<^verbatim>\<open>limits.rs\<close>, \<^verbatim>\<open>error.rs\<close>): errors, limits, and the memory budget as a
    state threaded through computations (\<open>mem\<close>); \<open>accounts m k\<close> says that \<open>m\<close> leaves the budget
    charged with what its result owns. \<open>Budget_Steps\<close>: the same budget shared by threads, one step
    per atomic access.
  \<^item> \<open>Cursor\<close>, \<open>Source\<close>, \<open>Checksum\<close>, \<open>Crypto\<close>, \<open>Compression\<close>, \<open>Utf8\<close>, \<open>Encoding\<close>, \<open>Header\<close>,
    \<open>File_Url\<close>, \<open>Descriptors\<close>, \<open>Tiling\<close> (\<^verbatim>\<open>format/common/\<close>): the parts both grammars use.
  \<^item> \<open>V2_Crypto\<close>, \<open>Record_Sections\<close>, \<open>Keyword_Sections\<close>, \<open>Key_Rows\<close>, \<open>Layout\<close>
    (\<^verbatim>\<open>format/v1/\<close>, \<^verbatim>\<open>format/v2/\<close>, \<^verbatim>\<open>format/mod.rs\<close>): the two grammars and the
    dispatch between them. The two versions differ in the width of their integers, so the record
    section and the key rows are one definition over a field reader, instantiated twice.
  \<^item> \<open>Types\<close>, \<open>Normalize\<close>, \<open>File_State\<close>, \<open>Keys\<close>, \<open>Records\<close>, \<open>Opening\<close>, \<open>Ordered_Index\<close>,
    \<open>Locator\<close>, \<open>Locator_Build\<close>, \<open>Locator_Queries\<close>, \<open>Iter\<close>, \<open>Case_Variants\<close>
    (\<^verbatim>\<open>types.rs\<close>, \<^verbatim>\<open>core/\<close>): one open file. Its state is the budget and three caches; a
    method is a function on that state. \<open>file_inv\<close> is the invariant all methods keep and \<open>runs\<close> the
    triple their lemmas are stated with. \<open>Session\<close>: a client that calls the methods in any order and advances iterators in between;
    there the block an iterator shares with the cache is charged once, and stays charged when the slot
    is evicted until the last iterator lets go of it.
  \<^item> \<open>Lookup_Results\<close>, \<open>Mdx\<close>, \<open>Mdd\<close> (\<^verbatim>\<open>lookup.rs\<close>, \<^verbatim>\<open>mdx.rs\<close>, \<^verbatim>\<open>mdd.rs\<close>): the
    two facades, entries as decoded text and resources as bytes or as a stream of chunks.
  \<^item> \<open>Index_Format\<close>, \<open>Index_Cache\<close>, \<open>Index_Reads\<close>, \<open>Index_Query\<close>, \<open>Index_Answers\<close>,
    \<open>Index_Lookups\<close>, \<open>Index_Facade\<close>, \<open>Index_Opening\<close> (\<^verbatim>\<open>index.rs\<close>,
    \<^verbatim>\<open>core/persistent/\<close>): the key index kept on disk. Its state extends that of the file by one
    verified chunk per section and one page of the checksum table, and by a clock for what the file
    system reports of the dictionary. \<open>px_ok\<close> holds of whatever opened, \<open>chunks_ok\<close> is the invariant
    of the caches, and \<open>index_describes\<close> says that the file lists the keys of the dictionary.
  \<^item> \<open>Sample\<close>, \<open>Index_Sample\<close>: a small open dictionary, a small file and an index of the dictionary, on
    which the properties are exercised.

  Conventions. \<open>usize\<close> and \<open>u64\<close> are natural numbers whose overflow is checked where the code
  checks it; \<open>u8\<close> and \<open>u32\<close> are words. A string is the list of its scalar values, and \<open>utf8\<close> its
  bytes. Third-party code (zlib, LZO, the legacy text decoders, the Unicode lowercase table) is the
  record \<open>externals\<close>; \<open>externals_ok\<close> states what is relied on. Calls on one file are sequential. The
  methods drop a clone of a cached block before its slot is evicted; the iterators, which keep one
  between calls, are the subject of \<open>Session\<close>.
\<close>

section \<open>Records\<close>

text \<open>C1: \<open>read_record_span\<close>, in any state of the caches and of the memory budget. An answer is the slice
  of the decoded record data between the two positions, each byte taken from the record block that
  covers it; when all record blocks decode to \<open>blocks\<close>, that is the slice of their concatenation.
  The answer is never longer than the limit on materialised bytes, and whether the call answers or
  fails, the invariant of the file still holds.\<close>

theorem read_record_span_slice:
  assumes ok: "file_ok X f" and inv: "open_inv X f base st"
    and run: "read_record_span X f start stop st = (r, st')"
  shows "open_inv X f base st' \<and>
    (case r of
       Inl e \<Rightarrow> True
     | Inr bs \<Rightarrow> start \<le> stop \<and> stop \<le> vl_total_decoded_record_len (mf_layout f) \<and>
         length bs = stop - start \<and> length bs \<le> materialized_record_bytes (mf_limits f) \<and>
         (\<forall>k < length bs. record_byte_at X f (start + k) (bs ! k)) \<and>
         (\<forall>blocks. file_records X f blocks \<longrightarrow> bs = slice start stop (concat blocks)))"
proof (cases r)
  case (Inl e)
  then show ?thesis using runsD [OF read_record_span_keeps [OF file_ok_layout [OF ok]] inv run] by simp
next
  case (Inr bs)
  note k = runsD [OF read_record_span_keeps [OF file_ok_layout [OF ok]] inv run]
  have "bs = slice start stop (concat blocks)" if "file_records X f blocks" for blocks
    using iffD1 [OF span_bytes_file [OF file_ok_layout [OF ok] that]] k Inr by simp
  then show ?thesis using k Inr by (simp add: span_bytes_def)
qed

theorem read_record_span_slice_witness:
  "fst (read_record_span sample_externals sample_file 2 7 sample_state) =
     Inr (slice 2 7 (concat [[111, 110, 101, 116], [119, 111, 116, 104, 114, 101, 101]]))"
proof -
  let ?run = "read_record_span sample_externals sample_file 2 7 sample_state"
  have "fst ?run = Inr [101, 116, 119, 111, 116]" by code_simp
  then obtain st' where "?run = (Inr [101, 116, 119, 111, 116], st')" by (cases ?run) auto
  from read_record_span_slice [OF sample_ok sample_inv this] sample_records \<open>fst ?run = _\<close>
  show ?thesis by auto
qed

text \<open>C2: \<open>record_at_ordinal\<close>. The record of the \<open>n\<close>-th key starts at the offset of its row and
  stops where the row of the next key starts, which may be in the next key block, or at the end of
  the record data for the last key. The span is ordered and in bounds, and there is an answer
  exactly for the ordinals of the file.\<close>

theorem record_spans_tile:
  assumes ok: "file_ok X f" and inv: "open_inv X f base st"
    and run: "record_at_ordinal X f n st = (r, st')"
  shows "open_inv X f base st' \<and>
    (case r of
       Inl e \<Rightarrow> True
     | Inr None \<Rightarrow> mf_len f \<le> n
     | Inr (Some d) \<Rightarrow> n < mf_len f \<and>
         (\<exists>row. key_row_at X f n row \<and> rd_key d = \<lparr>ke_ordinal = n, ke_key = row_key row\<rparr> \<and>
            rd_start d = row_record_start row) \<and>
         (if Suc n < mf_len f then \<exists>row. key_row_at X f (Suc n) row \<and> rd_end d = row_record_start row
          else rd_end d = vl_total_decoded_record_len (mf_layout f)) \<and>
         rd_start d \<le> rd_end d \<and> rd_end d \<le> vl_total_decoded_record_len (mf_layout f))"
  using runsD [OF record_at_ordinal_keeps [OF ok] inv run]
  by (auto simp: record_answer_def split: sum.splits option.splits)

theorem record_spans_tile_witness:
  "(case fst (record_at_ordinal sample_externals sample_file 1 sample_state) of
      Inr (Some d) \<Rightarrow> (rd_start d, rd_end d) = (3, 6) \<and> rd_start d \<le> rd_end d
    | _ \<Rightarrow> False) \<and>
   open_inv sample_externals sample_file 0 (snd (record_at_ordinal sample_externals sample_file 1 sample_state))"
proof -
  let ?run = "record_at_ordinal sample_externals sample_file 1 sample_state"
  have v: "case fst ?run of Inr (Some d) \<Rightarrow> (rd_start d, rd_end d) = (3, 6) | _ \<Rightarrow> False" by code_simp
  from record_spans_tile [OF sample_ok sample_inv prod.collapse [of ?run, symmetric]] v
  show ?thesis by (auto split: sum.splits option.splits)
qed

section \<open>Keys\<close>

text \<open>C3: \<open>key_at_ordinal\<close>. An answer for an ordinal of the file is the key of the row that the key
  block covering the ordinal holds at its place; past the last ordinal the answer is \<open>None\<close>. The
  state of the one-block cache plays no part in it.\<close>

theorem key_at_ordinal_answer:
  assumes ok: "file_ok X f" and inv: "open_inv X f base st"
    and run: "key_at_ordinal X f n st = (r, st')"
  shows "open_inv X f base st' \<and>
    (case r of
       Inl e \<Rightarrow> True
     | Inr None \<Rightarrow> mf_len f \<le> n
     | Inr (Some k) \<Rightarrow> n < mf_len f \<and>
         (\<exists>row. key_row_at X f n row \<and> k = \<lparr>ke_ordinal = n, ke_key = row_key row\<rparr>) \<and>
         (\<forall>blocks. file_rows X f blocks \<longrightarrow> ke_key k = row_key (concat blocks ! n)))"
proof -
  note k = runsD [OF key_at_ordinal_keeps [OF ok] inv run]
  have "row = concat blocks ! n" if "file_rows X f blocks" "n < mf_len f" "key_row_at X f n row" for blocks row
    using key_row_at_unique [OF ok that(3) key_row_at_file_rows(2) [OF ok that(1,2)]] .
  then show ?thesis using k by (auto simp: key_answer_def split: sum.splits option.splits)
qed

theorem key_at_ordinal_answer_witness:
  "fst (key_at_ordinal sample_externals sample_file 2 sample_state) =
     Inr (Some \<lparr>ke_ordinal = 2, ke_key = row_key (concat sample_rows ! 2)\<rparr>)"
proof -
  let ?run = "key_at_ordinal sample_externals sample_file 2 sample_state"
  have v: "fst ?run = Inr (Some \<lparr>ke_ordinal = 2, ke_key = ascii ''b''\<rparr>)" by code_simp
  then obtain st' where "?run = (Inr (Some \<lparr>ke_ordinal = 2, ke_key = ascii ''b''\<rparr>), st')" by (cases ?run) auto
  from key_at_ordinal_answer [OF sample_ok sample_inv this] sample_file_rows v show ?thesis by auto
qed

text \<open>C4: \<open>keys_at_ordinals\<close>. The batched query sorts its requests by block and decodes every block once,
  and yet each position of the input, repeated or out of range, gets the answer of the single query.\<close>

theorem keys_at_ordinals_pointwise:
  assumes ok: "file_ok X f" and inv: "open_inv X f base st"
    and batch: "keys_at_ordinals X f ns st = (Inr rs, st')"
    and inv1: "open_inv X f base1 st1" and single: "key_at_ordinal X f (ns ! i) st1 = (Inr r, st1')"
    and i: "i < length ns"
  shows "length rs = length ns \<and> rs ! i = r"
proof -
  have "key_answer X f (ns ! i) (rs ! i)" and len: "length rs = length ns"
    using runs_result [OF keys_at_ordinals_keeps [OF ok] inv batch] i by simp_all
  moreover have "key_answer X f (ns ! i) r"
    using runs_result [OF key_at_ordinal_keeps [OF ok] inv1 single] by simp
  ultimately show ?thesis
    by (auto simp: key_answer_def split: option.splits dest: key_row_at_unique [OF ok] intro!: key_entry.equality)
qed

theorem keys_at_ordinals_pointwise_witness:
  "map (map_option ke_key) (projr (fst (keys_at_ordinals sample_externals sample_file [2, 5, 0, 2] sample_state))) ! 3 =
   map_option ke_key (projr (fst (key_at_ordinal sample_externals sample_file 2 sample_state)))"
proof -
  let ?b = "keys_at_ordinals sample_externals sample_file [2, 5, 0, 2] sample_state"
  let ?s = "key_at_ordinal sample_externals sample_file ([2, 5, 0, 2] ! 3) sample_state"
  have "case fst ?b of Inr _ \<Rightarrow> True | Inl _ \<Rightarrow> False" by code_simp
  then obtain rs where b: "?b = (Inr rs, snd ?b)" by (cases ?b) (auto split: sum.splits)
  have "case fst ?s of Inr _ \<Rightarrow> True | Inl _ \<Rightarrow> False" by code_simp
  then obtain r where s: "?s = (Inr r, snd ?s)" by (cases ?s) (auto split: sum.splits)
  have "length rs = length [2 :: nat, 5, 0, 2] \<and> rs ! 3 = r"
    by (rule keys_at_ordinals_pointwise [OF sample_ok sample_inv b sample_inv s]) simp
  moreover have "fst ?b = Inr rs" and "fst ?s = Inr r" using b s by (metis fst_conv)+
  ultimately show ?thesis by simp
qed

text \<open>C5: A failed key block. When decoding fails for a lasting reason the failure is recorded under the block,
  and asking again replays the same error and leaves the state as it is; only a message that the memory
  budget has no room for goes unrecorded. An error that may pass is not recorded under that block.\<close>

theorem failure_remembered:
  assumes "lasting st" and "decode_key_block X f i st = (Inl e, st')"
  shows "lasting st' \<and>
    (if transient e then \<forall>cf. st_key_cache st' \<noteq> Some (i, Failed cf)
     else (\<exists>cf. st_key_cache st' = Some (i, Failed cf) \<and> replay cf = e \<and>
             decode_key_block X f i st' = (Inl e, st')) \<or>
       (\<exists>ctx. e = InvalidData ctx \<and> isl (fst (claim (length ctx) (st_memory st')))))"
  using decode_key_block_failure [OF assms] by simp

theorem failure_remembered_witness:
  "decode_key_block sample_externals sample_file 7 (snd (decode_key_block sample_externals sample_file 7 sample_state)) =
     (Inl (InvalidFormat ''key block index out of range''),
      snd (decode_key_block sample_externals sample_file 7 sample_state))"
proof -
  let ?e = "InvalidFormat ''key block index out of range''"
  let ?run = "decode_key_block sample_externals sample_file 7 sample_state"
  have e: "fst ?run = Inl ?e" by code_simp
  obtain st' where run: "?run = (Inl ?e, st')" using e by (cases ?run) simp
  have l: "lasting sample_state" by code_simp
  from failure_remembered [OF l run] show ?thesis by (auto simp: run transient_def)
qed

section \<open>Lookup\<close>

text \<open>C6: \<open>locate_keys\<close>. The answer of the locator index, built from the decoded blocks, sorted and
  searched by bisection on normalized bytes, is that of the reference lookup over the list of keys:
  the ordinals of the raw-equal keys when there are any, otherwise those of the keys with the same
  normal form, ascending; no answer when no key has the normal form of the query. The accessors of
  the result read that list.\<close>

theorem locate_keys_reference:
  assumes ok: "file_ok X f" and inv: "open_inv X f base st" and q: "well_formed query"
    and keys: "file_keys X f keys" and run: "locate_keys X f query st = (r, st')"
  shows "open_inv X f base st' \<and>
    (case r of
       Inl e \<Rightarrow> True
     | Inr None \<Rightarrow> reference_lookup X (mf_normalizer f) keys query = None
     | Inr (Some k) \<Rightarrow>
         (\<exists>ns. reference_lookup X (mf_normalizer f) keys query = Some (lk_basis k, ns) \<and>
            lk_len k = length ns \<and> (\<forall>i. lk_ordinal_at k i = get ns i)))"
proof -
  note k = runsD [OF locate_keys_keeps [OF ok q] inv run]
  have len: "located_ok k \<Longrightarrow> lk_len k = length (lk_list k) \<and> (\<forall>i. lk_ordinal_at k i = get (lk_list k) i)" for k
    by (simp add: located_len located_at)
  show ?thesis
  proof (cases r)
    case (Inr a)
    show ?thesis
    proof (cases a)
      case (Some l)
      then have "reference_lookup X (mf_normalizer f) keys query = Some (lk_basis l, lk_list l)" and "located_ok l"
        and "open_inv X f base st'"
        using k Inr by (simp_all add: locate_answer_iff [OF ok keys] located_def)
      then show ?thesis using len [of l] Inr Some by simp
    qed (use k Inr in \<open>simp add: locate_answer_iff [OF ok keys]\<close>)
  qed (use k in simp)
qed

theorem locate_keys_reference_witness:
  "reference_lookup sample_externals (mf_normalizer sample_file) [ascii ''Ab'', ascii ''ab'', ascii ''b''] (ascii ''AB'') =
     Some (HeaderNormalized, [0, 1]) \<and>
   (case fst (locate_keys sample_externals sample_file (ascii ''AB'') sample_state) of
      Inr (Some k) \<Rightarrow> lk_basis k = HeaderNormalized \<and> lk_len k = length [0 :: nat, 1]
    | _ \<Rightarrow> False)"
proof -
  let ?run = "locate_keys sample_externals sample_file (ascii ''AB'') sample_state"
  have q: "well_formed (ascii ''AB'')" by code_simp
  have ref: "reference_lookup sample_externals (mf_normalizer sample_file) [ascii ''Ab'', ascii ''ab'', ascii ''b''] (ascii ''AB'') =
     Some (HeaderNormalized, [0, 1])" by code_simp
  have s: "case fst ?run of Inr (Some k) \<Rightarrow> True | _ \<Rightarrow> False" by code_simp
  obtain r st' where run: "?run = (r, st')" by (cases ?run)
  from locate_keys_reference [OF sample_ok sample_inv q sample_keys run] s ref show ?thesis
    unfolding run fst_conv by (auto split: sum.splits option.splits)
qed

text \<open>C7: \<open>locate_key_page\<close>. A page says on which basis the whole query matched and how many matches there
  are, and holds the window of \<open>limit\<close> ordinals at the offset of the full answer of the reference
  lookup. The page keeps its reservation, which is charged to the budget and covers the ordinals.\<close>

theorem locate_key_page_window:
  assumes ok: "file_ok X f" and inv: "open_inv X f base st" and q: "well_formed query"
    and keys: "file_keys X f keys" and run: "locate_key_page X f query off limit st = (r, st')"
  shows "case r of
       Inl e \<Rightarrow> open_inv X f base st'
     | Inr None \<Rightarrow> open_inv X f base st' \<and> reference_lookup X (mf_normalizer f) keys query = None
     | Inr (Some p) \<Rightarrow> open_inv X f (base + lkp_memory p) st' \<and>
         (\<exists>ns. reference_lookup X (mf_normalizer f) keys query = Some (lkp_basis p, ns) \<and>
            lkp_total p = length ns \<and> lkp_ordinals p = window off limit ns \<and>
            4 * length (lkp_ordinals p) \<le> lkp_memory p)"
  using runsD [OF locate_key_page_runs [OF ok q] inv run]
  by (auto simp: locate_answer_iff [OF ok keys] page_ok_def page_bytes_def split: sum.splits option.splits)

theorem locate_key_page_window_witness:
  "case fst (locate_key_page sample_externals sample_file (ascii ''AB'') 1 5 sample_state) of
     Inr (Some p) \<Rightarrow> lkp_total p = 2 \<and> lkp_ordinals p = window 1 5 [0, 1] | _ \<Rightarrow> False"
proof -
  let ?run = "locate_key_page sample_externals sample_file (ascii ''AB'') 1 5 sample_state"
  have q: "well_formed (ascii ''AB'')" by code_simp
  have ref: "reference_lookup sample_externals (mf_normalizer sample_file) [ascii ''Ab'', ascii ''ab'', ascii ''b''] (ascii ''AB'') =
     Some (HeaderNormalized, [0, 1])" by code_simp
  have s: "case fst ?run of Inr (Some k) \<Rightarrow> True | _ \<Rightarrow> False" by code_simp
  obtain r st' where run: "?run = (r, st')" by (cases ?run)
  from locate_key_page_window [OF sample_ok sample_inv q sample_keys run] s ref show ?thesis
    unfolding run fst_conv by (auto split: sum.splits option.splits)
qed

text \<open>C8: \<open>locate_case_variants\<close>. The two scans of \<open>select_page\<close>, which keep only the requested page, give
  the window of the complete answer: the keys equal to the query, then the keys that differ from it
  in case only, each in the order of the file. There is no page when both classes are empty.\<close>

theorem case_variants_window:
  assumes ok: "file_ok X f" and inv: "open_inv X f base st" and q: "well_formed query"
    and run: "locate_case_variants X f query off limit st = (r, st')"
  shows "case r of
       Inl e \<Rightarrow> open_inv X f base st'
     | Inr p \<Rightarrow> open_inv X f (base + page_bytes p) st' \<and>
         (\<exists>keys. file_keys X f keys \<and>
           (let candidates = case_candidates X (mf_normalizer f) keys query;
                exact = exact_of query candidates; variants = variants_of X query candidates
            in case p of
                 None \<Rightarrow> exact @ variants = []
               | Some p \<Rightarrow> lkp_total p = length (exact @ variants) \<and> lkp_ordinals p = window off limit (exact @ variants) \<and>
                   lkp_basis p = (if variants = [] then RawExact else CaseVariants)))"
proof (cases r)
  case (Inr p)
  then obtain keys where i: "open_inv X f (base + page_bytes p) st'" and ks: "file_keys X f keys"
    and c: "case_page_ok X query off limit (case_candidates X (mf_normalizer f) keys query) p"
    using runsD [OF locate_case_variants_runs [OF ok q] inv run] by auto
  have "(let candidates = case_candidates X (mf_normalizer f) keys query;
                exact = exact_of query candidates; variants = variants_of X query candidates
            in case p of
                 None \<Rightarrow> exact @ variants = []
               | Some p \<Rightarrow> lkp_total p = length (exact @ variants) \<and> lkp_ordinals p = window off limit (exact @ variants) \<and>
                   lkp_basis p = (if variants = [] then RawExact else CaseVariants))"
    using c by (cases p) (simp_all add: case_page_ok_def case_answer_def page_ok_def Let_def)
  then show ?thesis unfolding Inr sum.case using i ks by blast
qed (use runsD [OF locate_case_variants_runs [OF ok q] inv run] in simp)

theorem case_variants_window_witness:
  "case locate_case_variants sample_externals sample_file (ascii ''ab'') 0 5 sample_state of
     (Inr p, st') \<Rightarrow> open_inv sample_externals sample_file (page_bytes p) st' | _ \<Rightarrow> False"
proof -
  let ?run = "locate_case_variants sample_externals sample_file (ascii ''ab'') 0 5 sample_state"
  have q: "well_formed (ascii ''ab'')" by code_simp
  have s: "case fst ?run of Inr (Some p) \<Rightarrow> True | _ \<Rightarrow> False" by code_simp
  obtain r st' where run: "?run = (r, st')" by (cases ?run)
  from case_variants_window [OF sample_ok sample_inv q run] s show ?thesis
    unfolding run fst_conv by (auto split: sum.splits)
qed

text \<open>C9: \<open>locate_prefix\<close>. The rows from the bisection point on, while they start with the prefix, are the
  first \<open>limit\<close> of all the keys whose normal form starts with that of the prefix, sorted by their
  normalized bytes and then by ordinal; and a prefix of the bytes is a prefix of the characters.\<close>

theorem locate_prefix_sorted:
  assumes ok: "file_ok X f" and inv: "open_inv X f base st" and q: "well_formed prefix"
    and run: "locate_prefix X f prefix limit st = (r, st')"
  shows "open_inv X f base st' \<and>
    (case r of
       Inl e \<Rightarrow> True
     | Inr out \<Rightarrow> limit = 0 \<and> out = [] \<or>
         (\<exists>keys ns. file_keys X f keys \<and> distinct ns \<and> out = take limit ns \<and>
            set ns = {n. n < length keys \<and>
              starts_with (normal_form X (mf_normalizer f) prefix) (normal_form X (mf_normalizer f) (keys ! n))} \<and>
            sorted (map (\<lambda>n. (key_text X f keys n, n)) ns)))"
  using runsD [OF locate_prefix_keeps [OF ok q] inv run]
  unfolding prefix_order_def by (auto split: sum.splits)

theorem locate_prefix_sorted_witness:
  "fst (locate_prefix sample_externals sample_file (ascii ''A'') 5 sample_state) = Inr [0, 1] \<and>
   open_inv sample_externals sample_file 0 (snd (locate_prefix sample_externals sample_file (ascii ''A'') 5 sample_state))"
proof -
  let ?run = "locate_prefix sample_externals sample_file (ascii ''A'') 5 sample_state"
  have q: "well_formed (ascii ''A'')" by code_simp
  have v: "fst ?run = Inr [0, 1]" by code_simp
  obtain r st' where run: "?run = (r, st')" by (cases ?run)
  from locate_prefix_sorted [OF sample_ok sample_inv q run] v show ?thesis unfolding run by simp
qed

text \<open>C10: \<open>KeyIter\<close>. Collecting the key iterator of a file either stops at the first error or lists the
  whole file: entry \<open>n\<close> of the list is the key of ordinal \<open>n\<close>, for all of them. One item more
  than there are keys is enough for the loop to have ended.\<close>

theorem key_iterator_lists_file:
  assumes ok: "file_ok X f" and inv: "open_inv X f base st"
    and run: "collect (key_iter_next X f) (Suc (mf_len f)) iter_new st = (r, st')"
  shows "open_inv X f base st' \<and>
    (case r of
       Inl e \<Rightarrow> True
     | Inr ks \<Rightarrow> length ks = mf_len f \<and>
         (\<forall>n < mf_len f. \<exists>row. key_row_at X f n row \<and> ks ! n = \<lparr>ke_ordinal = n, ke_key = row_key row\<rparr>))"
proof -
  have eq: "key_answer X f n (Some k) \<Longrightarrow> \<exists>row. key_row_at X f n row \<and> k = \<lparr>ke_ordinal = n, ke_key = row_key row\<rparr>" for n k
    by (auto simp: key_answer_def)
  show ?thesis
    using drained [where I = "open_inv X f", OF iter_new_at [OF ok] key_iter_steps [OF ok] inv run] eq by (auto split: sum.splits)
qed

theorem key_iterator_lists_file_witness:
  "case fst (collect (key_iter_next sample_externals sample_file) (Suc (mf_len sample_file)) iter_new sample_state) of
     Inr ks \<Rightarrow> map ke_key ks = [ascii ''Ab'', ascii ''ab'', ascii ''b''] \<and> length ks = mf_len sample_file
   | Inl _ \<Rightarrow> False"
proof -
  let ?run = "collect (key_iter_next sample_externals sample_file) (Suc (mf_len sample_file)) iter_new sample_state"
  have v: "case fst ?run of Inr ks \<Rightarrow> map ke_key ks = [ascii ''Ab'', ascii ''ab'', ascii ''b''] | Inl _ \<Rightarrow> False" by code_simp
  obtain r st' where run: "?run = (r, st')" by (cases ?run)
  from key_iterator_lists_file [OF sample_ok sample_inv run] v show ?thesis unfolding run fst_conv by (auto split: sum.splits)
qed

text \<open>C11: \<open>RecordIter\<close>. Collecting the record iterator lists one descriptor per key, in order; every
  record ends where the next one starts and the last one at the end of the record data, so the
  descriptors are a partition of the record data from the first start on.\<close>

theorem record_iterator_tiles_file:
  assumes ok: "file_ok X f" and inv: "open_inv X f base st"
    and run: "collect (record_iter_next X f) (Suc (mf_len f)) iter_new st = (r, st')"
  shows "open_inv X f base st' \<and>
    (case r of
       Inl e \<Rightarrow> True
     | Inr ds \<Rightarrow> length ds = mf_len f \<and> (\<forall>n < mf_len f. record_answer X f n (ds ! n)) \<and>
         (\<forall>n < mf_len f. rd_end (ds ! n) =
            (if Suc n < mf_len f then rd_start (ds ! Suc n) else vl_total_decoded_record_len (mf_layout f))))"
proof -
  note d = drained [where I = "open_inv X f", OF iter_new_at [OF ok] record_iter_steps [OF ok] inv run]
  have adjacent: "rd_end a = rd_start b" if "record_answer X f n a" "record_answer X f (Suc n) b" "Suc n < mf_len f" for n a b
    using that key_row_at_unique [OF ok] unfolding record_answer_def by (metis (no_types, lifting))
  have e: "rd_end (ds ! n) =
      (if Suc n < mf_len f then rd_start (ds ! Suc n) else vl_total_decoded_record_len (mf_layout f))"
    if "\<forall>n < mf_len f. record_answer X f n (ds ! n)" "n < mf_len f" for n ds
    using that adjacent [of n "ds ! n" "ds ! Suc n"] by (auto simp: record_answer_def)
  show ?thesis using d e by (cases r) auto
qed

theorem record_iterator_tiles_file_witness:
  "case fst (collect (record_iter_next sample_externals sample_file) (Suc (mf_len sample_file)) iter_new sample_state) of
     Inr ds \<Rightarrow> map rd_start ds = [0, 3, 6] \<and> length ds = mf_len sample_file
   | Inl _ \<Rightarrow> False"
proof -
  let ?run = "collect (record_iter_next sample_externals sample_file) (Suc (mf_len sample_file)) iter_new sample_state"
  have v: "case fst ?run of Inr ds \<Rightarrow> map rd_start ds = [0, 3, 6] | Inl _ \<Rightarrow> False" by code_simp
  obtain r st' where run: "?run = (r, st')" by (cases ?run)
  from record_iterator_tiles_file [OF sample_ok sample_inv run] v show ?thesis unfolding run fst_conv by (auto split: sum.splits)
qed

section \<open>The dictionary facade\<close>

text \<open>C12: \<open>MdxDictionary::lookup\<close>. The entry belongs to the first ordinal of the reference lookup, and there is
  an answer exactly when that lookup has one. The text of the entry, with some number of NULs put
  back at its end, is the text of the bytes of the record in the encoding of the records, whichever of the
  five that is, and it does not end in a NUL itself.\<close>

theorem mdx_lookup_text:
  assumes ok: "file_ok X f" and inv: "open_inv X f base st" and q: "well_formed query" and keys: "file_keys X f keys"
    and run: "mdx_lookup X f query st = (r, st')"
  shows "open_inv X f base st' \<and>
    (case r of
       Inl e \<Rightarrow> True
     | Inr None \<Rightarrow> reference_lookup X (mf_normalizer f) keys query = None
     | Inr (Some e) \<Rightarrow>
         (\<exists>basis n ns d enc bs k. reference_lookup X (mf_normalizer f) keys query = Some (basis, n # ns) \<and>
            me_key e = \<lparr>ke_ordinal = n, ke_key = keys ! n\<rparr> \<and> record_answer X f n d \<and>
            record_text_encoding f = Inr enc \<and> span_bytes X f (rd_start d) (rd_end d) bs \<and>
            text_bytes X enc (me_text e @ replicate k 0) bs \<and>
            (me_text e = [] \<or> last (me_text e) \<noteq> 0)))"
proof (cases r)
  case (Inl e)
  then show ?thesis using runsD [OF mdx_lookup_keeps [OF ok q] inv run] by simp
next
  case (Inr a)
  note k = runs_result [OF mdx_lookup_keeps [OF ok q] inv run [unfolded Inr]]
  note answer = lookup_answer_keys [OF ok keys k [THEN conjunct2]]
  show ?thesis
  proof (cases a)
    case (Some e)
    obtain basis n ns d where ref: "reference_lookup X (mf_normalizer f) keys query = Some (basis, n # ns)"
      and d: "record_answer X f n d" "entry_of X f d e"
      using answer Some by (auto simp: entry_answer_def)
    have "rd_key d = \<lparr>ke_ordinal = n, ke_key = keys ! n\<rparr>" by (rule record_answer_key [OF ok keys d(1)])
    then have "me_key e = \<lparr>ke_ordinal = n, ke_key = keys ! n\<rparr>" using d(2) by (simp add: entry_of_def)
    moreover obtain enc bs j where "record_text_encoding f = Inr enc" "span_bytes X f (rd_start d) (rd_end d) bs"
      "text_bytes X enc (me_text e @ replicate j 0) bs" "me_text e = [] \<or> last (me_text e) \<noteq> 0"
      by (rule entry_of_text [OF d(2)])
    ultimately show ?thesis using k ref d(1) unfolding Inr Some sum.case option.case add_0_right by blast
  qed (use k answer Inr in simp)
qed

theorem mdx_lookup_text_witness:
  "(case fst (mdx_lookup sample_externals sample_file (ascii ''ab'') sample_state) of
      Inr (Some e) \<Rightarrow> me_text e = ascii ''two'' \<and> ke_key (me_key e) = ascii ''ab''
    | _ \<Rightarrow> False)"
proof -
  let ?run = "mdx_lookup sample_externals sample_file (ascii ''ab'') sample_state"
  have q: "well_formed (ascii ''ab'')"
    and ref: "reference_lookup sample_externals (mf_normalizer sample_file) [ascii ''Ab'', ascii ''ab'', ascii ''b''] (ascii ''ab'') =
      Some (RawExact, [1])" by code_simp+
  have s: "case fst ?run of Inr (Some e) \<Rightarrow> me_text e = ascii ''two'' | _ \<Rightarrow> False" by code_simp
  obtain r st' where run: "?run = (r, st')" by (cases ?run)
  from mdx_lookup_text [OF sample_ok sample_inv q sample_keys run] s ref show ?thesis
    unfolding run fst_conv by (auto split: sum.splits option.splits)
qed

text \<open>C13: \<open>MatchMode\<close>. With case variants asked for, in a dictionary that folds case, the matches are the raw-equal
  keys followed by the case variants if there are any; in every other case they are those of the
  reference lookup. Iterating the matches lists them, \<open>first\<close> never fails, and what the matches own is
  what the budget is charged.\<close>

theorem locate_with_mode_answer:
  assumes ok: "file_ok X f" and inv: "open_inv X f base st" and q: "well_formed query" and keys: "file_keys X f keys"
    and run: "locate_with_mode X f query mode st = (r, st')"
  shows "case r of
       Inl e \<Rightarrow> open_inv X f base st'
     | Inr None \<Rightarrow> open_inv X f base st' \<and> mode_answer X f keys query mode = None
     | Inr (Some k) \<Rightarrow> open_inv X f (base + lk_owned k) st' \<and>
         mode_answer X f keys query mode = Some (lk_basis k, km_iter k) \<and> lk_ordinal_at k 0 = Some (km_first k) \<and>
         km_first k = hd (km_iter k)"
proof -
  have "ks = keys" if "file_keys X f ks" for ks by (rule file_keys_unique [OF ok that keys])
  then show ?thesis
    using runsD [OF locate_with_mode_runs [OF ok q] inv run] km_iter_list km_first_hd
    by (auto simp: matches_ok_def lk_bytes_def located_def split: sum.splits option.splits)
qed

theorem locate_with_mode_answer_witness:
  "mode_answer sample_externals sample_file [ascii ''Ab'', ascii ''ab'', ascii ''b''] (ascii ''ab'') IncludeCaseVariants =
     Some (CaseVariants, [1, 0]) \<and>
   (case fst (locate_with_mode sample_externals sample_file (ascii ''ab'') IncludeCaseVariants sample_state) of
      Inr (Some k) \<Rightarrow> km_iter k = [1, 0] \<and> km_first k = 1
    | _ \<Rightarrow> False)"
proof -
  let ?run = "locate_with_mode sample_externals sample_file (ascii ''ab'') IncludeCaseVariants sample_state"
  have q: "well_formed (ascii ''ab'')"
    and ref: "mode_answer sample_externals sample_file [ascii ''Ab'', ascii ''ab'', ascii ''b''] (ascii ''ab'') IncludeCaseVariants =
     Some (CaseVariants, [1, 0])" by code_simp+
  have s: "case fst ?run of Inr (Some k) \<Rightarrow> True | _ \<Rightarrow> False" by code_simp
  obtain r st' where run: "?run = (r, st')" by (cases ?run)
  from locate_with_mode_answer [OF sample_ok sample_inv q sample_keys run] s ref show ?thesis
    unfolding run fst_conv by (auto simp: eq_commute [of "_ # _" "km_iter _"] split: sum.splits option.splits)
qed



section \<open>The persistent key index\<close>

text \<open>C15: The index file header. A file that starts with the header \<open>build_header\<close> wrote for this dictionary, and has the
  length that header was laid out for, opens under all options that cover the ones it was built with,
  and the header read back is the one built: every section with its place, length and checksums.\<close>

theorem index_built_opens:
  assumes b: "build_header ss identity text_len opts = Inr (hdr, ds, total_len)"
    and o: "validate_options opts = Inr ()" "options_cover opts opts'" "validate_options opts' = Inr ()"
    and i: "identity_ok identity" and ss: "index_sections (ksi_key_count identity) text_len ss"
    and content: "length content = total_len" "take HEADER_BYTES content = hdr" "total_len \<le> isize_max"
    and dict: "fs_len (mf_source f) = ksi_source_bytes identity" "mf_len f = ksi_key_count identity"
      "env (es_clock st) = Inr (ksi_source_bytes identity, ksi_source_modified_unix_nanos identity)"
    and m: "budget_ok (st_memory st)" "mb_used (st_memory st) + HEADER_BYTES \<le> mb_max (st_memory st)"
      "mb_used (st_memory st) + opened_with (header_of ss identity text_len opts) opts' \<le> mb_max (st_memory st)"
  shows "fst (open_index_file env content f identity opts' st) =
    Inr (\<lparr>px_source = index_source_new content, px_header = header_of ss identity text_len opts,
          px_max_row_bytes = decompressed_block_bytes (mf_limits f), px_checksum_policy = kio_checksum_policy opts'\<rparr>,
         replicate SECTION_COUNT verified_chunk_new, verified_chunk_new)"
  by (rule open_index_file_built) (rule assms)+

theorem index_built_opens_witness:
  "fst (open_index_file sample_clock sample_index_content sample_file sample_identity sample_options sample_env_state) =
     Inr (\<lparr>px_source = index_source_new sample_index_content,
           px_header = header_of sample_sections sample_identity 5 sample_options,
           px_max_row_bytes = decompressed_block_bytes (mf_limits sample_file),
           px_checksum_policy = kio_checksum_policy sample_options\<rparr>,
          replicate SECTION_COUNT verified_chunk_new, verified_chunk_new)"
  by (rule index_built_opens [OF sample_built sample_options_ok sample_options_ok(1)])
    (unfold sample_header_of sample_budget, (rule refl sample_budget(1) | code_simp)+)

text \<open>C16: Opening untrusted bytes. Whatever an index file holds, an index that opens is well-formed: every section lies in the
  file and has the chunks and checksums it claims, the lengths of the sections agree with the number of
  keys, the identity is the expected one and that of the dictionary, namely its length when it was opened, its
  number of keys, and the length and modification time that the file system reports during this call, the size is within its limit, and
  the caches start out valid. The budget is charged the caches, and nothing when opening fails.\<close>

theorem index_opens_well_formed:
  assumes inv: "open_inv X f base st" and run: "open_index_file env content f expected opts st = (r, st')"
  shows "case r of
      Inl e \<Rightarrow> open_inv X f base st'
    | Inr (px, cs, ck) \<Rightarrow> open_inv X f (base + opened_with (px_header px) opts) st' \<and> px_ok px \<and>
        xs_bytes (px_source px) = content \<and> length content \<le> kio_max_index_bytes opts \<and>
        px_identity px = expected \<and> px_len px = mf_len f \<and> fs_len (mf_source f) = ksi_source_bytes expected \<and>
        env (es_clock st) = Inr (ksi_source_bytes expected, ksi_source_modified_unix_nanos expected) \<and>
        (\<forall>ist :: index_state. ix_chunks ist = cs \<longrightarrow> ix_checksums ist = ck \<longrightarrow> chunks_ok px ist)"
proof (cases r)
  case (Inl e)
  then show ?thesis using runs_error [OF open_index_file_runs inv run [unfolded Inl]] by simp
next
  case (Inr a)
  from runs_result [OF open_index_file_runs inv run [unfolded Inr]] show ?thesis
    using Inr empty_chunks_ok open_index_file_clock [OF run [unfolded Inr]] by (auto simp: opened_ok_def)
qed

theorem index_opens_well_formed_witness:
  "px_ok sample_px \<and> px_len sample_px = mf_len sample_file \<and>
   sample_clock (es_clock sample_env_state) =
     Inr (ksi_source_bytes sample_identity, ksi_source_modified_unix_nanos sample_identity)"
proof -
  let ?run = "open_index_file sample_clock sample_index_content sample_file sample_identity sample_options sample_env_state"
  have "?run = (Inr (sample_px, replicate 4 verified_chunk_new, verified_chunk_new), snd ?run)"
    using sample_index_opens by (metis prod.collapse)
  from index_opens_well_formed [OF sample_env_inv this] show ?thesis by simp
qed

text \<open>C17: Lookup through an index. Whatever the sections of a well-formed index hold, the ordinals that a lookup returns are
  keys of the dictionary that match the query, because every row is compared with its source key; and
  when the index describes the keys of the dictionary, the answer is that of the reference lookup.\<close>

theorem index_lookup_sound:
  assumes ok: "file_ok X f" and px: "px_ok px" and q: "well_formed query" and keys: "file_keys X f keys"
    and inv: "index_inv px X f (record_cache_ok X f) (locator_cache_ok X f) base st"
    and run: "index_locate X env f px query st = (r, st')"
  shows "case r of
      Inl e \<Rightarrow> index_inv px X f (record_cache_ok X f) (locator_cache_ok X f) base st'
    | Inr a \<Rightarrow> index_inv px X f (record_cache_ok X f) (locator_cache_ok X f) (base + lk_bytes a) st' \<and>
        (case a of None \<Rightarrow> True
         | Some k \<Rightarrow> km_iter k \<noteq> [] \<and>
             (\<forall>n \<in> set (km_iter k). n < mf_len f \<and>
                (lk_basis k = RawExact \<and> keys ! n = query \<or>
                 lk_basis k = HeaderNormalized \<and>
                   normal_form X (mf_normalizer f) (keys ! n) = normal_form X (mf_normalizer f) query))) \<and>
        (index_describes X f px keys \<longrightarrow> map_option located a = reference_lookup X (mf_normalizer f) keys query)"
proof -
  have "length keys = mf_len f" using keys by (simp add: file_keys_def)
  then show ?thesis
    using runsD [OF index_locate_runs [OF ok keys px q] inv run] km_iter_list
    by (auto simp: index_answer_def answer_sound_def located_def split: sum.splits option.splits)
qed

theorem index_lookup_sound_witness:
  "map_sum id (map_option located) (fst (index_locate sample_externals sample_clock sample_file sample_px (ascii ''C'') sample_index_state)) =
     Inr (reference_lookup sample_externals (mf_normalizer sample_file) [ascii ''Ab'', ascii ''ab'', ascii ''b''] (ascii ''C''))"
proof -
  let ?run = "index_locate sample_externals sample_clock sample_file sample_px (ascii ''C'') sample_index_state"
  have q: "well_formed (ascii ''C'')" by code_simp
  obtain r st' where run: "?run = (r, st')" by (cases ?run)
  have "r = Inr None" using sample_index_answers by (simp add: run)
  with index_lookup_sound [OF sample_ok sample_px_ok q sample_keys sample_index_inv run] sample_describes show ?thesis
    by (auto simp: run)
qed

text \<open>C18: Index and locator. Through an index that describes the dictionary, a query in either match mode gets the matches
  that the in-memory locator gives, whatever the state of the caches on either side.\<close>

theorem index_agrees_with_locator:
  assumes ok: "file_ok X f" and px: "px_ok px" and q: "well_formed query" and keys: "file_keys X f keys"
    and d: "index_describes X f px keys"
    and inv: "index_inv px X f (record_cache_ok X f) (locator_cache_ok X f) base st" "open_inv X f base2 st2"
    and indexed: "locate_with_key_index_and_mode X env f px query mode st = (Inr a, st')"
    and located: "locate_with_mode X f query mode st2 = (Inr b, st2')"
  shows "map_option located a = map_option located b"
proof -
  have "mode_answer X f keys query mode = map_option located c" if "matches_ok X f query mode c" for c
    using that file_keys_unique [OF ok keys] by (auto simp: matches_ok_def)
  moreover have "matches_ok X f query mode a"
    using runs_result [OF locate_with_key_index_and_mode_runs [OF ok keys px q d] inv(1) indexed] by simp
  moreover have "matches_ok X f query mode b" using runs_result [OF locate_with_mode_runs [OF ok q] inv(2) located] by simp
  ultimately show ?thesis by metis
qed

theorem index_agrees_with_locator_witness:
  "map_sum id (map_option located) (fst (locate_with_key_index_and_mode sample_externals sample_clock sample_file sample_px
       (ascii ''C'') PreferExact sample_index_state)) =
   map_sum id (map_option located) (fst (locate_with_mode sample_externals sample_file (ascii ''C'') PreferExact sample_state))"
proof -
  let ?a = "locate_with_key_index_and_mode sample_externals sample_clock sample_file sample_px (ascii ''C'') PreferExact sample_index_state"
    and ?b = "locate_with_mode sample_externals sample_file (ascii ''C'') PreferExact sample_state"
  have q: "well_formed (ascii ''C'')" by code_simp
  have "?a = index_locate sample_externals sample_clock sample_file sample_px (ascii ''C'') sample_index_state"
    by (simp add: locate_with_key_index_and_mode_def includes_case_variants_def)
  then obtain st' where a: "?a = (Inr None, st')" using sample_index_answers by (metis prod.collapse)
  have "case fst ?b of Inr _ \<Rightarrow> True | _ \<Rightarrow> False" by code_simp
  then obtain b st2' where b: "?b = (Inr b, st2')" by (cases ?b) (auto split: sum.splits)
  show ?thesis
    using index_agrees_with_locator [OF sample_ok sample_px_ok q sample_keys sample_describes sample_index_inv sample_inv a b]
    by (simp add: a b)
qed

section \<open>Memory\<close>

text \<open>C19: Memory accounting of a session. Whatever methods a client calls on an opened file, in whatever
  order, whether they answer or fail, whichever pages of matches it keeps, and however it advances
  its iterators in between, the budget is charged with the metadata of the layout, the pages that are
  kept, what the caches hold, and the key blocks that were evicted while an iterator held them, to the
  byte; such a block is charged exactly while an iterator holds it. That sum, as well as its peak,
  stays within \<open>working_memory_bytes\<close>.\<close>

theorem session_accounting:
  assumes "session_reachable X content kind opts f s" and "externals_ok X"
    and "working_memory_bytes (opt_limits opts) \<le> u64_max"
  shows "mb_used (st_memory (se_state s)) = layout_bytes (mf_layout f) + sum_list (se_pages s) + detached_bytes s +
      state_bytes (se_state s) \<and>
    (\<forall>k < length (se_detached s). se_detached s ! k \<noteq> None \<longleftrightarrow>
      (\<exists>i \<in> set (se_iters s). ir_hold i = Some (Detached k))) \<and>
    mb_used (st_memory (se_state s)) \<le> mb_peak (st_memory (se_state s)) \<and>
    mb_peak (st_memory (se_state s)) \<le> working_memory_bytes (opt_limits opts)"
  using session_reachable_inv [OF assms]
  by (auto simp: session_inv_def charged_def blocks_held_def file_inv_def budget_ok_def)

theorem session_accounting_witness:
  "let s1 = iterator_next sample_externals demo_file 0
         ((session_new demo_state)\<lparr>se_iters := [\<lparr>ir_kind = Keys, ir_pos = iter_new, ir_hold = None\<rparr>]\<rparr>);
       s = snd (with_arcs (record_at_ordinal sample_externals demo_file 0) s1)
   in mb_used (st_memory (se_state s)) = layout_bytes (mf_layout demo_file) + sum_list (se_pages s) +
        detached_bytes s + state_bytes (se_state s)"
proof -
  define i where "i = \<lparr>ir_kind = Keys, ir_pos = iter_new, ir_hold = None\<rparr>"
  let ?opened = "(session_new demo_state)\<lparr>se_iters := [i]\<rparr>"
  let ?stepped = "iterator_next sample_externals demo_file 0 ?opened"
  let ?after = "snd (with_arcs (record_at_ordinal sample_externals demo_file 0) ?stepped)"
  have first: "session_step sample_externals demo_file (session_new demo_state) ?opened"
    using session_step.open_iterator [of sample_externals demo_file "session_new demo_state" Keys]
    by (simp add: session_new_def i_def)
  have second: "session_step sample_externals demo_file ?opened ?stepped" by (rule session_step.step_iterator) simp
  have third: "session_step sample_externals demo_file ?stepped ?after"
    by (rule session_step.record_of [OF prod.collapse [symmetric]])
  have "(session_step sample_externals demo_file)\<^sup>*\<^sup>* (session_new demo_state) ?after"
    using first second third by (meson rtranclp.rtrancl_into_rtrancl rtranclp.rtrancl_refl)
  then have "session_reachable sample_externals demo_content Mdx open_options_new demo_file ?after"
    unfolding session_reachable_def using demo_opens by blast
  from session_accounting [OF this sample_externals_ok demo_limits] show ?thesis unfolding Let_def i_def by blast
qed

text \<open>C20: The shared budget. In every state that threads reach by interleaving the atomic accesses of
  \<open>claim\<close> and of dropped reservations, the counter is the sum of what the threads hold and is at
  most the maximum; a reservation that is dropped is covered by the counter, so the \<open>fetch_sub\<close>
  does not wrap; and the peak covers the counter unless some thread has yet to raise it.\<close>

theorem budget_no_lost_update:
  assumes "budget_reachable maximum threads (b, ts)" and "maximum \<le> u64_max"
  shows "mb_used b = taken_bytes ts \<and> mb_used b \<le> maximum \<and> mb_peak b \<le> maximum \<and>
    (\<forall>i n. i < length ts \<longrightarrow> ts ! i = Holding n \<longrightarrow> n \<le> mb_used b) \<and>
    ((\<forall>n nxt. Raising n nxt \<notin> set ts) \<longrightarrow> mb_used b \<le> mb_peak b)"
  using budget_reachable_ok [OF assms] taken_le [of _ ts] by (fastforce simp: shared_ok_def covered_def)

theorem budget_no_lost_update_witness:
  "\<exists>b. budget_reachable 10 2 (b, [Raising 4 4, Idle]) \<and> mb_used b = 4 \<and> mb_used b \<le> 10"
proof -
  let ?b = "(budget_new 10)\<lparr>mb_used := 4\<rparr>"
  have 1: "budget_step (budget_start 10 2) (budget_new 10, [Trying 4 0, Idle])"
    using budget_step.load [where i = 0 and ts = "[Idle, Idle]" and b = "budget_new 10" and n = 4]
    by (simp add: budget_start_def budget_new_def numeral_2_eq_2)
  have 2: "budget_step (budget_new 10, [Trying 4 0, Idle]) (?b, [Raising 4 4, Idle])"
    using budget_step.exchange [where i = 0 and ts = "[Trying 4 0, Idle]" and n = 4 and current = 0 and b = "budget_new 10" and nxt = 4]
    by (simp add: budget_new_def u64_max_def)
  have r: "budget_reachable 10 2 (?b, [Raising 4 4, Idle])"
    unfolding budget_reachable_def using 1 2 by (meson converse_rtranclp_into_rtranclp r_into_rtranclp)
  from budget_no_lost_update [OF r] show ?thesis
    by (intro exI [of _ ?b] conjI r) (simp_all add: u64_max_def)
qed

text \<open>C21: \<open>claim\<close>, the operation every method of the file charges memory with, is what the atomic steps of
  one thread amount to when no other thread moves: the same counters, and a reservation held or the
  same error returned.\<close>

theorem claim_refines_steps:
  assumes "i < length ts" and "ts ! i = Idle"
  shows "case claim n b of
      (Inl e, b') \<Rightarrow> budget_step\<^sup>*\<^sup>* (b, ts) (b', ts[i := Refused e])
    | (Inr _, b') \<Rightarrow> budget_step\<^sup>*\<^sup>* (b, ts) (b', ts[i := Holding n])"
  by (rule claim_runs_alone [OF assms])

theorem claim_refines_steps_witness:
  "budget_step\<^sup>*\<^sup>* (budget_new 10, [Idle]) (snd (claim 4 (budget_new 10)), [Holding 4])"
  using claim_refines_steps [where i = 0 and ts = "[Idle]" and n = 4 and b = "budget_new 10"]
  by (simp add: claim_def budget_new_def checked_add_def u64_max_def)

text \<open>C22: The loop of \<open>claim\<close> is obstruction-free. From any state, however stale the value it saw, a thread
  in the loop gets to hold its reservation or to be refused by its own steps alone.\<close>

theorem claim_can_finish:
  assumes "i < length ts" and "ts ! i = Trying n current"
  shows "(\<exists>b'. budget_step\<^sup>*\<^sup>* (b, ts) (b', ts[i := Holding n])) \<or>
    (\<exists>e. budget_step\<^sup>*\<^sup>* (b, ts) (b, ts[i := Refused e]))"
  by (rule claim_finishes [OF assms])

theorem claim_can_finish_witness:
  "(\<exists>b'. budget_step\<^sup>*\<^sup>* (budget_new 10, [Trying 4 7, Holding 3]) (b', [Holding 4, Holding 3])) \<or>
   (\<exists>e. budget_step\<^sup>*\<^sup>* (budget_new 10, [Trying 4 7, Holding 3]) (budget_new 10, [Refused e, Holding 3]))"
  using claim_can_finish [where i = 0 and ts = "[Trying 4 7, Holding 3]" and n = 4 and current = 7 and b = "budget_new 10"] by simp

text \<open>C23: \<open>memory_usage\<close>. The categories reported add up to the bytes in use, but for what remembered failures
  hold and for what is held beside the file: the matches a client keeps, an open key index, the block
  of an iterator, which are in no category. Current, peak and limit are in order.\<close>

theorem memory_usage_exact:
  assumes "open_inv X f (layout_bytes (mf_layout f) + held) st" and "memory_usage f st = Inr mu"
  shows "mu_current_bytes mu = mu_metadata_bytes mu + mu_locator_bytes mu + mu_key_cache_bytes mu +
      mu_record_cache_bytes mu + failure_bytes st + held \<and>
    mu_current_bytes mu \<le> mu_peak_bytes mu \<and> mu_peak_bytes mu \<le> working_memory_bytes (mf_limits f)"
  using memory_usage_adds_up [OF assms] by blast

theorem memory_usage_exact_witness:
  "case locate_key_page sample_externals sample_file (ascii ''ab'') 0 5 sample_state of
     (Inr page, st) \<Rightarrow> page_bytes page = 8 \<and>
       (case memory_usage sample_file st of
          Inr mu \<Rightarrow> mu_current_bytes mu = mu_metadata_bytes mu + mu_locator_bytes mu + mu_key_cache_bytes mu +
            mu_record_cache_bytes mu + failure_bytes st + 8
        | Inl _ \<Rightarrow> False)
   | _ \<Rightarrow> False"
proof -
  let ?run = "locate_key_page sample_externals sample_file (ascii ''ab'') 0 5 sample_state"
  have p: "case ?run of (Inr page, st) \<Rightarrow> page_bytes page = 8 \<and> (case memory_usage sample_file st of Inr _ \<Rightarrow> True | _ \<Rightarrow> False)
      | _ \<Rightarrow> False" by code_simp
  obtain page st where run: "?run = (Inr page, st)" using p by (cases ?run; cases "fst ?run") auto
  obtain mu where mu: "memory_usage sample_file st = Inr mu" using p by (auto simp: run split: sum.splits)
  have q: "well_formed (ascii ''ab'')" by code_simp
  have "open_inv sample_externals sample_file (0 + page_bytes page) st"
    using runs_result [OF locate_key_page_runs [OF sample_ok q] sample_inv run] by blast
  then have "open_inv sample_externals sample_file (layout_bytes (mf_layout sample_file) + 8) st"
    using p by (simp add: run sample_metadata)
  from memory_usage_exact [OF this mu] show ?thesis using p by (simp add: run mu)
qed

section \<open>Opening a file\<close>



text \<open>C25: Layout parsers. What the parser of either version accepts passes \<open>verify\<close>, so that check is a
  backstop that never fires; moreover the blocks tile the block sections byte by byte, everything
  ends within the file, and every block is within its limits.\<close>

theorem verify_backstop:
  assumes "returns (case v of V1 \<Rightarrow> v1_parse_layout X src hs kind opts | V2 \<Rightarrow> v2_parse_layout X src hs kind opts) l"
    and "hs_section hs = section_range_new 0 (hs_keyword_section_offset hs)"
  shows "verify l = Inr () \<and> layout_in_file (case v of V1 \<Rightarrow> 4 | V2 \<Rightarrow> 8) src (opt_limits opts) l"
  using assms v1_parse_layout_ok(1,2) [OF _ assms(2)] v2_parse_layout_ok(1,2) [OF _ assms(2)]
  by (cases v) (simp_all add: verify_iff)

theorem verify_backstop_witness:
  "verify (mf_layout demo_file) = Inr ()"
proof (rule mdict_open_run [OF demo_opens])
  fix src l b
  assume "open_layout sample_externals src Mdx open_options_new
      (budget_new (working_memory_bytes (opt_limits open_options_new))) = (Inr l, b)"
    and f: "demo_file = \<lparr>mf_kind = Mdx, mf_source = src, mf_layout = l,
       mf_normalizer = from_header (vl_header l) Mdx, mf_limits = opt_limits open_options_new,
       mf_checksum_policy = opt_checksum_policy open_options_new\<rparr>"
  then have "returns (open_layout sample_externals src Mdx open_options_new) l" by (intro returnsI)
  from open_layout_run [OF this] obtain hs v
    where hs: "returns (parse_header sample_externals src Mdx (opt_limits open_options_new)
        (opt_checksum_policy open_options_new)) hs"
      and l: "returns (case v of V1 \<Rightarrow> v1_parse_layout sample_externals src hs Mdx open_options_new
        | V2 \<Rightarrow> v2_parse_layout sample_externals src hs Mdx open_options_new) l" by metis
  have "hs_section hs = section_range_new 0 (hs_keyword_section_offset hs)"
    using parse_header_ok(1) [OF hs] by (simp add: header_section_ok_def)
  from verify_backstop [OF l this] show ?thesis by (simp add: f)
qed

section \<open>The two grammars\<close>

text \<open>C26: Record sections of both versions. In an accepted section the index bytes are the printed rows
  themselves, the compressed blocks tile the block range and the decoded ranges tile the record
  data, all within the file, and every block is within its limits.\<close>

theorem record_section_partition:
  assumes "returns ((case v of V1 \<Rightarrow> v1_parse_record_section | V2 \<Rightarrow> v2_parse_record_section) src offset lim) r"
  shows "record_section_ok (case v of V1 \<Rightarrow> 4 | V2 \<Rightarrow> 8) (case v of V1 \<Rightarrow> 16 | V2 \<Rightarrow> 32) src lim offset r"
  using assms by (cases v) (simp_all add: v1_parse_record_section_ok v2_parse_record_section_ok)

theorem record_section_partition_witness:
  "\<exists>r. record_section_ok 4 16 demo_source limits_new 224 r \<and> rs_total_decompressed_len r = 1"
proof -
  let ?run = "v1_parse_record_section demo_source 224 limits_new (budget_new 1000)"
  have t: "case fst ?run of Inr r \<Rightarrow> rs_total_decompressed_len r = 1 | Inl _ \<Rightarrow> False" by code_simp
  then obtain r where r: "fst ?run = Inr r" by (auto split: sum.splits)
  then have "returns (v1_parse_record_section demo_source 224 limits_new) r" by (rule returns_run)
  from record_section_partition [where v = V1, unfolded wire_version.case, OF this]
  have "record_section_ok 4 16 demo_source limits_new 224 r" .
  moreover have "rs_total_decompressed_len r = 1" using t r by simp
  ultimately show ?thesis by blast
qed



text \<open>C28: Key rows of both versions, in every text encoding. A decoded block yields \<open>rows\<close> exactly when its
  bytes are the bytes of those rows one after the other, they are as many as declared and their offsets
  ascend; nothing else is accepted. In UTF-8 and UTF-16LE that is the encoding of the rows: decoding
  and encoding are inverse. No Rust slice is longer than \<open>isize::MAX\<close>.\<close>

theorem key_rows_roundtrip:
  assumes "length bs \<le> isize_max"
  shows "let w = (case v of V1 \<Rightarrow> 4 | V2 \<Rightarrow> 8);
      run = (case v of V1 \<Rightarrow> v1_decode_key_rows | V2 \<Rightarrow> v2_decode_key_rows) X bs ctx;
      counted = (length rows = krc_expected_entries ctx \<and> length rows * size_of_decoded_key_row \<le> isize_max \<and>
        sorted (map row_record_start rows))
    in (run = Inr rows \<longleftrightarrow> (\<exists>bss. bs = concat bss \<and> list_all2 (key_row_bytes w X ctx) rows bss) \<and> counted) \<and>
      (sized_encoding (krc_encoding ctx) \<longrightarrow> 3 * length bs \<le> 2 * isize_max \<longrightarrow>
        (run = Inr rows \<longleftrightarrow> bs = encode_key_rows w (krc_encoding ctx) rows \<and> (\<forall>r \<in> set rows. key_row_ok w ctx r) \<and> counted))"
  using u32_field.decode_key_rows_iff [OF assms] u64_field.decode_key_rows_iff [OF assms] rows_bytes_encode [of ctx bs _ X rows]
  by (cases v) (simp_all add: v1_decode_key_rows_def v2_decode_key_rows_def Let_def)

theorem key_rows_roundtrip_witness:
  "v2_decode_key_rows sample_externals [0, 0, 0, 0, 0, 0, 0, 5, 97, 0]
     \<lparr>krc_encoding = Utf8, krc_expected_entries = 1, krc_total_decoded_record_len = 9\<rparr> =
   Inr [\<lparr>row_key = ascii ''a'', row_record_start = 5\<rparr>]"
proof -
  let ?ctx = "\<lparr>krc_encoding = Utf8, krc_expected_entries = 1, krc_total_decoded_record_len = 9\<rparr>"
  let ?rows = "[\<lparr>row_key = ascii ''a'', row_record_start = 5\<rparr>]"
  have "length [0 :: u8, 0, 0, 0, 0, 0, 0, 5, 97, 0] \<le> isize_max"
    and "sized_encoding (krc_encoding ?ctx)" and "3 * length [0 :: u8, 0, 0, 0, 0, 0, 0, 5, 97, 0] \<le> 2 * isize_max"
    and e: "[0, 0, 0, 0, 0, 0, 0, 5, 97, 0] = encode_key_rows 8 (krc_encoding ?ctx) ?rows \<and>
      (\<forall>r \<in> set ?rows. key_row_ok 8 ?ctx r) \<and> length ?rows = krc_expected_entries ?ctx \<and>
      length ?rows * size_of_decoded_key_row \<le> isize_max \<and> sorted (map row_record_start ?rows)"
    by code_simp+
  from key_rows_roundtrip [OF this(1), where v = V2 and X = sample_externals and ctx = ?ctx and rows = ?rows] this(2-4)
  show ?thesis unfolding wire_version.case Let_def by blast
qed

text \<open>C29: The two bisections, over a verified layout: each finds block \<open>i\<close> exactly when that block covers
  the offset, or the ordinal, and no block exactly past the end.\<close>

theorem interval_search_exact:
  assumes "layout_ok (mf_layout f)"
  shows "(find_record_block (vl_record_blocks (mf_layout f)) x = Some i \<longleftrightarrow>
      i < length (vl_record_blocks (mf_layout f)) \<and> rb_decomp_offset (vl_record_blocks (mf_layout f) ! i) \<le> x \<and>
      x < rb_decomp_offset (vl_record_blocks (mf_layout f) ! i) + rb_decomp_size (vl_record_blocks (mf_layout f) ! i)) \<and>
    (find_record_block (vl_record_blocks (mf_layout f)) x = None \<longleftrightarrow> vl_total_decoded_record_len (mf_layout f) \<le> x) \<and>
    (find_key_block_by_ordinal f x = Inr (Some i) \<longleftrightarrow>
      i < key_block_count f \<and> kb_entry_start_index (vl_key_blocks (mf_layout f) ! i) \<le> x \<and>
      x < kb_entry_start_index (vl_key_blocks (mf_layout f) ! i) + kb_entry_count (vl_key_blocks (mf_layout f) ! i)) \<and>
    (find_key_block_by_ordinal f x = Inr None \<longleftrightarrow> mf_len f \<le> x)"
proof -
  have k: "tiles kb_entry_start_index kb_entry_count 0 (vl_key_blocks (mf_layout f)) (mf_len f)" "mf_len f \<le> u64_max"
    and r: "tiles rb_decomp_offset rb_decomp_size 0 (vl_record_blocks (mf_layout f)) (vl_total_decoded_record_len (mf_layout f))"
      "vl_total_decoded_record_len (mf_layout f) \<le> u64_max"
    using assms by (simp_all add: layout_ok_def mf_len_def)
  show ?thesis
    using record_table.search_iff [OF r] record_table.none_iff [OF r] key_table.search_iff [OF k] key_table.none_iff [OF k]
    by (simp add: find_key_block_eq [OF assms] key_block_count_def)
qed

theorem interval_search_exact_witness:
  "find_record_block (vl_record_blocks (mf_layout sample_file)) 4 = Some 1 \<and>
   find_key_block_by_ordinal sample_file 3 = Inr None"
proof -
  have "1 < length (vl_record_blocks (mf_layout sample_file)) \<and>
      rb_decomp_offset (vl_record_blocks (mf_layout sample_file) ! 1) \<le> 4 \<and>
      4 < rb_decomp_offset (vl_record_blocks (mf_layout sample_file) ! 1) +
        rb_decomp_size (vl_record_blocks (mf_layout sample_file) ! 1) \<and> mf_len sample_file \<le> 3" by code_simp
  then show ?thesis using interval_search_exact [OF file_ok_layout [OF sample_ok]] by blast
qed

section \<open>Parts of the wire format\<close>

text \<open>C30: Text. Decoding gives \<open>s\<close> exactly when the bytes are the text \<open>s\<close> and the output buffer can be
  reserved: \<open>n\<close> bytes for UTF-8, \<open>3 * (n div 2)\<close> for UTF-16LE, the announced maximum for the others, at
  most \<open>isize::MAX\<close>. In UTF-8 and UTF-16LE the bytes of \<open>s\<close> are its encoding, and \<open>s\<close> is well formed. A
  decoded string of any encoding fits the bound that was charged for it beforehand.\<close>

theorem decode_text_exact:
  assumes "externals_ok X"
  shows "(decode X e bs ctx = Inr s \<longleftrightarrow>
      (case e of
         Utf8 \<Rightarrow> well_formed s \<and> bs = utf8 s \<and> length bs \<le> isize_max
       | Utf16Le \<Rightarrow> well_formed s \<and> bs = units_to_le (encode_utf16 s) \<and> length bs div 2 * 3 \<le> isize_max
       | _ \<Rightarrow> ext_decode X e bs = (InputEmpty, length bs, s) \<and>
           (\<exists>m. ext_max_utf8_len X e (length bs) = Some m \<and> m \<le> isize_max))) \<and>
    (decode X e bs ctx = Inr s \<longrightarrow> max_decoded_len X e (length bs) = Inr m \<longrightarrow> str_len s \<le> m)"
proof (intro conjI impI)
  show "decode X e bs ctx = Inr s \<longleftrightarrow>
      (case e of
         Utf8 \<Rightarrow> well_formed s \<and> bs = utf8 s \<and> length bs \<le> isize_max
       | Utf16Le \<Rightarrow> well_formed s \<and> bs = units_to_le (encode_utf16 s) \<and> length bs div 2 * 3 \<le> isize_max
       | _ \<Rightarrow> ext_decode X e bs = (InputEmpty, length bs, s) \<and>
           (\<exists>m. ext_max_utf8_len X e (length bs) = Some m \<and> m \<le> isize_max))"
    unfolding decode_iff by (cases e)
     (auto simp: text_bytes_def decode_room_def sized_encoding_def encode_text_def decodes_to_def split: option.splits)
qed (rule decode_fits [OF assms])

theorem decode_text_exact_witness:
  "decode sample_externals Utf16Le [0x3D, 0xD8, 0x00, 0xDE] ''text'' = Inr [0x1F600] \<and> str_len [0x1F600] \<le> 6"
proof -
  have "well_formed [0x1F600]" and "[0x3D, 0xD8, 0x00, 0xDE] = units_to_le (encode_utf16 [0x1F600])"
    and "max_decoded_len sample_externals Utf16Le (length [0x3D :: u8, 0xD8, 0x00, 0xDE]) = Inr 6"
    and "length [0x3D :: u8, 0xD8, 0x00, 0xDE] div 2 * 3 \<le> isize_max" by code_simp+
  with decode_text_exact [OF sample_externals_ok, of Utf16Le "[0x3D, 0xD8, 0x00, 0xDE]" "''text''" "[0x1F600]" 6]
  show ?thesis unfolding text_encoding.case by blast
qed

text \<open>C31: Compressed blocks. What \<open>decode_block\<close> returns has the declared length, is within both limits,
  carries the declared checksum under the \<open>Verify\<close> policy, and is the stored payload or the output
  of the decompressor the type word names, with its input consumed whole.\<close>

theorem decode_block_sound:
  assumes d: "decode_block X ctx block n lim policy = Inr out"
  shows "length out = n \<and> 8 \<le> length block \<and> length block \<le> compressed_block_bytes lim \<and>
    n \<le> decompressed_block_bytes lim \<and> (policy = Verify \<longrightarrow> adler32 out = u32_from_be (slice 4 8 block)) \<and>
    (take 4 block = [0, 0, 0, 0] \<and> out = drop 8 block \<or>
     take 4 block = [2, 0, 0, 0] \<and>
       ext_inflate X (policy = Skip) (drop 8 block) n = (''Done'', length (drop 8 block), n, out) \<or>
     take 4 block = [1, 0, 0, 0] \<and> (\<exists>f. ext_lzo X = Some f \<and> f (drop 8 block) n = Some (n, out)))"
proof -
  have "take 4 block = [0, 0, 0, 0] \<and> out = drop 8 block \<or>
     take 4 block = [2, 0, 0, 0] \<and>
       ext_inflate X (policy = Skip) (drop 8 block) n = (''Done'', length (drop 8 block), n, out) \<or>
     take 4 block = [1, 0, 0, 0] \<and> (\<exists>f. ext_lzo X = Some f \<and> f (drop 8 block) n = Some (n, out))"
    using decode_block_output [OF d] .
  then show ?thesis using decode_block_ok [OF d] by blast
qed

theorem decode_block_sound_witness:
  "adler32 [111, 110, 101, 116] = u32_from_be (slice 4 8 [0, 0, 0, 0, 4, 72, 1, 183, 111, 110, 101, 116])"
proof -
  have "decode_block sample_externals ''block'' [0, 0, 0, 0, 4, 72, 1, 183, 111, 110, 101, 116] 4 limits_new Verify =
    Inr [111, 110, 101, 116]" by code_simp
  from decode_block_sound [OF this] show ?thesis by blast
qed

text \<open>C32: \<open>ADLER32\<close>. The accumulators of the checksum loop are reduced once per block of 5552 bytes;
  the result is nevertheless that of the closed form, in which the two sums of the whole input are
  taken modulo 65521, so the 32-bit additions between two reductions never wrap.\<close>

theorem adler32_reduction:
  "unat (adler32 bs) = ((length bs + weighted bs) mod 65521) * 65536 + (1 + byte_sum bs) mod 65521"
  by (rule adler32_closed_form)

text \<open>C33: Version 2 keyword index cipher. Under every checksum, decryption inverts the encryption that
  the tests of the program use to build files, in both directions: the plain text of a block is
  \<open>ys\<close> exactly when the block is the encryption of \<open>ys\<close>.\<close>

theorem index_decrypt_iff:
  "decrypt_keyword_index_block checksum xs = ys \<longleftrightarrow> xs = encrypt_keyword_index_block checksum ys"
  by (rule index_cipher.dec_iff)

text \<open>C34: Registration codes. The code that a publisher derives for a user, the Salsa20/8 encryption
  of the keyword header key under the digest of the user identity, printed in hexadecimal, is
  accepted, and unlocks exactly that key.\<close>

theorem registration_code_unlocks:
  assumes "length k = 16" and "code = salsa20_8_xor k (ripemd128 user)"
  shows "derive_keyword_header_key \<lparr>reg_code_hex = encode_hex code, user_id = user\<rparr> = Inr k"
  by (rule header_key_for_code [OF assms])

theorem registration_code_unlocks_witness:
  "derive_keyword_header_key
     \<lparr>reg_code_hex = encode_hex (salsa20_8_xor (replicate 16 7) (ripemd128 [1, 2])), user_id = [1, 2]\<rparr> =
   Inr (replicate 16 7)"
  by (rule registration_code_unlocks) simp_all

text \<open>C35: The header tag. A tag printed with escaped attribute values is parsed back to the same name and
  attributes, for every tag name, every list of distinct attribute names and every value, quotes,
  angle brackets and control characters included.\<close>

theorem header_tag_roundtrip:
  assumes "tag_name_ok tag" and "\<forall>a \<in> set attrs. attribute_name_ok (fst a)" and "distinct (map fst attrs)"
    and "length attrs \<le> header_attributes lim" and "header_attributes lim * 48 \<le> isize_max"
  shows "parse_single_tag (print_tag tag attrs) lim = Inr (tag, attrs)"
  by (rule parse_print_tag [OF assms])

theorem header_tag_roundtrip_witness:
  "parse_single_tag (print_tag (ascii ''Dictionary'') [(ascii ''Title'', ascii ''a < b'')]) limits_new =
     Inr (ascii ''Dictionary'', [(ascii ''Title'', ascii ''a < b'')])"
  by (rule header_tag_roundtrip) (code_simp+)

text \<open>C36: Known attributes. The value of an attribute is the one value that all attributes whose names
  agree up to ASCII case carry; it is absent when there are none; and values that differ are an
  error, whatever their order.\<close>

theorem header_aliases:
  "known_attribute attrs name = Inr r \<longleftrightarrow>
     (case r of None \<Rightarrow> alias_values (ascii name) attrs = []
      | Some x \<Rightarrow> alias_values (ascii name) attrs \<noteq> [] \<and> set (alias_values (ascii name) attrs) = {x})"
  by (rule known_attribute_iff)

text \<open>C37: File URLs. The file URL of an absolute path, in which every byte outside the unreserved set is
  percent-encoded, resolves to that path; the slash is dropped exactly when an ASCII letter and a colon
  follow it.\<close>

theorem file_url_roundtrip:
  assumes "well_formed path" and "path = 47 # p"
  shows "resolve (file_url path) = Inr
    (if \<exists>d after. p = d # 58 # after \<and> (65 \<le> d \<and> d \<le> 90 \<or> 97 \<le> d \<and> d \<le> 122) then p else path)"
  by (rule resolve_file_url_aux [OF assms])

theorem file_url_roundtrip_witness:
  "resolve (file_url (ascii ''/C:/a b'')) = Inr (ascii ''C:/a b'') \<and>
   resolve (file_url (ascii ''/1:/a%'')) = Inr (ascii ''/1:/a%'')"
proof -
  have w: "well_formed (ascii ''/C:/a b'')" "well_formed (ascii ''/1:/a%'')"
    and p: "ascii ''/C:/a b'' = 47 # ascii ''C:/a b''" "ascii ''/1:/a%'' = 47 # ascii ''1:/a%''"
    by code_simp+
  have "ascii ''C:/a b'' = 67 # 58 # ascii ''/a b''" and "ascii ''1:/a%'' = 49 # 58 # ascii ''/a%''" by code_simp+
  with file_url_roundtrip [OF w(1) p(1)] file_url_roundtrip [OF w(2) p(2)] show ?thesis by simp
qed

text \<open>C38: Key normalization. The length computed beforehand, which the memory charge and the locator's
  arena rest on, is the byte length of the normal form; resource paths that differ in leading
  separators or in the style of separators, and keys that differ in ASCII case when case is folded,
  have the same normal form.\<close>

theorem normalization_sound:
  assumes "externals_ok X" and "well_formed raw"
  shows "(normalized_len X n raw = Inr k \<longleftrightarrow> k = str_len (normal_form X n raw) \<and> k \<le> u64_max) \<and>
    (normalize X n raw = Inr s \<longleftrightarrow> s = normal_form X n raw \<and> str_len s \<le> isize_max) \<and>
    well_formed (normal_form X n raw) \<and>
    (kn_resource_path n \<longrightarrow> list_all is_separator seps \<longrightarrow> normal_form X n (seps @ raw) = normal_form X n raw) \<and>
    (kn_resource_path n \<longrightarrow> normal_form X n (map (\<lambda>c. if c = 47 then 92 else c) raw) = normal_form X n raw) \<and>
    (\<not> kn_case_sensitive n \<longrightarrow> normal_form X n (map to_ascii_lowercase raw) = normal_form X n raw)"
  using normalized_len_Inr normalize_Inr normal_form_well_formed [OF assms] normalize_leading
    normalize_separator_style normalize_ascii_case by (auto simp: normal_form_def)

theorem normalization_sound_witness:
  "normal_form sample_externals (from_header sample_header Mdd) (ascii ''//'' @ ascii ''a'') =
   normal_form sample_externals (from_header sample_header Mdd) (ascii ''a'')"
proof -
  have "well_formed (ascii ''a'')" and "kn_resource_path (from_header sample_header Mdd)"
    and "list_all is_separator (ascii ''//'')" by code_simp+
  with normalization_sound [OF sample_externals_ok, of "ascii ''a''"] show ?thesis by blast
qed

end
